(* ===== verification/Prelude.thy ===== *)
theory Prelude
  imports Main "HOL-Library.Word" "HOL-Library.AList" "HOL-Library.Signed_Division"
begin

text \<open>
  Shared vocabulary of the development: the 64-bit signed integers of Go written out on
  \<^typ>\<open>int\<close>, the counters of Go as words, association lists for Go maps, and the
  collections of facts the component theories feed.
\<close>

section \<open>Collections of facts\<close>

text \<open>
  \<open>go_simps\<close> collects the equations that evaluate the arithmetic and library models;
  \<open>frame_simps\<close> the facts that say which fields an operation leaves alone;
  \<open>inv_intros\<close> the preservation lemmas of the invariants.
\<close>

named_theorems go_simps
named_theorems frame_simps
named_theorems inv_intros

section \<open>Signed 64-bit integers\<close>

text \<open>
  Go's \<open>int\<close>, \<open>int64\<close> and \<open>time.Duration\<close> are signed 64-bit integers. Values are kept as
  \<^typ>\<open>int\<close>; an operation of the source that can leave the range is followed by \<open>wrap64\<close>.
\<close>

abbreviation max_int64 :: int where "max_int64 \<equiv> 9223372036854775807"
abbreviation min_int64 :: int where "min_int64 \<equiv> - 9223372036854775808"

definition wrap64 :: "int \<Rightarrow> int" where
  "wrap64 x = (x + 9223372036854775808) mod 18446744073709551616 - 9223372036854775808"

definition int64 :: "int \<Rightarrow> bool" where
  "int64 x \<longleftrightarrow> min_int64 \<le> x \<and> x \<le> max_int64"

lemma int64_wrap64 [simp]: "int64 (wrap64 x)"
proof -
  have "(x + 9223372036854775808) mod 18446744073709551616 < (18446744073709551616 :: int)"
    by (rule pos_mod_bound) simp
  then show ?thesis
    by (simp add: int64_def wrap64_def)
qed

lemma wrap64_id [simp]: "int64 x \<Longrightarrow> wrap64 x = x"
  by (simp add: int64_def wrap64_def mod_pos_pos_trivial)

lemma wrap64_in_range: "min_int64 \<le> x \<Longrightarrow> x \<le> max_int64 \<Longrightarrow> wrap64 x = x"
  by (simp add: int64_def)

lemma wrap64_idem [simp]: "wrap64 (wrap64 x) = wrap64 x"
  by simp

text \<open>Saturation at the ends of the range, as \<open>time.Time.Sub\<close> does it.\<close>

definition sat64 :: "int \<Rightarrow> int" where
  "sat64 x = max min_int64 (min max_int64 x)"

lemma int64_sat64 [simp]: "int64 (sat64 x)"
  by (simp add: int64_def sat64_def)

lemma sat64_in_range: "int64 x \<Longrightarrow> sat64 x = x"
  by (simp add: int64_def sat64_def)

lemma sat64_less_iff:
  "min_int64 \<le> d \<Longrightarrow> d \<le> max_int64 \<Longrightarrow> sat64 x < d \<longleftrightarrow> x < d \<and> min_int64 < d"
  by (auto simp: sat64_def)

lemma sat64_nonpos_iff [simp]: "sat64 x \<le> 0 \<longleftrightarrow> x \<le> 0"
  by (auto simp: sat64_def)

lemma sat64_neg_iff [simp]: "sat64 x < 0 \<longleftrightarrow> x < 0"
  by (auto simp: sat64_def)

section \<open>Lists\<close>

text \<open>The last \<open>k\<close> elements of a list, in order.\<close>

definition last_n :: "nat \<Rightarrow> 'a list \<Rightarrow> 'a list" where
  "last_n k xs = drop (length xs - k) xs"

lemma length_last_n [simp]: "length (last_n k xs) = min k (length xs)"
  by (simp add: last_n_def min_def)

lemma last_n_short: "length xs \<le> k \<Longrightarrow> last_n k xs = xs"
  by (simp add: last_n_def)

lemma last_n_nth: "i < min k (length xs) \<Longrightarrow> last_n k xs ! i = xs ! (length xs - min k (length xs) + i)"
  by (auto simp: last_n_def min_def)

lemma last_n_snoc:
  "0 < k \<Longrightarrow> last_n k (xs @ [x]) = (if length xs < k then xs @ [x] else tl (last_n k xs) @ [x])"
  by (auto simp: last_n_def Suc_diff_le drop_Suc tl_drop)

lemma length_filter_list_update:
  "i < length xs \<Longrightarrow>
   length (filter P (xs[i := x])) + (if P (xs ! i) then 1 else 0)
     = length (filter P xs) + (if P x then 1 else 0)"
proof (induction xs arbitrary: i)
  case Nil
  then show ?case by simp
next
  case (Cons a xs)
  show ?case
  proof (cases i)
    case 0
    then show ?thesis by simp
  next
    case (Suc j)
    with Cons.prems have "j < length xs" by simp
    from Cons.IH [OF this] Suc show ?thesis by simp
  qed
qed

lemma set_update_other: "x \<in> set xs \<Longrightarrow> xs ! j \<noteq> x \<Longrightarrow> x \<in> set (xs[j := y])"
  by (metis in_set_conv_nth length_list_update nth_list_update_neq)

lemma set_update_old: "x \<in> set (xs[j := y]) \<Longrightarrow> x \<noteq> y \<Longrightarrow> x \<in> set xs"
  using set_update_subset_insert [of xs j y] by blast

section \<open>Association lists as Go maps\<close>

lemma AList_update_length:
  "length (AList.update k v al) = (if map_of al k = None then Suc (length al) else length al)"
  by (induction al) (auto split: if_splits)

lemma AList_update_dom: "fst ` set (AList.update k v al) = insert k (fst ` set al)"
  by (induction al) auto

lemma map_of_AList_update [simp]: "map_of (AList.update k v al) k' = (if k' = k then Some v else map_of al k')"
  by (simp add: update_conv')

section \<open>Progress\<close>

text \<open>
  The interface of a liveness argument: from every state in which an invariant holds some steps lead to
  one of smaller cost, unless the goal is reached. Then the goal can be reached.
\<close>

locale progress =
  fixes step :: "'s \<Rightarrow> 's \<Rightarrow> bool"
    and inv :: "'s \<Rightarrow> bool"
    and goal :: "'s \<Rightarrow> bool"
    and cost :: "'s \<Rightarrow> nat"
  assumes advances: "inv s \<Longrightarrow> \<not> goal s \<Longrightarrow> \<exists>s'. step\<^sup>*\<^sup>* s s' \<and> inv s' \<and> cost s' < cost s"
begin

lemma reaches: "inv s \<Longrightarrow> \<exists>s'. step\<^sup>*\<^sup>* s s' \<and> inv s' \<and> goal s'"
proof (induction "cost s" arbitrary: s rule: less_induct)
  case less
  show ?case
  proof (cases "goal s")
    case False
    with advances less.prems obtain s1 where s1: "step\<^sup>*\<^sup>* s s1" "inv s1" "cost s1 < cost s" by blast
    with less.hyps obtain s' where "step\<^sup>*\<^sup>* s1 s'" "inv s'" "goal s'" by blast
    with s1(1) show ?thesis by (metis rtranclp_trans)
  qed (use less.prems in blast)
qed

end

end
