(* ===== verification/Go_Errors.thy ===== *)
theory Go_Errors
  imports Prelude
begin

text \<open>
  Go errors as values: the sentinels and error types of errors.go and state.go, the errors of the
  standard library the code tells apart, and \<open>errors.Is\<close> / \<open>errors.As\<close> as searches through
  the tree of wrapped errors. \<open>isRetryable\<close> of circuitbreaker.go is here too, because it is a
  function of the error alone.
\<close>

section \<open>Error values\<close>

text \<open>
  \<open>CtxCanceled\<close> and \<open>CtxDeadlineExceeded\<close> are the two context errors. \<open>UrlError\<close> is
  \<open>*url.Error\<close>, which \<open>http.Client\<close> wraps around the error of the transport. \<open>NetErr m t p e\<close> is any
  other type that implements \<open>net.Error\<close>, with its text, the answers of \<open>Timeout()\<close> and
  \<open>Temporary()\<close> and what it unwraps to. \<open>Wrapped\<close> is \<open>fmt.Errorf\<close> with \<open>%w\<close>, \<open>Joined\<close> is
  \<open>errors.Join\<close>, \<open>Plain\<close> is \<open>errors.New\<close>. \<open>RetriesExhausted\<close> is \<open>*retriesExhaustedError\<close>:
  its \<open>last\<close> is nil in the sentinel. \<open>LocalOp\<close> is \<open>*localOpError\<close>.
\<close>

datatype go_error =
    CtxCanceled
  | CtxDeadlineExceeded
  | ErrStopped
  | ErrCircuitOpen
  | RetriesExhausted "go_error option"
  | LocalOp go_error
  | UrlError string string go_error
  | NetErr string bool bool "go_error option"
  | Wrapped string go_error
  | Joined "go_error list"
  | Plain string

definition ErrRetriesExhausted :: go_error where
  "ErrRetriesExhausted = RetriesExhausted None"

text \<open>
  The errors that \<open>errors.Is\<close> and \<open>errors.As\<close> visit, in pre-order: the error itself, then what
  \<open>Unwrap\<close> gives.
\<close>

fun error_chain :: "go_error \<Rightarrow> go_error list" where
  "error_chain (RetriesExhausted (Some e)) = RetriesExhausted (Some e) # error_chain e"
| "error_chain (LocalOp e) = LocalOp e # error_chain e"
| "error_chain (UrlError op url e) = UrlError op url e # error_chain e"
| "error_chain (NetErr m t p (Some e)) = NetErr m t p (Some e) # error_chain e"
| "error_chain (Wrapped m e) = Wrapped m e # error_chain e"
| "error_chain (Joined es) = Joined es # concat (map error_chain es)"
| "error_chain e = [e]"

lemma error_chain_self [simp]: "e \<in> set (error_chain e)"
  by (cases e rule: error_chain.cases) auto

text \<open>
  \<open>errors.Is(err, target)\<close>: some visited error equals the target, or its own \<open>Is\<close> method says
  so. Only \<open>*retriesExhaustedError\<close> has an \<open>Is\<close> method: it answers true for every target of its
  own type.
\<close>

fun retriesExhaustedError_Is :: "go_error \<Rightarrow> bool" where
  "retriesExhaustedError_Is (RetriesExhausted _) = True"
| "retriesExhaustedError_Is _ = False"

fun error_matches :: "go_error \<Rightarrow> go_error \<Rightarrow> bool" where
  "error_matches (RetriesExhausted e) target \<longleftrightarrow>
     RetriesExhausted e = target \<or> retriesExhaustedError_Is target"
| "error_matches e target \<longleftrightarrow> e = target"

definition errors_Is :: "go_error \<Rightarrow> go_error \<Rightarrow> bool" where
  "errors_Is err target \<longleftrightarrow> list_ex (\<lambda>e. error_matches e target) (error_chain err)"

text \<open>\<open>errors.As\<close> stops at the first visited error of the wanted type.\<close>

definition errors_As :: "(go_error \<Rightarrow> bool) \<Rightarrow> go_error \<Rightarrow> go_error option" where
  "errors_As is_type err = List.find is_type (error_chain err)"

fun is_localOpError :: "go_error \<Rightarrow> bool" where
  "is_localOpError (LocalOp _) = True"
| "is_localOpError _ = False"

fun is_urlError :: "go_error \<Rightarrow> bool" where
  "is_urlError (UrlError _ _ _) = True"
| "is_urlError _ = False"

text \<open>The types that implement \<open>net.Error\<close>: the context deadline error is one of them.\<close>

fun is_netError :: "go_error \<Rightarrow> bool" where
  "is_netError (NetErr _ _ _ _) = True"
| "is_netError (UrlError _ _ _) = True"
| "is_netError CtxDeadlineExceeded = True"
| "is_netError _ = False"

text \<open>
  \<open>Timeout()\<close> and \<open>Temporary()\<close>. \<open>*url.Error\<close> asks the error it holds by a direct type
  assertion, so it does not see through \<open>%w\<close>; an error without the method counts as false.
\<close>

fun Timeout :: "go_error \<Rightarrow> bool" where
  "Timeout (NetErr _ t _ _) = t"
| "Timeout (UrlError _ _ e) = Timeout e"
| "Timeout CtxDeadlineExceeded = True"
| "Timeout _ = False"

fun Temporary :: "go_error \<Rightarrow> bool" where
  "Temporary (NetErr _ _ p _) = p"
| "Temporary (UrlError _ _ e) = Temporary e"
| "Temporary CtxDeadlineExceeded = True"
| "Temporary _ = False"

section \<open>Error texts\<close>

text \<open>The texts of the package's own errors (errors.go, state.go).\<close>

definition ErrStopped_text :: string where
  "ErrStopped_text = ''circuit breaker stopped''"

definition ErrCircuitOpen_text :: string where
  "ErrCircuitOpen_text = ''circuit breaker is open''"

definition retriesExhaustedError_Error :: string where
  "retriesExhaustedError_Error = ''request failed after retries''"

section \<open>Retry classification\<close>

definition isRetryable :: "go_error \<Rightarrow> bool" where
  "isRetryable err =
     (case errors_As is_netError err of
        Some netErr \<Rightarrow> Temporary netErr \<or> Timeout netErr
      | None \<Rightarrow> False)"

section \<open>Facts\<close>

lemma errors_Is_refl [simp]: "errors_Is e e"
proof -
  have "error_matches e e"
    by (cases e) simp_all
  then show ?thesis
    unfolding errors_Is_def list_ex_iff using error_chain_self by blast
qed

lemma errors_Is_sentinel [simp]:
  "errors_Is (RetriesExhausted cause) ErrRetriesExhausted"
  by (cases cause) (simp_all add: errors_Is_def ErrRetriesExhausted_def)

text \<open>What the last failure matches, the exhaustion error matches too.\<close>

lemma errors_Is_unwrap:
  "errors_Is e target \<Longrightarrow> errors_Is (RetriesExhausted (Some e)) target"
  by (simp add: errors_Is_def)

lemma errors_As_unwrap:
  "errors_As p e = Some x \<Longrightarrow> \<not> p (RetriesExhausted (Some e)) \<Longrightarrow>
   errors_As p (RetriesExhausted (Some e)) = Some x"
  by (simp add: errors_As_def)

lemma isRetryable_UrlError [simp]:
  "isRetryable (UrlError op url e) \<longleftrightarrow> Temporary e \<or> Timeout e"
  by (simp add: isRetryable_def errors_As_def)

lemma isRetryable_plain [simp]: "\<not> isRetryable (Plain m)"
  by (simp add: isRetryable_def errors_As_def)

end
