(* ===== verification/Go_Time.thy ===== *)
theory Go_Time
  imports Prelude
begin

text \<open>
  The part of Go's \<open>time\<close> package the breaker uses. A \<open>time.Time\<close> is the number of
  nanoseconds since the Unix epoch, as an unbounded integer (Go keeps seconds and nanoseconds in
  separate fields, so a sum of a time and a duration does not overflow). A \<open>time.Duration\<close> is a
  signed 64-bit number of nanoseconds: an integer, with \<open>wrap64\<close> where the source multiplies or
  doubles one. The clock of the process is taken to be monotonic, as the monotonic reading inside
  \<open>time.Now()\<close> makes it for \<open>Sub\<close>.
\<close>

type_synonym gotime = int
type_synonym duration = int

abbreviation millisecond :: duration where "millisecond \<equiv> 1000000"
abbreviation second :: duration where "second \<equiv> 1000000000"
abbreviation minute :: duration where "minute \<equiv> 60000000000"

text \<open>The zero \<open>time.Time\<close>: 1 January of year 1, UTC.\<close>

definition zero_time :: gotime where
  "zero_time = - 62135596800 * 1000000000"

text \<open>\<open>t.Sub(u)\<close> saturates at the largest and the smallest duration.\<close>

definition time_sub :: "gotime \<Rightarrow> gotime \<Rightarrow> duration" where
  "time_sub t u = sat64 (t - u)"

text \<open>\<open>t.Add(d)\<close>.\<close>

definition time_add :: "gotime \<Rightarrow> duration \<Rightarrow> gotime" where
  "time_add t d = t + d"

text \<open>\<open>time.Until(t)\<close> is \<open>t.Sub(time.Now())\<close>, with the clock reading as an argument.\<close>

definition time_until :: "gotime \<Rightarrow> gotime \<Rightarrow> duration" where
  "time_until t now = time_sub t now"

text \<open>
  \<open>t.Unix()\<close> is the floor of the seconds. \<open>t.UnixNano()\<close> is an \<open>int64\<close>: outside the years
  1678 to 2262 the nanoseconds wrap around. \<open>time.Unix(0, n)\<close> goes back.
\<close>

definition unix :: "gotime \<Rightarrow> int" where
  "unix t = t div 1000000000"

definition unix_nano :: "gotime \<Rightarrow> int" where
  "unix_nano t = wrap64 t"

definition time_unix_0 :: "int \<Rightarrow> gotime" where
  "time_unix_0 n = n"

lemma time_sub_less_iff:
  "0 < d \<Longrightarrow> d \<le> max_int64 \<Longrightarrow> time_sub t u < d \<longleftrightarrow> t - u < d"
  by (auto simp: time_sub_def sat64_def)

lemma time_sub_nonpos_iff [simp]: "time_sub t u \<le> 0 \<longleftrightarrow> t \<le> u"
  by (simp add: time_sub_def)

lemma time_until_nonpos_iff [simp]: "time_until t now \<le> 0 \<longleftrightarrow> t \<le> now"
  by (simp add: time_until_def)

lemma int64_time_sub [simp]: "int64 (time_sub t u)"
  by (simp add: time_sub_def)

lemma unix_nano_id [simp]: "int64 t \<Longrightarrow> unix_nano t = t"
  by (simp add: unix_nano_def)

lemma unix_mono: "t \<le> u \<Longrightarrow> unix t \<le> unix u"
  by (simp add: unix_def zdiv_mono1)

lemma unix_nonneg: "0 \<le> t \<Longrightarrow> 0 \<le> unix t"
  by (simp add: unix_def)

end
