(* ===== verification/Go_Http.thy ===== *)
theory Go_Http
  imports Go_Errors Go_Time
begin

text \<open>
  The parts of \<open>net/http\<close> and \<open>context\<close> that \<open>Do\<close> reads and writes. The transport itself is
  not modelled: its answer is an input of the step that waits for it.
\<close>

section \<open>Contexts\<close>

text \<open>
  A context is live while \<open>ctx_err\<close> is \<open>None\<close>; once done it keeps its first error. Its deadline,
  if any, is an instant.
\<close>

record go_context =
  ctx_err :: "go_error option"
  ctx_deadline :: "gotime option"

definition background :: go_context where
  "background = \<lparr>ctx_err = None, ctx_deadline = None\<rparr>"

definition ctx_finish :: "go_error \<Rightarrow> go_context \<Rightarrow> go_context" where
  "ctx_finish e c = (case ctx_err c of None \<Rightarrow> c\<lparr>ctx_err := Some e\<rparr> | Some _ \<Rightarrow> c)"

text \<open>The \<open>cancel\<close> function of a derived context.\<close>

definition ctx_cancel :: "go_context \<Rightarrow> go_context" where
  "ctx_cancel c = ctx_finish CtxCanceled c"

text \<open>\<open>context.WithTimeout(parent, d)\<close>: the earlier of the two deadlines.\<close>

definition with_timeout :: "gotime \<Rightarrow> duration \<Rightarrow> go_context \<Rightarrow> go_context" where
  "with_timeout now d c = c\<lparr>ctx_deadline :=
     (case ctx_deadline c of
        None \<Rightarrow> Some (time_add now d)
      | Some t \<Rightarrow> Some (min t (time_add now d)))\<rparr>"

lemma ctx_finish_err: "ctx_err (ctx_finish e c) = (case ctx_err c of None \<Rightarrow> Some e | Some e' \<Rightarrow> Some e')"
  by (auto simp: ctx_finish_def split: option.splits)

lemma with_timeout_err [simp]: "ctx_err (with_timeout now d c) = ctx_err c"
  by (simp add: with_timeout_def)

section \<open>Requests, clients and responses\<close>

record url =
  Host :: string
  Path :: string

text \<open>
  Of the body only its presence matters to \<open>Do\<close>: whether \<open>Body\<close> is non-nil, and whether
  \<open>GetBody\<close> can rewind it.
\<close>

record request =
  URL :: "url option"
  has_Body :: bool
  has_GetBody :: bool
  Ctx :: go_context

record client =
  client_Timeout :: duration

definition http_DefaultClient :: client where
  "http_DefaultClient = \<lparr>client_Timeout = 0\<rparr>"

text \<open>
  A response body is what the transport made, or \<open>*cancelOnClose\<close> around another body.
\<close>

datatype body = NetBody | CancelOnClose body

record response =
  StatusCode :: int
  Header_RetryAfter :: string
  Body :: "body option"

text \<open>\<open>Body.Close()\<close>, as far as the context of the call is concerned (\<open>cancelOnClose.Close\<close>).\<close>

fun body_Close :: "body \<Rightarrow> go_context \<Rightarrow> go_context" where
  "body_Close NetBody c = c"
| "body_Close (CancelOnClose b) c = ctx_cancel (body_Close b c)"

abbreviation StatusTooManyRequests :: int where "StatusTooManyRequests \<equiv> 429"
abbreviation StatusServiceUnavailable :: int where "StatusServiceUnavailable \<equiv> 503"

end
