(* ===== verification/Breaker_State.thy ===== *)
theory Breaker_State
  imports Go_Http "HOL-Library.Multiset"
begin

text \<open>
  The closed / open / half-open machine of state.go: its data, \<open>allow\<close>, \<open>report\<close> and
  \<open>classifyOutcome\<close>, the invariant every operation keeps, an abstract machine it refines, and the
  interface (\<open>admission\<close>) through which calls in flight are accounted for. Every operation runs
  under the machine's mutex, so each is one step of the model.
\<close>

section \<open>Data\<close>

datatype BreakerState = StateDisabled | StateClosed | StateOpen | StateHalfOpen

fun BreakerState_String :: "BreakerState \<Rightarrow> string" where
  "BreakerState_String StateClosed = ''closed''"
| "BreakerState_String StateOpen = ''open''"
| "BreakerState_String StateHalfOpen = ''half-open''"
| "BreakerState_String StateDisabled = ''disabled''"

datatype outcome = outcomeNeutral | outcomeSuccess | outcomeFailure

record breakerState =
  threshold :: int
  openFor :: duration
  maxProbes :: int
  cur :: BreakerState
  consecFails :: int
  openedAt :: gotime
  probes :: int
  gen :: "64 word"
  halfOpenAt :: gotime

section \<open>Operations\<close>

definition newBreakerState :: "int \<Rightarrow> duration \<Rightarrow> int \<Rightarrow> breakerState" where
  "newBreakerState thr open_for max_probes =
     \<lparr>threshold = (if thr < 1 then 1 else thr),
      openFor = (if open_for \<le> 0 then 30 * second else open_for),
      maxProbes = (if max_probes < 1 then 1 else max_probes),
      cur = StateClosed, consecFails = 0, openedAt = zero_time, probes = 0, gen = 0,
      halfOpenAt = zero_time\<rparr>"

definition enterHalfOpen :: "gotime \<Rightarrow> breakerState \<Rightarrow> breakerState" where
  "enterHalfOpen now b = b\<lparr>cur := StateHalfOpen, probes := 0, gen := gen b + 1, halfOpenAt := now\<rparr>"

text \<open>
  \<open>allow\<close>: the branch for half-open is shared, because the open branch falls through to it once
  it has entered half-open. The result is the error, or the pair (probe, generation).
\<close>

definition allow_half_open :: "gotime \<Rightarrow> breakerState \<Rightarrow> (go_error + bool \<times> 64 word) \<times> breakerState" where
  "allow_half_open now b =
     (if maxProbes b \<le> probes b then
        if time_sub now (halfOpenAt b) < openFor b then (Inl ErrCircuitOpen, b)
        else let b = enterHalfOpen now b; b = b\<lparr>probes := probes b + 1\<rparr> in (Inr (True, gen b), b)
      else let b = b\<lparr>probes := probes b + 1\<rparr> in (Inr (True, gen b), b))"

definition allow :: "gotime \<Rightarrow> breakerState \<Rightarrow> (go_error + bool \<times> 64 word) \<times> breakerState" where
  "allow now b =
     (case cur b of
        StateOpen \<Rightarrow>
          if time_sub now (openedAt b) < openFor b then (Inl ErrCircuitOpen, b)
          else allow_half_open now (enterHalfOpen now b)
      | StateHalfOpen \<Rightarrow> allow_half_open now b
      | _ \<Rightarrow> (Inr (False, 0), b))"

text \<open>\<open>report\<close>; \<open>now\<close> is the clock reading it takes when it opens the circuit.\<close>

definition report :: "gotime \<Rightarrow> bool \<Rightarrow> 64 word \<Rightarrow> outcome \<Rightarrow> breakerState \<Rightarrow> breakerState" where
  "report now probe g out b =
     (if probe \<and> g \<noteq> gen b then b
      else case cur b of
        StateClosed \<Rightarrow>
          (case out of
             outcomeSuccess \<Rightarrow> b\<lparr>consecFails := 0\<rparr>
           | outcomeFailure \<Rightarrow>
               let b = b\<lparr>consecFails := consecFails b + 1\<rparr>
               in if threshold b \<le> consecFails b then b\<lparr>cur := StateOpen, openedAt := now\<rparr> else b
           | outcomeNeutral \<Rightarrow> b)
      | StateHalfOpen \<Rightarrow>
          if \<not> probe then b
          else (case out of
             outcomeSuccess \<Rightarrow> b\<lparr>cur := StateClosed, consecFails := 0\<rparr>
           | outcomeFailure \<Rightarrow> b\<lparr>cur := StateOpen, openedAt := now\<rparr>
           | outcomeNeutral \<Rightarrow> b\<lparr>probes := probes b - 1\<rparr>)
      | _ \<Rightarrow> b)"

text \<open>\<open>State()\<close> of a breaker: disabled when it was built without \<open>WithBreaker\<close>.\<close>

definition State :: "breakerState option \<Rightarrow> BreakerState" where
  "State st = (case st of None \<Rightarrow> StateDisabled | Some b \<Rightarrow> cur b)"

text \<open>\<open>classifyOutcome\<close>: the arms in the order of the source, the first that applies wins.\<close>

definition classifyOutcome :: "response option \<Rightarrow> go_error option \<Rightarrow> int \<Rightarrow> outcome" where
  "classifyOutcome resp err statusFailMin =
     (case err of
        None \<Rightarrow>
          (case resp of
             Some r \<Rightarrow> if 0 < statusFailMin \<and> statusFailMin \<le> StatusCode r
                      then outcomeFailure else outcomeSuccess
           | None \<Rightarrow> outcomeSuccess)
      | Some e \<Rightarrow>
          if errors_Is e CtxCanceled then outcomeNeutral
          else if errors_As is_localOpError e \<noteq> None then outcomeNeutral
          else if errors_As is_urlError e \<noteq> None then outcomeFailure
          else if errors_Is e CtxDeadlineExceeded \<or> errors_Is e ErrStopped then outcomeNeutral
          else outcomeFailure)"


section \<open>Invariant\<close>

text \<open>
  The limits are the sanitised ones, the failure count stays below the threshold while the
  circuit is closed (so it cannot overflow), and no more probes are counted than allowed.
\<close>

definition bs_inv :: "breakerState \<Rightarrow> bool" where
  "bs_inv b \<longleftrightarrow>
     1 \<le> threshold b \<and> 0 < openFor b \<and> openFor b \<le> max_int64 \<and> 1 \<le> maxProbes b \<and>
     cur b \<noteq> StateDisabled \<and> 0 \<le> consecFails b \<and> consecFails b \<le> threshold b \<and>
     (cur b = StateClosed \<longrightarrow> consecFails b < threshold b) \<and> probes b \<le> maxProbes b"

lemma bs_inv_cases:
  assumes "bs_inv b"
  obtains (closed) "cur b = StateClosed" | (opened) "cur b = StateOpen" | (half) "cur b = StateHalfOpen"
  using assms by (cases "cur b") (auto simp: bs_inv_def)

lemma bs_inv_new [inv_intros]: "d \<le> max_int64 \<Longrightarrow> bs_inv (newBreakerState n d p)"
  by (simp add: bs_inv_def newBreakerState_def)

lemma bs_inv_enterHalfOpen [inv_intros]: "bs_inv b \<Longrightarrow> bs_inv (enterHalfOpen now b)"
  by (auto simp: bs_inv_def enterHalfOpen_def)

lemma bs_inv_allow_half_open:
  "bs_inv b \<Longrightarrow> cur b = StateHalfOpen \<Longrightarrow> bs_inv (snd (allow_half_open now b))"
  by (auto simp: bs_inv_def allow_half_open_def enterHalfOpen_def Let_def)

lemma cur_enterHalfOpen [simp]: "cur (enterHalfOpen now b) = StateHalfOpen"
  by (simp add: enterHalfOpen_def)

lemma bs_inv_allow [inv_intros]: "bs_inv b \<Longrightarrow> bs_inv (snd (allow now b))"
  by (auto simp: allow_def bs_inv_allow_half_open bs_inv_enterHalfOpen split: BreakerState.splits)

lemma bs_inv_report [inv_intros]: "bs_inv b \<Longrightarrow> bs_inv (report now pr g out b)"
  by (auto simp: bs_inv_def report_def Let_def split: BreakerState.splits outcome.splits)

text \<open>The limits are never written after construction.\<close>

lemma allow_limits [frame_simps]:
  "threshold (snd (allow now b)) = threshold b"
  "openFor (snd (allow now b)) = openFor b"
  "maxProbes (snd (allow now b)) = maxProbes b"
  by (auto simp: allow_def allow_half_open_def enterHalfOpen_def Let_def split: BreakerState.splits)

lemma report_limits [frame_simps]:
  "threshold (report now pr g out b) = threshold b"
  "openFor (report now pr g out b) = openFor b"
  "maxProbes (report now pr g out b) = maxProbes b"
  by (auto simp: report_def Let_def split: BreakerState.splits outcome.splits)

lemma report_gen [frame_simps]: "gen (report now pr g out b) = gen b"
  by (auto simp: report_def Let_def split: BreakerState.splits outcome.splits)

section \<open>The abstract machine\<close>

text \<open>
  What the machine promises, with only the data each state needs: the failures counted while
  closed, the instant it opened, and the start and the occupancy of the half-open period. Times
  are compared exactly and no arm falls through.
\<close>

datatype circuit = Closed int | Opened gotime | Half gotime int

datatype verdict = Rejected | Normal | Probe bool

fun spec_allow :: "duration \<Rightarrow> int \<Rightarrow> gotime \<Rightarrow> circuit \<Rightarrow> verdict \<times> circuit" where
  "spec_allow dur maxp now (Closed k) = (Normal, Closed k)"
| "spec_allow dur maxp now (Opened t) =
     (if now < t + dur then (Rejected, Opened t) else (Probe True, Half now 1))"
| "spec_allow dur maxp now (Half t n) =
     (if n < maxp then (Probe False, Half t (n + 1))
      else if now < t + dur then (Rejected, Half t n)
      else (Probe True, Half now 1))"

fun spec_report :: "int \<Rightarrow> gotime \<Rightarrow> bool \<Rightarrow> outcome \<Rightarrow> circuit \<Rightarrow> circuit" where
  "spec_report thr now probe outcomeSuccess (Closed k) = Closed 0"
| "spec_report thr now probe outcomeFailure (Closed k) =
     (if thr \<le> k + 1 then Opened now else Closed (k + 1))"
| "spec_report thr now True outcomeSuccess (Half t n) = Closed 0"
| "spec_report thr now True outcomeFailure (Half t n) = Opened now"
| "spec_report thr now True outcomeNeutral (Half t n) = Half t (n - 1)"
| "spec_report thr now probe out c = c"

fun circuit_of :: "breakerState \<Rightarrow> circuit" where
  "circuit_of b =
     (case cur b of
        StateOpen \<Rightarrow> Opened (openedAt b)
      | StateHalfOpen \<Rightarrow> Half (halfOpenAt b) (probes b)
      | _ \<Rightarrow> Closed (consecFails b))"

text \<open>The verdict as the code returns it: a fresh half-open period takes the next generation.\<close>

fun verdict_result :: "64 word \<Rightarrow> verdict \<Rightarrow> go_error + bool \<times> 64 word" where
  "verdict_result g Rejected = Inl ErrCircuitOpen"
| "verdict_result g Normal = Inr (False, 0)"
| "verdict_result g (Probe fresh) = Inr (True, if fresh then g + 1 else g)"

lemma allow_spec:
  assumes "bs_inv b"
  shows "fst (allow now b) = verdict_result (gen b) (fst (spec_allow (openFor b) (maxProbes b) now (circuit_of b)))"
    and "circuit_of (snd (allow now b)) = snd (spec_allow (openFor b) (maxProbes b) now (circuit_of b))"
  using assms
  by (cases "cur b";
      auto simp: bs_inv_def allow_def allow_half_open_def enterHalfOpen_def Let_def time_sub_less_iff not_less)+

lemma report_spec:
  assumes "bs_inv b"
  shows "circuit_of (report now pr g out b)
       = (if pr \<and> g \<noteq> gen b then circuit_of b else spec_report (threshold b) now pr out (circuit_of b))"
  using assms
  by (cases "cur b"; cases out; cases pr) (auto simp: report_def Let_def bs_inv_def)


section \<open>Counting consecutive failures\<close>

text \<open>
  The failures at the end of a history of outcomes, counted back to the last success; neutral
  outcomes neither count nor reset.
\<close>

fun failure_run :: "outcome list \<Rightarrow> nat" where
  "failure_run [] = 0"
| "failure_run (outcomeFailure # os) = Suc (failure_run os)"
| "failure_run (outcomeNeutral # os) = failure_run os"
| "failure_run (outcomeSuccess # os) = 0"

definition trailing_failures :: "outcome list \<Rightarrow> nat" where
  "trailing_failures os = failure_run (rev os)"

text \<open>The reports of calls admitted while closed, in the order they arrive, each with its instant.\<close>

definition report_all :: "(gotime \<times> outcome) list \<Rightarrow> breakerState \<Rightarrow> breakerState" where
  "report_all rs b = fold (\<lambda>(now, out). report now False 0 out) rs b"

lemma report_all_snoc:
  "report_all (rs @ [(now, out)]) b = report now False 0 out (report_all rs b)"
  by (simp add: report_all_def)

lemma trailing_failures_snoc [simp]:
  "trailing_failures [] = 0"
  "trailing_failures (os @ [outcomeFailure]) = Suc (trailing_failures os)"
  "trailing_failures (os @ [outcomeNeutral]) = trailing_failures os"
  "trailing_failures (os @ [outcomeSuccess]) = 0"
  by (simp_all add: trailing_failures_def)

text \<open>The run lengths seen so far reach \<open>k\<close>.\<close>

definition reached :: "int \<Rightarrow> outcome list \<Rightarrow> bool" where
  "reached k os \<longleftrightarrow> (\<exists>n \<le> length os. k \<le> int (trailing_failures (take n os)))"

lemma reached_whole: "k \<le> int (trailing_failures os) \<Longrightarrow> reached k os"
  by (auto simp: reached_def intro: exI [of _ "length os"])

lemma reached_snoc:
  "reached k (os @ [out]) \<longleftrightarrow> reached k os \<or> k \<le> int (trailing_failures (os @ [out]))"
proof
  assume "reached k (os @ [out])"
  then obtain n where n: "n \<le> Suc (length os)" "k \<le> int (trailing_failures (take n (os @ [out])))"
    by (auto simp: reached_def)
  show "reached k os \<or> k \<le> int (trailing_failures (os @ [out]))"
  proof (cases "n \<le> length os")
    case True
    with n(2) have "reached k os" by (auto simp: reached_def)
    then show ?thesis ..
  next
    case False
    with n have "n = Suc (length os)" by simp
    with n(2) show ?thesis by simp
  qed
next
  assume "reached k os \<or> k \<le> int (trailing_failures (os @ [out]))"
  then show "reached k (os @ [out])"
  proof
    assume "reached k os"
    then obtain n where "n \<le> length os" "k \<le> int (trailing_failures (take n os))"
      by (auto simp: reached_def)
    then show ?thesis by (auto simp: reached_def intro!: exI [of _ n])
  next
    assume "k \<le> int (trailing_failures (os @ [out]))"
    then show ?thesis by (auto simp: reached_def intro!: exI [of _ "Suc (length os)"])
  qed
qed

lemma report_all_closed:
  assumes "bs_inv b" and "cur b = StateClosed" and "consecFails b = 0"
  shows "if reached (threshold b) (map snd rs) then cur (report_all rs b) = StateOpen
    else cur (report_all rs b) = StateClosed \<and>
         consecFails (report_all rs b) = int (trailing_failures (map snd rs))"
proof (induction rs rule: rev_induct)
  case Nil
  from assms show ?case by (simp add: report_all_def reached_def bs_inv_def)
next
  case (snoc r rs)
  obtain now out where r: "r = (now, out)" by fastforce
  have thr: "threshold (report_all rs b) = threshold b"
    by (induction rs rule: rev_induct)
      (auto simp: report_all_def frame_simps split: prod.splits)
  have "1 \<le> threshold b" using assms(1) by (simp add: bs_inv_def)
  with snoc show ?case
    by (cases out)
      (auto simp: r report_all_snoc reached_snoc report_def thr Let_def split: if_splits dest: reached_whole)
qed


section \<open>Tickets in flight\<close>

text \<open>
  The interface between the machine and the calls that use it. A call is admitted with a ticket
  and settles it once, when it ends; many tickets are outstanding at a time. \<open>active\<close> says that
  the provider is rationing probes, \<open>used\<close> how many slots it counts as taken, \<open>epoch\<close> which
  round of probing it is in; a ticket is a probe of round \<open>stamp\<close> or no probe at all. The rounds
  are numbered by a machine word, so the laws hold up to \<open>max_epoch\<close> rounds.
\<close>

locale admission =
  fixes admit :: "'t \<Rightarrow> 's \<Rightarrow> ('e + 'k) \<times> 's"
    and settle :: "'t \<Rightarrow> 'k \<Rightarrow> 'o \<Rightarrow> 's \<Rightarrow> 's"
    and ok :: "'s \<Rightarrow> bool"
    and active :: "'s \<Rightarrow> bool"
    and used :: "'s \<Rightarrow> int"
    and limit :: "'s \<Rightarrow> int"
    and epoch :: "'s \<Rightarrow> nat"
    and is_probe :: "'k \<Rightarrow> bool"
    and stamp :: "'k \<Rightarrow> nat"
    and max_epoch :: nat
  assumes ok_admit: "ok s \<Longrightarrow> ok (snd (admit t s))"
    and ok_settle: "ok s \<Longrightarrow> ok (settle t k out s)"
    and ok_limit: "ok s \<Longrightarrow> 1 \<le> limit s"
    and admit_reject: "ok s \<Longrightarrow> admit t s = (Inl e, s') \<Longrightarrow> s' = s"
    and admit_plain: "ok s \<Longrightarrow> admit t s = (Inr k, s') \<Longrightarrow> \<not> is_probe k \<Longrightarrow> s' = s \<and> \<not> active s"
    and admit_probe: "ok s \<Longrightarrow> epoch s < max_epoch \<Longrightarrow> admit t s = (Inr k, s') \<Longrightarrow> is_probe k \<Longrightarrow>
          active s' \<and> limit s' = limit s \<and> stamp k = epoch s' \<and>
          (active s \<and> epoch s' = epoch s \<and> used s < limit s \<and> used s' = used s + 1 \<or>
           epoch s' = Suc (epoch s) \<and> used s' = 1)"
    and settle_epoch: "epoch (settle t k out s) = epoch s"
    and settle_limit: "limit (settle t k out s) = limit s"
    and settle_inactive: "\<not> active s \<Longrightarrow> \<not> active (settle t k out s)"
    and settle_other: "active s \<Longrightarrow> \<not> (is_probe k \<and> stamp k = epoch s) \<Longrightarrow> settle t k out s = s"
    and settle_live: "active s \<Longrightarrow> is_probe k \<Longrightarrow> stamp k = epoch s \<Longrightarrow>
          active (settle t k out s) \<Longrightarrow> used (settle t k out s) = used s - 1"
begin

definition live :: "'s \<Rightarrow> 'k \<Rightarrow> bool" where
  "live s k \<longleftrightarrow> is_probe k \<and> stamp k = epoch s"

text \<open>
  The books are in order: no ticket comes from a later round, and while probes are rationed the
  slots counted as taken are exactly the outstanding probes of this round, within the limit.
\<close>

definition ledger :: "'s \<Rightarrow> 'k multiset \<Rightarrow> bool" where
  "ledger s T \<longleftrightarrow>
     (\<forall>k \<in># T. is_probe k \<longrightarrow> stamp k \<le> epoch s) \<and>
     (active s \<longrightarrow> used s = int (size (filter_mset (live s) T)) \<and> used s \<le> limit s)"

lemma ledger_bound: "ledger s T \<Longrightarrow> active s \<Longrightarrow> int (size (filter_mset (live s) T)) \<le> limit s"
  by (simp add: ledger_def)

lemma ledger_used_nonneg: "ledger s T \<Longrightarrow> active s \<Longrightarrow> 0 \<le> used s"
  by (simp add: ledger_def)

lemma ledger_start: "\<not> active s \<Longrightarrow> ledger s {#}"
  by (simp add: ledger_def)

lemma ledger_reject: "ok s \<Longrightarrow> ledger s T \<Longrightarrow> admit t s = (Inl e, s') \<Longrightarrow> ledger s' T"
  using admit_reject by metis

lemma ledger_admit:
  assumes ok: "ok s" and room: "epoch s < max_epoch" and books: "ledger s T"
    and adm: "admit t s = (Inr k, s')"
  shows "ledger s' (add_mset k T)"
proof (cases "is_probe k")
  case False
  with admit_plain [OF ok adm] books show ?thesis by (simp add: ledger_def)
next
  case True
  from admit_probe [OF ok room adm True] consider
      (same) "active s'" "active s" "epoch s' = epoch s" "limit s' = limit s" "stamp k = epoch s'"
        "used s < limit s" "used s' = used s + 1"
    | (fresh) "active s'" "epoch s' = Suc (epoch s)" "limit s' = limit s" "stamp k = epoch s'" "used s' = 1"
    by blast
  then show ?thesis
  proof cases
    case same
    then have "live s' = live s" by (simp add: live_def fun_eq_iff)
    with same books True show ?thesis by (auto simp: ledger_def live_def)
  next
    case fresh
    have "\<forall>x \<in># T. \<not> live s' x"
      using books fresh(2) by (fastforce simp: ledger_def live_def)
    then have "filter_mset (live s') T = {#}"
      by (auto simp: filter_mset_eq_conv)
    moreover have "1 \<le> limit s'"
      using ok_limit [OF ok] fresh(3) by simp
    ultimately show ?thesis
      using fresh books True by (fastforce simp: ledger_def live_def)
  qed
qed

lemma ledger_settle:
  assumes books: "ledger s T" and k: "k \<in># T"
  shows "ledger (settle t k out s) (T - {#k#})"
proof -
  obtain T' where T: "T = add_mset k T'" using k by (metis insert_DiffM)
  let ?s = "settle t k out s"
  have same: "live ?s = live s" by (simp add: live_def fun_eq_iff settle_epoch)
  have old: "\<forall>x \<in># T'. is_probe x \<longrightarrow> stamp x \<le> epoch ?s"
    using books by (simp add: T ledger_def settle_epoch)
  show ?thesis
  proof (cases "active s")
    case False
    with settle_inactive old show ?thesis by (simp add: T ledger_def)
  next
    case True
    show ?thesis
    proof (cases "is_probe k \<and> stamp k = epoch s")
      case False
      with settle_other True have "?s = s" by blast
      with False books show ?thesis by (auto simp: T ledger_def live_def)
    next
      case live: True
      show ?thesis
      proof (cases "active ?s")
        case False
        with old show ?thesis by (simp add: T ledger_def)
      next
        case act: True
        from live have "used ?s = used s - 1"
          using settle_live True act by blast
        with True live books old same show ?thesis
          by (auto simp: T ledger_def live_def settle_limit)
      qed
    qed
  qed
qed

end

text \<open>The breaker state is such a provider, for the first \<open>2 ^ 64 - 1\<close> half-open periods.\<close>

definition settle_report :: "gotime \<Rightarrow> bool \<times> 64 word \<Rightarrow> outcome \<Rightarrow> breakerState \<Rightarrow> breakerState" where
  "settle_report now k out b = report now (fst k) (snd k) out b"

definition half_open :: "breakerState \<Rightarrow> bool" where
  "half_open b \<longleftrightarrow> cur b = StateHalfOpen"

definition generation :: "breakerState \<Rightarrow> nat" where
  "generation b = unat (gen b)"

definition ticket_stamp :: "bool \<times> 64 word \<Rightarrow> nat" where
  "ticket_stamp k = unat (snd k)"

abbreviation max_generation :: nat where "max_generation \<equiv> 18446744073709551615"

lemma generation_Suc: "generation b < max_generation \<Longrightarrow> unat (gen b + 1) = Suc (generation b)"
  by (simp add: generation_def unat_word_ariths)

interpretation adm: admission allow settle_report bs_inv half_open probes maxProbes generation fst ticket_stamp max_generation
proof unfold_locales
  fix s t k e s' out
  show "bs_inv s \<Longrightarrow> bs_inv (snd (allow t s))" by (rule bs_inv_allow)
  show "bs_inv s \<Longrightarrow> bs_inv (settle_report t k out s)"
    by (simp add: settle_report_def bs_inv_report)
  show "bs_inv s \<Longrightarrow> 1 \<le> maxProbes s" by (simp add: bs_inv_def)
  show "bs_inv s \<Longrightarrow> allow t s = (Inl e, s') \<Longrightarrow> s' = s"
    by (auto simp: bs_inv_def allow_def allow_half_open_def enterHalfOpen_def Let_def
        split: BreakerState.splits if_splits)
  show "bs_inv s \<Longrightarrow> allow t s = (Inr k, s') \<Longrightarrow> \<not> fst k \<Longrightarrow> s' = s \<and> \<not> half_open s"
    by (auto simp: half_open_def allow_def allow_half_open_def Let_def split: BreakerState.splits if_splits)
  show "bs_inv s \<Longrightarrow> generation s < max_generation \<Longrightarrow> allow t s = (Inr k, s') \<Longrightarrow> fst k \<Longrightarrow>
      half_open s' \<and> maxProbes s' = maxProbes s \<and> ticket_stamp k = generation s' \<and>
      (half_open s \<and> generation s' = generation s \<and> probes s < maxProbes s \<and> probes s' = probes s + 1 \<or>
       generation s' = Suc (generation s) \<and> probes s' = 1)"
    using generation_Suc [of s]
    by (auto simp: bs_inv_def half_open_def allow_def allow_half_open_def enterHalfOpen_def Let_def
        generation_def ticket_stamp_def split: BreakerState.splits if_splits)
  show "generation (settle_report t k out s) = generation s"
    by (simp add: generation_def settle_report_def frame_simps)
  show "maxProbes (settle_report t k out s) = maxProbes s"
    by (simp add: settle_report_def frame_simps)
  show "\<not> half_open s \<Longrightarrow> \<not> half_open (settle_report t k out s)"
    by (auto simp: half_open_def settle_report_def report_def Let_def split: BreakerState.splits outcome.splits)
  show "half_open s \<Longrightarrow> \<not> (fst k \<and> ticket_stamp k = generation s) \<Longrightarrow> settle_report t k out s = s"
    by (auto simp: half_open_def settle_report_def report_def ticket_stamp_def generation_def)
  show "half_open s \<Longrightarrow> fst k \<Longrightarrow> ticket_stamp k = generation s \<Longrightarrow>
      half_open (settle_report t k out s) \<Longrightarrow> probes (settle_report t k out s) = probes s - 1"
    by (cases out) (auto simp: half_open_def settle_report_def report_def ticket_stamp_def generation_def
        unsigned_word_eqI)
qed


section \<open>Properties\<close>

text \<open>A machine with threshold 2, ten nanoseconds open and one probe, and its first steps.\<close>

definition sample_machine :: breakerState where
  "sample_machine = newBreakerState 2 10 1"

lemma bs_inv_sample: "bs_inv sample_machine"
  by (simp add: sample_machine_def bs_inv_new)

lemmas machine_eval =
  sample_machine_def newBreakerState_def report_def allow_def allow_half_open_def enterHalfOpen_def
  time_sub_def sat64_def Let_def

text \<open>C2: For every state that satisfies the invariant, \<open>allow\<close> implements the abstract machine: it
  returns the error, the plain admission or the probe with its generation exactly when the
  abstract machine rejects, admits or probes, and its new state abstracts to the abstract
  machine's new state.\<close>

theorem allow_refines_circuit:
  assumes "bs_inv b"
  shows "(fst (allow now b), circuit_of (snd (allow now b))) =
     (case spec_allow (openFor b) (maxProbes b) now (circuit_of b) of
        (v, c) \<Rightarrow> (verdict_result (gen b) v, c))"
  using allow_spec [OF assms] by (simp split: prod.split)

theorem allow_refines_circuit_witness:
  "(fst (allow 7 sample_machine), circuit_of (snd (allow 7 sample_machine))) = (Inr (False, 0), Closed 0)"
  using allow_refines_circuit [OF bs_inv_sample, of 7]
  by (simp add: sample_machine_def newBreakerState_def)

text \<open>C3: For every state that satisfies the invariant, \<open>report\<close> implements the abstract machine: the
  report of a probe of an earlier half-open period changes nothing, every other report moves the
  abstract circuit as specified.\<close>

theorem report_refines_circuit:
  assumes "bs_inv b"
  shows "circuit_of (report now pr g out b) =
    (if pr \<and> g \<noteq> gen b then circuit_of b else spec_report (threshold b) now pr out (circuit_of b))"
  by (rule report_spec [OF assms])

theorem report_refines_circuit_witness:
  "circuit_of (report 5 False 0 outcomeFailure sample_machine) = Closed 1"
  using report_refines_circuit [OF bs_inv_sample, of 5 False 0 outcomeFailure]
  by (simp add: sample_machine_def newBreakerState_def)

text \<open>C12: From a closed circuit with no failures counted, any history of outcomes of ordinary calls opens
  the circuit exactly when some prefix of it ends in at least \<open>threshold\<close> failures not separated
  by a success; neutral outcomes neither count nor reset. Until then the circuit is closed and
  counts exactly the failures since the last success.\<close>

theorem opens_exactly_at_threshold:
  assumes "bs_inv b" and "cur b = StateClosed" and "consecFails b = 0"
  shows "(cur (report_all rs b) = StateOpen \<longleftrightarrow> reached (threshold b) (map snd rs)) \<and>
    (\<not> reached (threshold b) (map snd rs) \<longrightarrow>
       cur (report_all rs b) = StateClosed \<and>
       consecFails (report_all rs b) = int (trailing_failures (map snd rs)))"
  using report_all_closed [OF assms, of rs] by (auto split: if_splits)

theorem opens_exactly_at_threshold_witness:
  "cur (report_all [(1, outcomeFailure), (2, outcomeNeutral), (3, outcomeFailure)] sample_machine) = StateOpen"
proof -
  have "cur sample_machine = StateClosed" "consecFails sample_machine = 0" "threshold sample_machine = 2"
    by (simp_all add: sample_machine_def newBreakerState_def)
  moreover have "reached 2 [outcomeFailure, outcomeNeutral, outcomeFailure]"
    by (rule reached_whole) (simp add: trailing_failures_def)
  ultimately show ?thesis
    using opens_exactly_at_threshold [OF bs_inv_sample, of "[(1, outcomeFailure), (2, outcomeNeutral), (3, outcomeFailure)]"]
    by simp
qed

text \<open>\<open>allow\<close> rejects with \<open>ErrCircuitOpen\<close> exactly while the circuit is open and \<open>openFor\<close> has not
  elapsed since it opened, or half-open with all probe slots taken and \<open>openFor\<close> not elapsed since
  the half-open period began; a rejection leaves the machine unchanged. So a circuit whose probes
  never finish is not stuck: once \<open>openFor\<close> has passed, the next call is admitted.\<close>

theorem allow_rejects_iff:
  assumes "bs_inv b"
  shows "(fst (allow now b) = Inl ErrCircuitOpen \<longleftrightarrow>
      cur b = StateOpen \<and> now < openedAt b + openFor b \<or>
      cur b = StateHalfOpen \<and> maxProbes b \<le> probes b \<and> now < halfOpenAt b + openFor b) \<and>
    (fst (allow now b) = Inl ErrCircuitOpen \<longrightarrow> snd (allow now b) = b) \<and>
    (openedAt b + openFor b \<le> now \<and> halfOpenAt b + openFor b \<le> now \<longrightarrow>
       (\<exists>k. fst (allow now b) = Inr k))"
proof -
  have rej: "fst (allow now b) = Inl ErrCircuitOpen \<longleftrightarrow>
      cur b = StateOpen \<and> now < openedAt b + openFor b \<or>
      cur b = StateHalfOpen \<and> maxProbes b \<le> probes b \<and> now < halfOpenAt b + openFor b"
    using assms by (cases rule: bs_inv_cases) (auto simp: allow_spec [OF assms])
  moreover have "snd (allow now b) = b" if "fst (allow now b) = Inl ErrCircuitOpen"
    using adm.admit_reject [OF assms] that by (metis prod.collapse)
  moreover have "fst (allow now b) = Inl ErrCircuitOpen \<or> (\<exists>k. fst (allow now b) = Inr k)"
    by (auto simp: allow_spec [OF assms] split: prod.splits circuit.splits)
      (metis verdict_result.simps verdict.exhaust)
  ultimately show ?thesis by fastforce
qed

theorem allow_rejects_iff_witness:
  "let b = report_all [(1, outcomeFailure), (2, outcomeFailure)] sample_machine
   in fst (allow 11 b) = Inl ErrCircuitOpen \<and> (\<exists>k. fst (allow 12 b) = Inr k)"
proof -
  let ?b = "report_all [(1, outcomeFailure), (2, outcomeFailure)] sample_machine"
  have inv: "bs_inv ?b"
    by (simp add: report_all_def bs_inv_report bs_inv_sample)
  have "cur ?b = StateOpen" "openedAt ?b = 2" "openFor ?b = 10" "halfOpenAt ?b \<le> 0"
    by (simp_all add: report_all_def machine_eval zero_time_def)
  then show ?thesis
    using allow_rejects_iff [OF inv, of 11] allow_rejects_iff [OF inv, of 12] by simp
qed

text \<open>Reports that are no evidence about the present state change nothing: a probe of an earlier
  half-open period, a call admitted while closed that ends while the circuit is half-open, and any
  call that ends while it is open.\<close>

theorem stale_reports_ignored:
  "(g \<noteq> gen b \<longrightarrow> report now True g out b = b) \<and>
   (cur b = StateHalfOpen \<longrightarrow> report now False g out b = b) \<and>
   (cur b = StateOpen \<longrightarrow> report now pr g out b = b)"
  by (auto simp: report_def)

theorem stale_reports_ignored_witness:
  "(7 :: 64 word) \<noteq> gen sample_machine \<and> report 3 True 7 outcomeFailure sample_machine = sample_machine"
  using stale_reports_ignored [of 7 sample_machine 3 outcomeFailure False]
  by (simp add: sample_machine_def newBreakerState_def)

text \<open>\<open>classifyOutcome\<close> on every error: an explicit cancellation anywhere in the chain is neutral,
  also inside \<open>*url.Error\<close>; any other transport error (\<open>*url.Error\<close>, timeouts included) is a
  failure unless a local error is in its chain; a deadline or \<open>ErrStopped\<close> outside the transport is
  neutral; and an exhausted retry is judged by the failure it wraps.\<close>

theorem classifyOutcome_table:
  "(errors_Is e CtxCanceled \<longrightarrow> classifyOutcome r (Some e) m = outcomeNeutral) \<and>
   classifyOutcome r (Some (UrlError op u e)) m =
     (if errors_Is e CtxCanceled \<or> errors_As is_localOpError e \<noteq> None then outcomeNeutral else outcomeFailure) \<and>
   classifyOutcome r (Some (LocalOp e)) m = outcomeNeutral \<and>
   classifyOutcome r (Some CtxDeadlineExceeded) m = outcomeNeutral \<and>
   classifyOutcome r (Some ErrStopped) m = outcomeNeutral \<and>
   classifyOutcome r (Some (RetriesExhausted (Some e))) m = classifyOutcome r (Some e) m \<and>
   classifyOutcome r None m =
     (if (\<exists>x. r = Some x \<and> 0 < m \<and> m \<le> StatusCode x) then outcomeFailure else outcomeSuccess)"
  by (auto simp: classifyOutcome_def errors_Is_def errors_As_def list_ex_iff split: option.splits)

theorem classifyOutcome_table_witness:
  "errors_Is (UrlError ''Get'' ''http://x'' CtxCanceled) CtxCanceled \<and>
   classifyOutcome None (Some (UrlError ''Get'' ''http://x'' CtxCanceled)) 0 = outcomeNeutral"
proof -
  have "errors_Is (UrlError ''Get'' ''http://x'' CtxCanceled) CtxCanceled"
    by (simp add: errors_Is_def)
  then show ?thesis
    using classifyOutcome_table [of "UrlError ''Get'' ''http://x'' CtxCanceled" None 0] by simp
qed

end
