(* ===== verification/Go_Float.thy ===== *)
theory Go_Float
  imports Go_Time "HOL-Library.Log_Nat"
begin

text \<open>
  Go's \<open>float64\<close>: IEEE 754 double precision with rounding to nearest, ties to even. A finite
  value is kept as the rational number it denotes; \<open>fl64\<close> rounds an exact result to the nearest
  representable number, and each arithmetic operation of the source is the exact operation
  followed by \<open>fl64\<close>. Overflow to infinity and the sign of zero are left out: the code divides
  and adds durations in seconds (at most about \<open>10 ^ 10\<close>) and request rates only.
\<close>

section \<open>Rounding\<close>

type_synonym float64 = rat

definition round_half_even :: "rat \<Rightarrow> int" where
  "round_half_even x =
     (let f = \<lfloor>x\<rfloor>; r = x - of_int f
      in if r < 1 / 2 then f else if 1 / 2 < r then f + 1 else if even f then f else f + 1)"

text \<open>The binary exponent of a positive rational: \<open>2 powi flog x \<le> x < 2 powi (flog x + 1)\<close>.\<close>

definition flog :: "rat \<Rightarrow> int" where
  "flog x =
     (let (n, d) = quotient_of x; k = bitlen n - bitlen d
      in if x < 2 powi k then k - 1 else k)"

text \<open>The exponent of the last place of the significand, 53 bits wide, never below the subnormals.\<close>

definition ulp_exp :: "rat \<Rightarrow> int" where
  "ulp_exp x = max (flog \<bar>x\<bar> - 52) (- 1074)"

definition fl64 :: "rat \<Rightarrow> float64" where
  "fl64 x = (if x = 0 then 0
     else of_int (round_half_even (x / 2 powi ulp_exp x)) * 2 powi ulp_exp x)"

section \<open>Operations of the source\<close>

definition fadd :: "float64 \<Rightarrow> float64 \<Rightarrow> float64" where "fadd a b = fl64 (a + b)"
definition fsub :: "float64 \<Rightarrow> float64 \<Rightarrow> float64" where "fsub a b = fl64 (a - b)"
definition fmul :: "float64 \<Rightarrow> float64 \<Rightarrow> float64" where "fmul a b = fl64 (a * b)"
definition fdiv :: "float64 \<Rightarrow> float64 \<Rightarrow> float64" where "fdiv a b = fl64 (a / b)"

text \<open>\<open>float64(i)\<close> of an integer.\<close>

definition float_of_int :: "int \<Rightarrow> float64" where "float_of_int i = fl64 (of_int i)"

text \<open>\<open>math.Round\<close> rounds to the nearest integer, halves away from zero.\<close>

definition math_Round :: "float64 \<Rightarrow> int" where
  "math_Round x = (if 0 \<le> x then \<lfloor>x + 1 / 2\<rfloor> else - \<lfloor>1 / 2 - x\<rfloor>)"

text \<open>\<open>d.Seconds()\<close>: whole seconds plus the fraction, both as floats.\<close>

definition Seconds :: "duration \<Rightarrow> float64" where
  "Seconds d = fadd (float_of_int (d sdiv second)) (fdiv (float_of_int (d smod second)) 1000000000)"

section \<open>Rounding is close\<close>

lemma round_half_even_close: "\<bar>of_int (round_half_even x) - x\<bar> \<le> 1 / 2"
proof -
  have lo: "0 \<le> x - of_int \<lfloor>x\<rfloor>" and hi: "x - of_int \<lfloor>x\<rfloor> < 1"
    by linarith+
  show ?thesis
    unfolding round_half_even_def Let_def using lo hi by (auto simp: abs_le_iff)
qed

lemma round_half_even_of_int [simp]: "round_half_even (of_int i) = i"
  by (simp add: round_half_even_def)

lemma bitlen_pos: "0 < n \<Longrightarrow> 1 \<le> bitlen n"
  by (simp add: bitlen_alt_def)

lemma powi_less_imp_less: "(2 :: rat) powi m < 2 powi n \<Longrightarrow> m < n"
proof (rule ccontr)
  assume less: "(2 :: rat) powi m < 2 powi n" and "\<not> m < n"
  then obtain k where "m = n + int k"
    by (metis le_iff_add not_less zero_le_imp_eq_int zle_iff_zadd)
  then have "(2 :: rat) powi m = 2 powi n * 2 ^ k"
    by (simp add: power_int_add)
  moreover have "(2 :: rat) powi n \<le> 2 powi n * 2 ^ k"
    by simp
  ultimately show False using less by simp
qed

lemma flog_bounds:
  assumes "0 < x"
  shows "2 powi flog x \<le> x" and "x < 2 powi (flog x + 1)"
proof -
  obtain n d where q: "quotient_of x = (n, d)" by fastforce
  have d: "0 < d" using q by (rule quotient_of_denom_pos)
  have x: "x = of_int n / of_int d" using q by (rule quotient_of_div)
  have n: "0 < n" using assms d x by (simp add: zero_less_divide_iff)
  define a where "a = nat (bitlen n - 1)"
  define b where "b = nat (bitlen d - 1)"
  have a: "bitlen n = int a + 1" and b: "bitlen d = int b + 1"
    using bitlen_pos [OF n] bitlen_pos [OF d] by (simp_all add: a_def b_def)
  have n_lo: "(2::rat) ^ a \<le> of_int n" and n_hi: "of_int n < (2::rat) ^ Suc a"
    using bitlen_bounds [OF n] by (simp_all add: a nat_add_distrib flip: of_int_le_iff of_int_less_iff [where 'a = rat])
  have d_lo: "(2::rat) ^ b \<le> of_int d" and d_hi: "of_int d < (2::rat) ^ Suc b"
    using bitlen_bounds [OF d] by (simp_all add: b nat_add_distrib flip: of_int_le_iff of_int_less_iff [where 'a = rat])
  define k where "k = int a - int b"
  have pk: "(2::rat) powi k = 2 ^ a / 2 ^ b"
    by (simp add: k_def power_int_diff)
  have upper: "x < 2 * 2 powi k"
  proof -
    have "of_int n * 2 ^ b < (2 ^ Suc a :: rat) * of_int d"
      using n_hi d_lo d by (intro mult_less_le_imp_less) (auto simp: n less_imp_le)
    then show ?thesis using d by (simp add: x pk field_simps)
  qed
  have lower: "2 powi k / 2 < x"
  proof -
    have "(2 ^ a :: rat) * of_int d < of_int n * 2 ^ Suc b"
      using n_lo d_hi n d by (intro mult_le_less_imp_less) auto
    then show ?thesis using d by (simp add: x pk field_simps)
  qed
  have f: "flog x = (if x < 2 powi k then k - 1 else k)"
    by (simp add: flog_def q a b k_def)
  show "2 powi flog x \<le> x" and "x < 2 powi (flog x + 1)"
    using upper lower by (auto simp: f power_int_diff power_int_add)
qed

lemma fl64_0 [simp]: "fl64 0 = 0"
  by (simp add: fl64_def)

text \<open>The absolute error is at most half a unit in the last place.\<close>

lemma fl64_half_ulp: "x \<noteq> 0 \<Longrightarrow> \<bar>fl64 x - x\<bar> \<le> 2 powi ulp_exp x / 2"
proof -
  assume "x \<noteq> 0"
  define u :: rat where "u = 2 powi ulp_exp x"
  have u: "0 < u" by (simp add: u_def)
  have "fl64 x - x = (of_int (round_half_even (x / u)) - x / u) * u"
    using \<open>x \<noteq> 0\<close> u by (simp add: fl64_def u_def left_diff_distrib)
  then have "\<bar>fl64 x - x\<bar> = \<bar>of_int (round_half_even (x / u)) - x / u\<bar> * u"
    using u by (simp add: abs_mult)
  also have "\<dots> \<le> 1 / 2 * u"
    using round_half_even_close u by (intro mult_right_mono) auto
  finally show ?thesis by (simp add: u_def)
qed

text \<open>Relative error \<open>2 ^ - 53\<close>, for every number not smaller than the least normal one.\<close>

lemma fl64_rel_error:
  assumes "2 powi (- 1022) \<le> \<bar>x\<bar>"
  shows "\<bar>fl64 x - x\<bar> \<le> \<bar>x\<bar> / 2 ^ 53"
proof -
  have "0 < (2 :: rat) powi (- 1022)" by simp
  then have x: "0 < \<bar>x\<bar>" using assms by linarith
  have "(2 :: rat) powi (- 1022) < 2 powi (flog \<bar>x\<bar> + 1)"
    using assms flog_bounds(2) [OF x] by simp
  then have "- 1022 < flog \<bar>x\<bar> + 1"
    by (rule powi_less_imp_less)
  then have "ulp_exp x = flog \<bar>x\<bar> - 52"
    by (simp add: ulp_exp_def)
  then have "(2 :: rat) powi ulp_exp x = 2 powi flog \<bar>x\<bar> / 2 ^ 52"
    by (simp add: power_int_diff)
  with fl64_half_ulp [of x] x flog_bounds(1) [OF x] show ?thesis by simp
qed

text \<open>A number with a significand of at most 53 bits is represented exactly.\<close>

lemma fl64_exact:
  assumes "\<bar>m\<bar> < 2 ^ 53" and "- 1074 \<le> e"
  shows "fl64 (of_int m * 2 powi e) = of_int m * 2 powi e"
proof (cases "m = 0")
  case False
  define x :: rat where "x = of_int m * 2 powi e"
  have x: "0 < \<bar>x\<bar>" using False by (simp add: x_def)
  have "\<bar>x\<bar> < 2 ^ 53 * 2 powi e"
  proof -
    have "rat_of_int \<bar>m\<bar> < of_int (2 ^ 53)"
      using assms(1) by (subst of_int_less_iff) simp
    then show ?thesis by (simp add: x_def abs_mult)
  qed
  then have "2 powi flog \<bar>x\<bar> < (2 :: rat) powi (53 + e)"
    using flog_bounds(1) [OF x] by (simp add: power_int_add)
  then have "flog \<bar>x\<bar> < 53 + e"
    by (rule powi_less_imp_less)
  then have "ulp_exp x \<le> e"
    using assms(2) by (simp add: ulp_exp_def)
  then obtain k where k: "e = ulp_exp x + int k"
    using zle_iff_zadd by blast
  define u :: rat where "u = 2 powi ulp_exp x"
  have u: "0 < u" by (simp add: u_def)
  have "(2 :: rat) powi e = u * 2 ^ k"
    unfolding k u_def by (simp add: power_int_add)
  then have xu: "x = of_int (m * 2 ^ k) * u"
    by (simp add: x_def)
  then have "x / u = of_int (m * 2 ^ k)"
    using u by simp
  then have "fl64 x = of_int (m * 2 ^ k) * u"
    using x by (simp only: fl64_def u_def [symmetric] round_half_even_of_int) auto
  also have "\<dots> = x"
    using xu by simp
  finally show ?thesis by (simp add: x_def)
qed simp

lemma fl64_of_int: "\<bar>m\<bar> < 2 ^ 53 \<Longrightarrow> fl64 (of_int m) = of_int m"
  using fl64_exact [of m 0] by simp


section \<open>Chains of operations\<close>

text \<open>
  For a product of a handful of rounded numbers a coarse factor is enough: each rounding of a
  positive number of ordinary size multiplies it by something within one per mille of 1.
\<close>

definition per_mille :: "rat \<Rightarrow> bool" where
  "per_mille f \<longleftrightarrow> 999 / 1000 \<le> f \<and> f \<le> 1001 / 1000"

lemma fl64_per_mille:
  assumes "1 / 2 ^ 100 \<le> x"
  obtains f where "fl64 x = x * f" and "per_mille f"
proof -
  have pos: "0 < x" using assms by (rule less_le_trans [rotated]) simp
  have "(2 :: rat) powi (- 1022) \<le> 1 / 2 ^ 100"
    by (simp add: power_int_def field_simps)
  then have "\<bar>fl64 x - x\<bar> \<le> x / 2 ^ 53"
    using fl64_rel_error [of x] assms pos by simp
  then have "\<bar>fl64 x - x\<bar> \<le> x / 1000"
    using pos by (auto elim!: order_trans)
  then have "999 / 1000 * x \<le> fl64 x" "fl64 x \<le> 1001 / 1000 * x"
    by linarith+
  then have "per_mille (fl64 x / x)"
    using pos unfolding per_mille_def by (simp add: pos_le_divide_eq pos_divide_le_eq)
  moreover have "fl64 x = x * (fl64 x / x)" using pos by simp
  ultimately show ?thesis using that by blast
qed

lemma math_Round_close:
  assumes "0 \<le> x"
  shows "\<bar>of_int (math_Round x) - x\<bar> \<le> 1 / 2"
proof -
  have "of_int \<lfloor>x + 1 / 2\<rfloor> \<le> x + 1 / 2" and "x + 1 / 2 < of_int \<lfloor>x + 1 / 2\<rfloor> + 1"
    by linarith+
  then show ?thesis unfolding math_Round_def if_P [OF assms] by linarith
qed

end
