(* ===== verification/Sample_Rings.thy ===== *)
theory Sample_Rings
  imports Go_Float
begin

text \<open>
  The fixed-size rings of metrics_state.go: \<open>floatRing\<close> keeps the last \<open>ringSize\<close> durations with an
  incremental sum, \<open>timeRing\<close> the last \<open>ringSize\<close> start instants. Both satisfy one interface,
  \<open>ring_buffer\<close>: the slice of the ring is the end of the sequence of everything added. A Go array
  is a function from its indices; every index is taken modulo the size, so it is in range.
\<close>

section \<open>The rings\<close>

definition ringSize :: nat where
  "ringSize = 20"

record floatRing =
  fvals :: "nat \<Rightarrow> float64"
  fn :: nat
  ftotal :: float64

record timeRing =
  tvals :: "nat \<Rightarrow> gotime"
  tn :: nat

definition floatRing_zero :: floatRing where
  "floatRing_zero = \<lparr>fvals = (\<lambda>_. 0), fn = 0, ftotal = 0\<rparr>"

definition timeRing_zero :: timeRing where
  "timeRing_zero = \<lparr>tvals = (\<lambda>_. zero_time), tn = 0\<rparr>"

definition floatRing_add :: "float64 \<Rightarrow> floatRing \<Rightarrow> floatRing" where
  "floatRing_add v r =
     (let idx = fn r mod ringSize;
          total = (if ringSize \<le> fn r then fsub (ftotal r) (fvals r idx) else ftotal r)
      in \<lparr>fvals = (fvals r)(idx := v), fn = fn r + 1, ftotal = fadd total v\<rparr>)"

definition floatRing_mean :: "floatRing \<Rightarrow> float64" where
  "floatRing_mean r =
     (let c = min (fn r) ringSize
      in if c = 0 then 0 else fdiv (ftotal r) (float_of_int (int c)))"

text \<open>The loop of \<open>slice\<close> runs over \<open>n - c, \<dots>, n - 1\<close>.\<close>

definition floatRing_slice :: "floatRing \<Rightarrow> float64 list" where
  "floatRing_slice r =
     (let c = min (fn r) ringSize in map (\<lambda>i. fvals r (i mod ringSize)) [fn r - c ..< fn r])"

definition timeRing_add :: "gotime \<Rightarrow> timeRing \<Rightarrow> timeRing" where
  "timeRing_add t r = \<lparr>tvals = (tvals r)(tn r mod ringSize := t), tn = tn r + 1\<rparr>"

definition timeRing_slice :: "timeRing \<Rightarrow> gotime list" where
  "timeRing_slice r =
     (let c = min (tn r) ringSize in map (\<lambda>i. tvals r (i mod ringSize)) [tn r - c ..< tn r])"

section \<open>The interface\<close>

locale ring_buffer =
  fixes width :: nat
    and empty :: 'r
    and push :: "'a \<Rightarrow> 'r \<Rightarrow> 'r"
    and slice :: "'r \<Rightarrow> 'a list"
  assumes width_pos: "0 < width"
    and slice_empty: "slice empty = []"
    and slice_push: "slice (push x r) =
          (if length (slice r) < width then slice r @ [x] else tl (slice r) @ [x])"
begin

lemma slice_run: "slice (fold push xs empty) = last_n width xs"
proof (induction xs rule: rev_induct)
  case Nil
  then show ?case by (simp add: slice_empty last_n_def)
next
  case (snoc x xs)
  then show ?case
    using width_pos by (auto simp: slice_push last_n_snoc last_n_short)
qed

lemma slice_run_length: "length (slice (fold push xs empty)) = min width (length xs)"
  by (simp add: slice_run)

end

section \<open>Both rings implement it\<close>

text \<open>Writing slot \<open>n mod k\<close> does not disturb the last \<open>k - 1\<close> slots.\<close>

lemma mod_window:
  fixes n i k :: nat
  assumes "0 < k" and "n - k < i" and "i < n"
  shows "i mod k \<noteq> n mod k"
proof
  assume "i mod k = n mod k"
  then have "k dvd n - i"
    using assms(3) by (metis less_imp_le_nat mod_eq_dvd_iff_nat)
  moreover have "0 < n - i" "n - i < k"
    using assms by auto
  ultimately show False
    using nat_dvd_not_less by blast
qed

lemma ring_push_slice:
  fixes vals :: "nat \<Rightarrow> 'a"
  assumes k: "0 < k"
  shows "map (\<lambda>i. (vals(n mod k := v)) (i mod k)) [Suc n - min (Suc n) k ..< Suc n] =
    (if n < k then map (\<lambda>i. vals (i mod k)) [n - min n k ..< n] @ [v]
     else tl (map (\<lambda>i. vals (i mod k)) [n - min n k ..< n]) @ [v])"
proof (cases "n < k")
  case True
  then have "\<forall>i \<in> set [0 ..< n]. i mod k \<noteq> n mod k"
    using k by auto
  with True show ?thesis by auto
next
  case False
  then have lo: "Suc n - min (Suc n) k = Suc (n - k)" "n - min n k = n - k"
    by (auto simp: min_def)
  have tl: "tl [n - k ..< n] = [Suc (n - k) ..< n]"
    using False k by (simp add: upt_rec)
  have "map (\<lambda>i. (vals(n mod k := v)) (i mod k)) [Suc (n - k) ..< n] = map (\<lambda>i. vals (i mod k)) [Suc (n - k) ..< n]"
    using mod_window [OF k] by (auto simp del: upt_Suc)
  moreover have "[Suc (n - k) ..< Suc n] = [Suc (n - k) ..< n] @ [n]"
    using False k by simp
  ultimately show ?thesis
    unfolding lo using False by (simp add: tl map_tl [symmetric] del: upt_Suc)
qed

interpretation fring: ring_buffer ringSize floatRing_zero floatRing_add floatRing_slice
proof unfold_locales
  show "floatRing_slice floatRing_zero = []"
    by (simp add: floatRing_slice_def floatRing_zero_def)
  fix x r
  show "floatRing_slice (floatRing_add x r) =
      (if length (floatRing_slice r) < ringSize then floatRing_slice r @ [x] else tl (floatRing_slice r) @ [x])"
    using ring_push_slice [of ringSize "fvals r" "fn r" x]
    by (auto simp: floatRing_slice_def floatRing_add_def Let_def ringSize_def simp del: upt_Suc)
qed (simp add: ringSize_def)

interpretation tring: ring_buffer ringSize timeRing_zero timeRing_add timeRing_slice
proof unfold_locales
  show "timeRing_slice timeRing_zero = []"
    by (simp add: timeRing_slice_def timeRing_zero_def)
  fix x r
  show "timeRing_slice (timeRing_add x r) =
      (if length (timeRing_slice r) < ringSize then timeRing_slice r @ [x] else tl (timeRing_slice r) @ [x])"
    using ring_push_slice [of ringSize "tvals r" "tn r" x]
    by (auto simp: timeRing_slice_def timeRing_add_def Let_def ringSize_def simp del: upt_Suc)
qed (simp add: ringSize_def)


section \<open>The incremental sum\<close>

lemma floatRing_fn: "fn (fold floatRing_add vs floatRing_zero) = length vs"
  by (induction vs rule: rev_induct) (simp_all add: floatRing_zero_def floatRing_add_def Let_def)

lemma ftotal_add:
  "ftotal (floatRing_add v r) =
     fadd (if ringSize \<le> fn r then fsub (ftotal r) (fvals r (fn r mod ringSize)) else ftotal r) v"
  by (simp add: floatRing_add_def Let_def)

text \<open>The slot about to be overwritten holds the oldest sample of the slice.\<close>

lemma floatRing_oldest:
  "ringSize \<le> fn r \<Longrightarrow> floatRing_slice r \<noteq> [] \<and> fvals r (fn r mod ringSize) = hd (floatRing_slice r)"
proof -
  assume n: "ringSize \<le> fn r"
  then have "fn r - ringSize < fn r"
    by (simp add: ringSize_def)
  moreover have "(fn r - ringSize) mod ringSize = fn r mod ringSize"
    using n by (simp add: le_mod_geq)
  ultimately show ?thesis
    using n by (simp add: floatRing_slice_def Let_def hd_map)
qed

text \<open>
  Samples on a common binary grid: integer multiples of \<open>2 powi e\<close>, small enough for twenty of
  them to be added within 53 bits. Whole seconds are such samples (\<open>e = 0\<close>), and so are
  multiples of \<open>2 powi - 20\<close> seconds.
\<close>

definition on_grid :: "int \<Rightarrow> float64 \<Rightarrow> bool" where
  "on_grid e v \<longleftrightarrow> (\<exists>m. v = of_int m * 2 powi e \<and> \<bar>m\<bar> \<le> 2 ^ 48)"

lemma on_grid_sum:
  "\<forall>v \<in> set vs. on_grid e v \<Longrightarrow>
   \<exists>m. sum_list vs = of_int m * 2 powi e \<and> \<bar>m\<bar> \<le> int (length vs) * 2 ^ 48"
proof (induction vs)
  case Nil
  then show ?case by (auto intro: exI [of _ 0])
next
  case (Cons v vs)
  then obtain m k where m: "sum_list vs = of_int m * 2 powi e" "\<bar>m\<bar> \<le> int (length vs) * 2 ^ 48"
    and k: "v = of_int k * 2 powi e" "\<bar>k\<bar> \<le> 2 ^ 48"
    by (auto simp: on_grid_def)
  then show ?case
    by (intro exI [of _ "k + m"]) (auto simp: algebra_simps)
qed

lemma on_grid_sum_exact:
  assumes "\<forall>v \<in> set vs. on_grid e v" and "length vs \<le> 20" and "- 1074 \<le> e"
  shows "fl64 (sum_list vs) = sum_list vs"
proof -
  obtain m where m: "sum_list vs = of_int m * 2 powi e" "\<bar>m\<bar> \<le> int (length vs) * 2 ^ 48"
    using on_grid_sum [OF assms(1)] by blast
  have "int (length vs) * 2 ^ 48 \<le> 20 * 2 ^ 48"
    using assms(2) by simp
  with m(2) have "\<bar>m\<bar> < 2 ^ 53" by simp
  then show ?thesis
    unfolding m(1) by (rule fl64_exact [OF _ assms(3)])
qed

lemma set_last_n: "set (last_n k xs) \<subseteq> set xs"
  by (simp add: last_n_def set_drop_subset)

text \<open>On a grid nothing is rounded: the running total is the sum of the slice.\<close>

lemma floatRing_total:
  assumes "- 1074 \<le> e" and "\<forall>v \<in> set vs. on_grid e v"
  shows "ftotal (fold floatRing_add vs floatRing_zero) = sum_list (last_n ringSize vs)"
  using assms(2)
proof (induction vs rule: rev_induct)
  case Nil
  then show ?case by (simp add: floatRing_zero_def last_n_def)
next
  case (snoc v vs)
  let ?r = "fold floatRing_add vs floatRing_zero"
  have IH: "ftotal ?r = sum_list (floatRing_slice ?r)"
    using snoc by (simp add: fring.slice_run)
  have grid: "\<forall>x \<in> set (floatRing_slice ?r). on_grid e x" and gv: "on_grid e v"
    using snoc.prems set_last_n [of ringSize vs] by (auto simp: fring.slice_run)
  have len: "length (floatRing_slice ?r) = min ringSize (length vs)"
    by (rule fring.slice_run_length)
  have new: "last_n ringSize (vs @ [v]) = floatRing_slice (floatRing_add v ?r)"
    by (simp only: fring.slice_run [symmetric]) simp
  show ?case
  proof (cases "length vs < ringSize")
    case True
    have "fl64 (sum_list (floatRing_slice ?r @ [v])) = sum_list (floatRing_slice ?r @ [v])"
      using grid gv len True by (intro on_grid_sum_exact [OF _ _ assms(1)]) (auto simp: ringSize_def)
    then show ?thesis
      unfolding new using True len
      by (simp add: fring.slice_push floatRing_fn ftotal_add IH fadd_def)
  next
    case False
    have full: "ringSize \<le> fn ?r" using False by (simp add: floatRing_fn)
    obtain old rest where s: "floatRing_slice ?r = old # rest" and o: "fvals ?r (fn ?r mod ringSize) = old"
      using floatRing_oldest [OF full] by (metis list.collapse)
    have rest: "length rest = 19" using s len False by (simp add: ringSize_def)
    have "fl64 (sum_list rest) = sum_list rest"
      using grid s rest by (intro on_grid_sum_exact [OF _ _ assms(1)]) auto
    moreover have "fl64 (sum_list (rest @ [v])) = sum_list (rest @ [v])"
      using grid gv s rest by (intro on_grid_sum_exact [OF _ _ assms(1)]) auto
    moreover have "\<not> length (floatRing_slice ?r) < ringSize" using len False by simp
    ultimately show ?thesis
      unfolding new using full
      by (simp add: fring.slice_push ftotal_add IH fadd_def fsub_def o s)
  qed
qed

section \<open>Properties\<close>

text \<open>The slices of both rings are exactly the last \<open>ringSize\<close> values added, oldest first,
  whatever was added before; with fewer values added, all of them.\<close>

theorem rings_keep_last:
  "floatRing_slice (fold floatRing_add vs floatRing_zero) = last_n ringSize vs \<and>
   timeRing_slice (fold timeRing_add ts timeRing_zero) = last_n ringSize ts"
  using fring.slice_run tring.slice_run by blast

text \<open>When every sample is a multiple of one binary fraction of a second, the mean is the exact
  mean of the last \<open>ringSize\<close> samples, rounded once: the incremental sum, which adds the new and
  subtracts the overwritten sample, has not drifted. With no sample the mean is 0.\<close>

theorem floatRing_mean_exact:
  assumes "- 1074 \<le> e" and "\<forall>v \<in> set vs. on_grid e v"
  shows "floatRing_mean (fold floatRing_add vs floatRing_zero) =
    (if vs = [] then 0
     else fl64 (sum_list (last_n ringSize vs) / of_nat (min (length vs) ringSize)))"
proof -
  have "fl64 (of_int (int (min (length vs) ringSize))) = of_int (int (min (length vs) ringSize))"
    by (rule fl64_of_int) (auto simp: ringSize_def)
  then show ?thesis
    using floatRing_total [OF assms]
    by (simp add: floatRing_mean_def floatRing_fn Let_def fdiv_def float_of_int_def ringSize_def)
qed

theorem floatRing_mean_exact_witness:
  "floatRing_mean (fold floatRing_add [2, 4, 9] floatRing_zero) = 5"
proof -
  have "\<forall>v \<in> set [2, 4, 9]. on_grid 0 v"
    by (auto simp: on_grid_def intro: exI [of _ 2] exI [of _ 4] exI [of _ 9])
  from floatRing_mean_exact [OF _ this]
  have "floatRing_mean (fold floatRing_add [2, 4, 9] floatRing_zero) = fl64 (of_int 5)"
    by (simp add: last_n_def ringSize_def)
  moreover have "fl64 (of_int 5) = of_int 5" by (rule fl64_of_int) simp
  ultimately show ?thesis by simp
qed

end
