(* ===== verification/Wheel.thy ===== *)
theory Wheel
  imports Go_Time
begin

text \<open>
  The wheel of one-second buckets of metrics_state.go, and the interface \<open>window_counter\<close> through
  which the metrics use it: counting the events of the last seconds without keeping them. The
  array of 600 \<open>int32\<close> buckets is a function from indices to words; the index is the second modulo
  the size, which for the seconds after the epoch a clock gives is Go's remainder too.
\<close>

section \<open>The wheel\<close>

definition wheelSeconds :: int where
  "wheelSeconds = 600"

record bucketWheel =
  buckets :: "nat \<Rightarrow> 32 word"
  lastSec :: int

definition bucketWheel_zero :: bucketWheel where
  "bucketWheel_zero = \<lparr>buckets = (\<lambda>_. 0), lastSec = 0\<rparr>"

definition slot :: "int \<Rightarrow> nat" where
  "slot s = nat (s mod wheelSeconds)"

text \<open>The loop \<open>for s := from; s <= sec; s++ { buckets[s%wheelSeconds] = 0 }\<close>.\<close>

function clear_slots :: "int \<Rightarrow> int \<Rightarrow> (nat \<Rightarrow> 32 word) \<Rightarrow> (nat \<Rightarrow> 32 word)" where
  "clear_slots s sec b = (if s \<le> sec then clear_slots (s + 1) sec (b(slot s := 0)) else b)"
  by pat_completeness auto
termination
  by (relation "measure (\<lambda>(s, sec, b). nat (sec - s + 1))") auto

declare clear_slots.simps [simp del]

definition advance :: "int \<Rightarrow> bucketWheel \<Rightarrow> bucketWheel" where
  "advance sec w =
     (if lastSec w = 0 then w\<lparr>lastSec := sec\<rparr>
      else if sec \<le> lastSec w then w
      else let gap = sec - lastSec w
           in if wheelSeconds \<le> gap then w\<lparr>buckets := (\<lambda>_. 0), lastSec := sec\<rparr>
              else w\<lparr>buckets := clear_slots (lastSec w + 1) sec (buckets w), lastSec := sec\<rparr>)"

definition bump :: "int \<Rightarrow> bucketWheel \<Rightarrow> bucketWheel" where
  "bump sec w = w\<lparr>buckets := (buckets w)(slot sec := buckets w (slot sec) + 1)\<rparr>"

definition wheel_record :: "gotime \<Rightarrow> bucketWheel \<Rightarrow> bucketWheel" where
  "wheel_record t w =
     (let sec = unix t; w = advance sec w
      in if sec = lastSec w then bump sec w
         else if sec < lastSec w \<and> lastSec w - sec < wheelSeconds then bump sec w
         else w)"

text \<open>
  \<open>countLast\<close> sums the buckets of the window (as \<open>int64(int32)\<close>, so signed), skipping seconds
  that are not positive; it returns the count and the wheel it advanced.
\<close>

definition countLast :: "gotime \<Rightarrow> int \<Rightarrow> bucketWheel \<Rightarrow> int \<times> bucketWheel" where
  "countLast now seconds w =
     (let sec = unix now; w = advance sec w
      in (\<Sum>s \<leftarrow> filter (\<lambda>s. 0 < s) [sec - seconds + 1 .. sec]. sint (buckets w (slot s)), w))"

section \<open>Slots\<close>

text \<open>Go's \<open>%\<close> truncates; on the seconds of a clock after the epoch it agrees with \<open>mod\<close>.\<close>

lemma slot_go_remainder: "0 \<le> s \<Longrightarrow> int (slot s) = s smod wheelSeconds"
  by (cases "s = 0") (simp_all add: slot_def wheelSeconds_def smod_int_alt_def)

lemma slot_inj:
  assumes "slot s = slot t" and "\<bar>s - t\<bar> < wheelSeconds"
  shows "s = t"
proof -
  have "s mod wheelSeconds = t mod wheelSeconds"
    using assms(1) by (simp add: slot_def wheelSeconds_def)
  then have "wheelSeconds dvd s - t"
    by (simp add: mod_eq_dvd_iff)
  with assms(2) show ?thesis
    using zdvd_imp_le [of wheelSeconds "\<bar>s - t\<bar>"] by (cases "s = t") auto
qed

lemma clear_slots_apply:
  "clear_slots s sec b i = (if \<exists>k. s \<le> k \<and> k \<le> sec \<and> slot k = i then 0 else b i)"
proof (induction s sec b rule: clear_slots.induct)
  case (1 s sec b)
  show ?case
  proof (cases "s \<le> sec")
    case True
    have step: "clear_slots s sec b i = clear_slots (s + 1) sec (b(slot s := 0)) i"
      using True by (subst clear_slots.simps) simp
    have "(\<exists>k. s \<le> k \<and> k \<le> sec \<and> slot k = i) \<longleftrightarrow> slot s = i \<or> (\<exists>k. s + 1 \<le> k \<and> k \<le> sec \<and> slot k = i)"
      using True by (metis add1_zle_eq order_refl order_le_less)
    then show ?thesis
      unfolding step 1 [OF True] by auto
  next
    case False
    then show ?thesis by (subst clear_slots.simps) auto
  qed
qed

section \<open>The interface\<close>

text \<open>
  A window counter stands for a log of events, the number of events of each second, of which it
  answers for the last \<open>span\<close> seconds before \<open>edge\<close>, the latest second it has seen.
\<close>

locale window_counter =
  fixes fresh :: 'w
    and note_event :: "gotime \<Rightarrow> 'w \<Rightarrow> 'w"
    and recent :: "gotime \<Rightarrow> int \<Rightarrow> 'w \<Rightarrow> int \<times> 'w"
    and span :: int
    and edge :: "'w \<Rightarrow> int"
    and stands_for :: "'w \<Rightarrow> (int \<Rightarrow> nat) \<Rightarrow> bool"
  assumes fresh_log: "stands_for fresh (\<lambda>_. 0)" and fresh_edge: "edge fresh = 0"
    and note_log: "stands_for w E \<Longrightarrow> 0 < unix t \<Longrightarrow>
          stands_for (note_event t w) (E(unix t := Suc (E (unix t))))"
    and note_edge: "edge (note_event t w) \<le> max (edge w) (unix t)"
    and recent_log: "stands_for w E \<Longrightarrow> 0 < unix now \<Longrightarrow> stands_for (snd (recent now n w)) E"
    and recent_edge: "edge (snd (recent now n w)) \<le> max (edge w) (unix now)"
    and recent_count: "stands_for w E \<Longrightarrow> edge w \<le> unix now \<Longrightarrow> 0 < unix now \<Longrightarrow> n \<le> span \<Longrightarrow>
          \<forall>s. E s < 2 ^ 31 \<Longrightarrow>
          fst (recent now n w) = (\<Sum>s \<in> {unix now - n <.. unix now} \<inter> {1 ..}. int (E s))"
begin

text \<open>The log of a list of events.\<close>

definition log_of :: "gotime list \<Rightarrow> int \<Rightarrow> nat" where
  "log_of ts s = length (filter (\<lambda>t. unix t = s) ts)"

lemma log_of_snoc: "log_of (ts @ [t]) = (log_of ts)(unix t := Suc (log_of ts (unix t)))"
  by (auto simp: log_of_def fun_eq_iff)

lemma log_of_Nil: "log_of [] = (\<lambda>_. 0)"
  by (simp add: log_of_def fun_eq_iff)

text \<open>Summing the log over a window counts the events in it.\<close>

lemma log_of_window:
  assumes "finite W"
  shows "(\<Sum>s \<in> W. int (log_of ts s)) = int (length (filter (\<lambda>t. unix t \<in> W) ts))"
proof (induction ts rule: rev_induct)
  case Nil
  then show ?case by (simp add: log_of_Nil)
next
  case (snoc t ts)
  have "(\<Sum>s \<in> W. int (log_of (ts @ [t]) s)) = (\<Sum>s \<in> W. int (log_of ts s) + (if s = unix t then 1 else 0))"
    by (rule sum.cong) (auto simp: log_of_snoc)
  with snoc assms show ?case by (auto simp: sum.distrib)
qed

text \<open>
  What a client keeps: the counter answers for the events so far, all of them between the epoch
  and now.
\<close>

definition tracks :: "'w \<Rightarrow> gotime list \<Rightarrow> gotime \<Rightarrow> bool" where
  "tracks w ts now \<longleftrightarrow> stands_for w (log_of ts) \<and> edge w \<le> unix now \<and> (\<forall>t \<in> set ts. 0 < unix t)"

lemma tracks_fresh: "0 < unix now \<Longrightarrow> tracks fresh [] now"
  by (simp add: tracks_def fresh_log fresh_edge log_of_Nil)

lemma tracks_note:
  "tracks w ts now \<Longrightarrow> 0 < unix t \<Longrightarrow> t \<le> now \<Longrightarrow> tracks (note_event t w) (ts @ [t]) now"
  using note_log [of w "log_of ts" t] note_edge [of t w] unix_mono [of t now]
  by (auto simp: tracks_def log_of_snoc)

lemma tracks_recent:
  "tracks w ts now \<Longrightarrow> 0 < unix now \<Longrightarrow> tracks (snd (recent now n w)) ts now"
  using recent_log [of w "log_of ts" now n] recent_edge [of now n w] by (auto simp: tracks_def)

lemma tracks_later: "tracks w ts now \<Longrightarrow> now \<le> later \<Longrightarrow> tracks w ts later"
  using unix_mono [of now later] by (auto simp: tracks_def)

lemma tracks_run:
  assumes "0 < unix now" and "\<forall>t \<in> set ts. 0 < unix t \<and> t \<le> now"
  shows "tracks (fold note_event ts fresh) ts now"
  using assms(2)
proof (induction ts rule: rev_induct)
  case Nil
  then show ?case by (simp add: tracks_fresh assms(1))
next
  case (snoc t ts)
  then show ?case by (simp add: tracks_note)
qed

lemma recent_events:
  assumes "tracks w ts now" and "0 < unix now" and "n \<le> span" and "length ts < 2 ^ 31"
  shows "fst (recent now n w) = int (length (filter (\<lambda>t. unix now - n < unix t \<and> unix t \<le> unix now) ts))"
proof -
  have "\<forall>s. log_of ts s < 2 ^ 31"
    unfolding log_of_def using assms(4) by (meson length_filter_le order_le_less_trans)
  then have "fst (recent now n w) = (\<Sum>s \<in> {unix now - n <.. unix now} \<inter> {1 ..}. int (log_of ts s))"
    using assms recent_count [of w "log_of ts" now n] by (simp add: tracks_def)
  also have "\<dots> = int (length (filter (\<lambda>t. unix t \<in> {unix now - n <.. unix now} \<inter> {1 ..}) ts))"
    by (rule log_of_window) simp
  also have "\<dots> = int (length (filter (\<lambda>t. unix now - n < unix t \<and> unix t \<le> unix now) ts))"
    using assms(1) by (auto simp: tracks_def intro!: arg_cong [where f = length] filter_cong)
  finally show ?thesis .
qed

end

section \<open>The wheel implements it\<close>

text \<open>
  The buckets of the last 600 seconds hold their counts; nothing happened after \<open>lastSec\<close>; before
  the first event everything is zero.
\<close>

definition wheel_log :: "bucketWheel \<Rightarrow> (int \<Rightarrow> nat) \<Rightarrow> bool" where
  "wheel_log w E \<longleftrightarrow> 0 \<le> lastSec w \<and>
     (\<forall>s. lastSec w - wheelSeconds < s \<and> s \<le> lastSec w \<longrightarrow> buckets w (slot s) = of_nat (E s)) \<and>
     (\<forall>s. lastSec w < s \<or> s \<le> 0 \<longrightarrow> E s = 0) \<and>
     (lastSec w = 0 \<longrightarrow> buckets w = (\<lambda>_. 0))"

lemma advance_lastSec:
  "0 \<le> lastSec w \<Longrightarrow> 0 < sec \<Longrightarrow> lastSec (advance sec w) = max (lastSec w) sec"
  by (auto simp: advance_def Let_def)

lemma wheel_log_advance:
  assumes w: "wheel_log w E" and sec: "0 < sec"
  shows "wheel_log (advance sec w) E"
proof -
  consider (first) "lastSec w = 0" | (past) "lastSec w \<noteq> 0" "sec \<le> lastSec w"
    | (gap) "lastSec w \<noteq> 0" "lastSec w < sec" "wheelSeconds \<le> sec - lastSec w"
    | (step) "lastSec w \<noteq> 0" "lastSec w < sec" "sec - lastSec w < wheelSeconds"
    by linarith
  then show ?thesis
  proof cases
    case first
    then have "E s = 0" for s using w unfolding wheel_log_def by (metis not_less)
    with first w sec show ?thesis by (simp add: wheel_log_def advance_def)
  next
    case past
    then show ?thesis using w by (simp add: advance_def)
  next
    case gap
    then have "E s = 0" if "sec - wheelSeconds < s" for s
      using w that by (simp add: wheel_log_def)
    with gap w sec show ?thesis by (simp add: wheel_log_def advance_def Let_def)
  next
    case step
    have "clear_slots (lastSec w + 1) sec (buckets w) (slot s) = of_nat (E s)"
      if s: "sec - wheelSeconds < s" "s \<le> sec" for s
    proof (cases "lastSec w < s")
      case True
      then have "E s = 0" using w by (simp add: wheel_log_def)
      moreover have "\<exists>k. lastSec w + 1 \<le> k \<and> k \<le> sec \<and> slot k = slot s"
        using True s by (intro exI [of _ s]) simp
      ultimately show ?thesis by (simp add: clear_slots_apply)
    next
      case False
      have "slot k \<noteq> slot s" if "lastSec w + 1 \<le> k" "k \<le> sec" for k
        using slot_inj [of k s] that s False step by fastforce
      then have none: "\<not> (\<exists>k. lastSec w + 1 \<le> k \<and> k \<le> sec \<and> slot k = slot s)" by blast
      have "buckets w (slot s) = of_nat (E s)"
        using w s step False by (simp add: wheel_log_def)
      then show ?thesis
        unfolding clear_slots_apply if_not_P [OF none] .
    qed
    with step w sec show ?thesis by (simp add: wheel_log_def advance_def Let_def)
  qed
qed

lemma wheel_log_bump:
  assumes w: "wheel_log w E" and s: "lastSec w - wheelSeconds < sec" "sec \<le> lastSec w" "0 < sec"
  shows "wheel_log (bump sec w) (E(sec := Suc (E sec)))"
proof -
  have "slot s' \<noteq> slot sec" if "lastSec w - wheelSeconds < s'" "s' \<le> lastSec w" "s' \<noteq> sec" for s'
    using slot_inj [of s' sec] that s by fastforce
  with w s show ?thesis
    by (auto simp: wheel_log_def bump_def)
qed

lemma wheel_log_drop:
  "wheel_log w E \<Longrightarrow> sec \<le> lastSec w - wheelSeconds \<Longrightarrow> 0 < sec \<Longrightarrow> wheel_log w (E(sec := n))"
  by (auto simp: wheel_log_def wheelSeconds_def)

lemma wheel_log_record:
  assumes "wheel_log w E" and "0 < unix t"
  shows "wheel_log (wheel_record t w) (E(unix t := Suc (E (unix t))))"
proof -
  have a: "wheel_log (advance (unix t) w) E"
    by (rule wheel_log_advance [OF assms])
  have "unix t \<le> lastSec (advance (unix t) w)"
    using assms by (simp add: advance_lastSec wheel_log_def)
  then have "unix t = lastSec (advance (unix t) w) \<or> unix t < lastSec (advance (unix t) w)"
    by linarith
  then show ?thesis
    using wheel_log_bump [OF a _ _ assms(2)] wheel_log_drop [OF a _ assms(2), of "Suc (E (unix t))"]
    by (auto simp: wheel_record_def Let_def wheelSeconds_def)
qed

lemma sint_of_nat_32: "n < 2 ^ 31 \<Longrightarrow> sint (of_nat n :: 32 word) = int n"
  by (simp add: signed_of_nat signed_take_bit_int_eq_self)

interpretation bw: window_counter bucketWheel_zero wheel_record countLast wheelSeconds lastSec wheel_log
proof unfold_locales
  show "wheel_log bucketWheel_zero (\<lambda>_. 0)" "lastSec bucketWheel_zero = 0"
    by (simp_all add: wheel_log_def bucketWheel_zero_def)
next
  fix w E t now n
  show "wheel_log w E \<Longrightarrow> 0 < unix t \<Longrightarrow> wheel_log (wheel_record t w) (E(unix t := Suc (E (unix t))))"
    by (rule wheel_log_record)
  show "lastSec (wheel_record t w) \<le> max (lastSec w) (unix t)"
    by (auto simp: wheel_record_def bump_def advance_def Let_def)
  show "wheel_log w E \<Longrightarrow> 0 < unix now \<Longrightarrow> wheel_log (snd (countLast now n w)) E"
    by (simp add: countLast_def Let_def wheel_log_advance)
  show "lastSec (snd (countLast now n w)) \<le> max (lastSec w) (unix now)"
    by (auto simp: countLast_def advance_def Let_def)
  assume w: "wheel_log w E" and last: "lastSec w \<le> unix now" and now: "0 < unix now"
    and n: "n \<le> wheelSeconds" and small: "\<forall>s. E s < 2 ^ 31"
  let ?w = "advance (unix now) w"
  have log: "wheel_log ?w E"
    by (rule wheel_log_advance [OF w now])
  have edge: "lastSec ?w = unix now"
    using w last now by (simp add: advance_lastSec wheel_log_def)
  have "fst (countLast now n w) = (\<Sum>s \<leftarrow> filter (\<lambda>s. 0 < s) [unix now - n + 1 .. unix now]. int (E s))"
    unfolding countLast_def Let_def fst_conv
  proof (rule arg_cong [where f = sum_list], rule map_cong [OF refl])
    fix s assume "s \<in> set (filter (\<lambda>s. 0 < s) [unix now - n + 1 .. unix now])"
    then have "buckets ?w (slot s) = of_nat (E s)"
      using log edge n by (simp add: wheel_log_def)
    then show "sint (buckets ?w (slot s)) = int (E s)"
      using small by (simp add: sint_of_nat_32)
  qed
  also have "\<dots> = (\<Sum>s \<in> {unix now - n <.. unix now} \<inter> {1 ..}. int (E s))"
    by (subst sum_list_distinct_conv_sum_set) (auto intro!: sum.cong)
  finally show "fst (countLast now n w) = (\<Sum>s \<in> {unix now - n <.. unix now} \<inter> {1 ..}. int (E s))" .
qed


section \<open>Properties\<close>

text \<open>C25: Whatever the order in which events are recorded, counting the last \<open>n \<le> 600\<close> seconds at an
  instant not before them gives exactly the number of recorded events whose second lies in the
  window of \<open>n\<close> seconds that ends now: no event of a lap before is counted, none of the window is
  lost. (Fewer than \<open>2 ^ 31\<close> events, so that no 32-bit bucket wraps around.)\<close>

theorem countLast_counts_window:
  assumes "0 < unix now" and "\<forall>t \<in> set ts. 0 < unix t \<and> t \<le> now"
    and "n \<le> wheelSeconds" and "length ts < 2 ^ 31"
  shows "fst (countLast now n (fold wheel_record ts bucketWheel_zero)) =
    int (length (filter (\<lambda>t. unix now - n < unix t \<and> unix t \<le> unix now) ts))"
  using bw.recent_events [OF bw.tracks_run [OF assms(1,2)] assms(1,3,4)] .

theorem countLast_counts_window_witness:
  "fst (countLast (1000 * second) 60
      (fold wheel_record [990 * second, 300 * second, 950 * second] bucketWheel_zero)) = 2"
  using countLast_counts_window [of "1000 * second" "[990 * second, 300 * second, 950 * second]" 60]
  by (simp add: unix_def wheelSeconds_def)

end
