(* ===== verification/Metrics.thy ===== *)
theory Metrics
  imports Sample_Rings Wheel
begin

text \<open>
  The metrics of the breaker: the families of events and the endpoint states of metrics_state.go,
  the public snapshot of endpoint_metrics.go, and \<open>updateMetrics\<close>, the five \<open>record\<close> functions and
  \<open>Metrics\<close> of circuitbreaker.go. Counters are 64-bit words. A Go map is an association list
  without repeated keys; the nil map is the empty list. Each update runs under the metrics lock.
  The clock is read once per update where the code reads it again for every family it touches.
\<close>

section \<open>Families of events\<close>

record familyState =
  durations :: floatRing
  starts :: timeRing
  wheel :: bucketWheel
  mean :: float64
  ratio01 :: int
  ratio05 :: int
  ratio10 :: int

definition familyState_zero :: familyState where
  "familyState_zero =
     \<lparr>durations = floatRing_zero, starts = timeRing_zero, wheel = bucketWheel_zero,
      mean = 0, ratio01 = 0, ratio05 = 0, ratio10 = 0\<rparr>"

text \<open>\<open>record(start, end)\<close>, with \<open>now\<close> the reading it takes of the clock.\<close>

definition family_record :: "gotime \<Rightarrow> gotime \<Rightarrow> gotime \<Rightarrow> familyState \<Rightarrow> familyState" where
  "family_record start fin now f =
     (let ds = floatRing_add (Seconds (time_sub fin start)) (durations f);
          ss = timeRing_add start (starts f);
          w = wheel_record start (wheel f);
          m = floatRing_mean ds;
          (r01, w01) = countLast now 60 w;
          (r05, w05) = countLast now 300 w01;
          (r10, w10) = countLast now 600 w05
      in \<lparr>durations = ds, starts = ss, wheel = w10, mean = m,
          ratio01 = r01, ratio05 = r05, ratio10 = r10\<rparr>)"

section \<open>Endpoint states and snapshots\<close>

record endpointState =
  totalRequests :: "64 word"
  successfulRequests :: "64 word"
  failedRequests :: "64 word"
  retryCount :: "64 word"
  tokenWaitCancellations :: "64 word"
  req :: familyState
  success :: familyState
  failure :: familyState
  retry :: familyState

definition endpointState_zero :: endpointState where
  "endpointState_zero =
     \<lparr>totalRequests = 0, successfulRequests = 0, failedRequests = 0, retryCount = 0,
      tokenWaitCancellations = 0, req = familyState_zero, success = familyState_zero,
      failure = familyState_zero, retry = familyState_zero\<rparr>"

record EndpointMetrics =
  TotalRequests :: "64 word"
  SuccessfulRequests :: "64 word"
  FailedRequests :: "64 word"
  RetryCount :: "64 word"
  TokenWaitCancellations :: "64 word"
  MeanRequests :: float64
  MeanSuccessfulRequests :: float64
  MeanFailedRequests :: float64
  MeanRetry :: float64
  Ratio01Requests :: int
  Ratio01SuccessfulRequests :: int
  Ratio01FailedRequests :: int
  Ratio01Retry :: int
  Ratio05Requests :: int
  Ratio05SuccessfulRequests :: int
  Ratio05FailedRequests :: int
  Ratio05Retry :: int
  Ratio10Requests :: int
  Ratio10SuccessfulRequests :: int
  Ratio10FailedRequests :: int
  Ratio10Retry :: int
  TimeRequests :: "float64 list"
  TimeSuccessfulRequests :: "float64 list"
  TimeFailedRequests :: "float64 list"
  TimeRetry :: "float64 list"
  StartTimeRequests :: "gotime list"
  StartTimeSuccessfulRequests :: "gotime list"
  StartTimeFailedRequests :: "gotime list"
  StartTimeRetry :: "gotime list"

definition snapshot :: "endpointState \<Rightarrow> EndpointMetrics" where
  "snapshot s =
     \<lparr>TotalRequests = totalRequests s,
      SuccessfulRequests = successfulRequests s,
      FailedRequests = failedRequests s,
      RetryCount = retryCount s,
      TokenWaitCancellations = tokenWaitCancellations s,
      MeanRequests = mean (req s),
      MeanSuccessfulRequests = mean (success s),
      MeanFailedRequests = mean (failure s),
      MeanRetry = mean (retry s),
      Ratio01Requests = ratio01 (req s),
      Ratio01SuccessfulRequests = ratio01 (success s),
      Ratio01FailedRequests = ratio01 (failure s),
      Ratio01Retry = ratio01 (retry s),
      Ratio05Requests = ratio05 (req s),
      Ratio05SuccessfulRequests = ratio05 (success s),
      Ratio05FailedRequests = ratio05 (failure s),
      Ratio05Retry = ratio05 (retry s),
      Ratio10Requests = ratio10 (req s),
      Ratio10SuccessfulRequests = ratio10 (success s),
      Ratio10FailedRequests = ratio10 (failure s),
      Ratio10Retry = ratio10 (retry s),
      TimeRequests = floatRing_slice (durations (req s)),
      TimeSuccessfulRequests = floatRing_slice (durations (success s)),
      TimeFailedRequests = floatRing_slice (durations (failure s)),
      TimeRetry = floatRing_slice (durations (retry s)),
      StartTimeRequests = timeRing_slice (starts (req s)),
      StartTimeSuccessfulRequests = timeRing_slice (starts (success s)),
      StartTimeFailedRequests = timeRing_slice (starts (failure s)),
      StartTimeRetry = timeRing_slice (starts (retry s))\<rparr>"

section \<open>Updates\<close>

type_synonym host_metrics = "(string \<times> endpointState) list"
type_synonym metrics_map = "(string \<times> host_metrics) list"

definition maxEndpointsPerHost :: nat where
  "maxEndpointsPerHost = 1026"

definition root_key :: string where "root_key = ''::root''"
definition other_key :: string where "other_key = ''::other''"

text \<open>The key of the entry an update goes to, and the state found or made there.\<close>

definition endpoint_entry :: "string \<Rightarrow> host_metrics \<Rightarrow> string \<times> endpointState" where
  "endpoint_entry endpoint hm =
     (case map_of hm endpoint of
        Some st \<Rightarrow> (endpoint, st)
      | None \<Rightarrow>
          if maxEndpointsPerHost \<le> length hm then
            (other_key, case map_of hm other_key of Some st \<Rightarrow> st | None \<Rightarrow> endpointState_zero)
          else (endpoint, endpointState_zero))"

text \<open>\<open>None\<close> is the nil dereference of a missing \<open>::root\<close> entry.\<close>

definition updateMetrics ::
    "string \<Rightarrow> string \<Rightarrow> (endpointState \<Rightarrow> endpointState) \<Rightarrow> metrics_map \<Rightarrow> metrics_map option" where
  "updateMetrics host endpoint updateFn m =
     (let endpoint = (if endpoint = root_key \<or> endpoint = other_key then ''/'' @ endpoint else endpoint);
          hm = (case map_of m host of None \<Rightarrow> [(root_key, endpointState_zero)] | Some hm \<Rightarrow> hm);
          (key, st) = endpoint_entry endpoint hm;
          hm = AList.update key (updateFn st) hm
      in case map_of hm root_key of
           None \<Rightarrow> None
         | Some agg \<Rightarrow> Some (AList.update host (AList.update root_key (updateFn agg) hm) m))"

text \<open>What each \<open>record\<close> function of the breaker passes to \<open>updateMetrics\<close>.\<close>

datatype metric_kind = Attempt | Success | Failure | TokenCancel | Retry

fun metric_update :: "metric_kind \<Rightarrow> gotime \<Rightarrow> gotime \<Rightarrow> gotime \<Rightarrow> endpointState \<Rightarrow> endpointState" where
  "metric_update Attempt start fin now s =
     s\<lparr>totalRequests := totalRequests s + 1, req := family_record start fin now (req s)\<rparr>"
| "metric_update Success start fin now s =
     s\<lparr>successfulRequests := successfulRequests s + 1, success := family_record start fin now (success s)\<rparr>"
| "metric_update Failure start fin now s =
     s\<lparr>failedRequests := failedRequests s + 1, failure := family_record start fin now (failure s)\<rparr>"
| "metric_update TokenCancel start fin now s =
     s\<lparr>tokenWaitCancellations := tokenWaitCancellations s + 1\<rparr>"
| "metric_update Retry start fin now s =
     s\<lparr>retryCount := retryCount s + 1, retry := family_record start fin now (retry s)\<rparr>"

definition recordAttempt :: "string \<Rightarrow> string \<Rightarrow> gotime \<Rightarrow> gotime \<Rightarrow> metrics_map \<Rightarrow> metrics_map option" where
  "recordAttempt host endpoint start fin = updateMetrics host endpoint (metric_update Attempt start fin fin)"

definition recordSuccess :: "string \<Rightarrow> string \<Rightarrow> gotime \<Rightarrow> gotime \<Rightarrow> metrics_map \<Rightarrow> metrics_map option" where
  "recordSuccess host endpoint start fin = updateMetrics host endpoint (metric_update Success start fin fin)"

definition recordFailure :: "string \<Rightarrow> string \<Rightarrow> gotime \<Rightarrow> gotime \<Rightarrow> metrics_map \<Rightarrow> metrics_map option" where
  "recordFailure host endpoint start fin = updateMetrics host endpoint (metric_update Failure start fin fin)"

definition recordTokenCancel :: "string \<Rightarrow> string \<Rightarrow> metrics_map \<Rightarrow> metrics_map option" where
  "recordTokenCancel host endpoint = updateMetrics host endpoint (metric_update TokenCancel 0 0 0)"

definition recordRetry :: "string \<Rightarrow> string \<Rightarrow> gotime \<Rightarrow> gotime \<Rightarrow> metrics_map \<Rightarrow> metrics_map option" where
  "recordRetry host endpoint start fin = updateMetrics host endpoint (metric_update Retry start fin fin)"

text \<open>\<open>Metrics()\<close>: the snapshot of every endpoint of every host.\<close>

definition Metrics :: "metrics_map \<Rightarrow> (string \<times> (string \<times> EndpointMetrics) list) list" where
  "Metrics m = map (\<lambda>(host, endpoints). (host, map (\<lambda>(endpoint, st). (endpoint, snapshot st)) endpoints)) m"


section \<open>Tallies\<close>

text \<open>The five counters of an endpoint state, added componentwise.\<close>

datatype tally = Tally (t_total: "64 word") (t_ok: "64 word") (t_fail: "64 word") (t_retry: "64 word") (t_cancel: "64 word")

instantiation tally :: comm_monoid_add
begin

definition zero_tally :: tally where "zero_tally = Tally 0 0 0 0 0"

definition plus_tally :: "tally \<Rightarrow> tally \<Rightarrow> tally" where
  "plus_tally a b = Tally (t_total a + t_total b) (t_ok a + t_ok b) (t_fail a + t_fail b)
     (t_retry a + t_retry b) (t_cancel a + t_cancel b)"

instance
  by standard (auto simp: zero_tally_def plus_tally_def ac_simps intro: tally.expand)

end

definition tally_of :: "endpointState \<Rightarrow> tally" where
  "tally_of s = Tally (totalRequests s) (successfulRequests s) (failedRequests s) (retryCount s)
     (tokenWaitCancellations s)"

fun kind_tally :: "metric_kind \<Rightarrow> tally" where
  "kind_tally Attempt = Tally 1 0 0 0 0"
| "kind_tally Success = Tally 0 1 0 0 0"
| "kind_tally Failure = Tally 0 0 1 0 0"
| "kind_tally Retry = Tally 0 0 0 1 0"
| "kind_tally TokenCancel = Tally 0 0 0 0 1"

lemma tally_of_zero [simp]: "tally_of endpointState_zero = 0"
  by (simp add: tally_of_def endpointState_zero_def zero_tally_def)

text \<open>The sum of the tallies of the entries other than the aggregate.\<close>

definition parts_sum :: "host_metrics \<Rightarrow> tally" where
  "parts_sum hm = (\<Sum>(k, s) \<leftarrow> hm. if k = root_key then 0 else tally_of s)"

lemma parts_sum_simps [simp]:
  "parts_sum [] = 0"
  "parts_sum ((k, s) # hm) = (if k = root_key then 0 else tally_of s) + parts_sum hm"
  by (simp_all add: parts_sum_def)

lemma parts_sum_fresh:
  "map_of hm k = None \<Longrightarrow> k \<noteq> root_key \<Longrightarrow> parts_sum (AList.update k v hm) = parts_sum hm + tally_of v"
  by (induction hm) (auto simp: ac_simps split: if_splits)

lemma parts_sum_root: "distinct (map fst hm) \<Longrightarrow> parts_sum (AList.update root_key v hm) = parts_sum hm"
  by (induction hm) auto

text \<open>The tally of an endpoint of a host, and the key an update of an endpoint goes to.\<close>

definition tally_at :: "metrics_map \<Rightarrow> string \<Rightarrow> string \<Rightarrow> tally" where
  "tally_at m host key =
     (case map_of m host of
        None \<Rightarrow> 0
      | Some hm \<Rightarrow> (case map_of hm key of None \<Rightarrow> 0 | Some s \<Rightarrow> tally_of s))"

definition host_view :: "metrics_map \<Rightarrow> string \<Rightarrow> host_metrics" where
  "host_view m host =
     (case map_of m host of None \<Rightarrow> [(root_key, endpointState_zero)] | Some hm \<Rightarrow> hm)"

definition target_key :: "metrics_map \<Rightarrow> string \<Rightarrow> string \<Rightarrow> string" where
  "target_key m host endpoint =
     fst (endpoint_entry (if endpoint = root_key \<or> endpoint = other_key then ''/'' @ endpoint else endpoint)
       (host_view m host))"

section \<open>Invariant\<close>

text \<open>
  Per host: keys are not repeated, the aggregate is present and its counters are the sums over
  the other entries, and the number of entries is bounded.
\<close>

definition host_ok :: "host_metrics \<Rightarrow> bool" where
  "host_ok hm \<longleftrightarrow> distinct (map fst hm) \<and>
     (\<exists>agg. map_of hm root_key = Some agg \<and> tally_of agg = parts_sum hm) \<and>
     length hm \<le> maxEndpointsPerHost + (if map_of hm other_key = None then 0 else 1)"

definition metrics_ok :: "metrics_map \<Rightarrow> bool" where
  "metrics_ok m \<longleftrightarrow> distinct (map fst m) \<and> (\<forall>h hm. map_of m h = Some hm \<longrightarrow> host_ok hm)"

lemma keys_differ [simp]: "root_key \<noteq> other_key" "other_key \<noteq> root_key" "''/'' @ e \<noteq> root_key" "''/'' @ e \<noteq> other_key"
  by (simp_all add: root_key_def other_key_def)

lemma host_ok_fresh [inv_intros]: "host_ok [(root_key, endpointState_zero)]"
  by (simp add: host_ok_def maxEndpointsPerHost_def)

lemma metrics_ok_empty [inv_intros]: "metrics_ok []"
  by (simp add: metrics_ok_def)

section \<open>The contract of an update function\<close>

text \<open>
  What \<open>updateMetrics\<close> relies on: the function it applies, twice, adds the same tally to every
  state. The consequences for a host are proved from that alone.
\<close>

locale tally_update =
  fixes updateFn :: "endpointState \<Rightarrow> endpointState" and delta :: tally
  assumes adds: "tally_of (updateFn s) = tally_of s + delta"
begin

lemma parts_sum_old:
  "map_of hm k = Some s \<Longrightarrow> distinct (map fst hm) \<Longrightarrow> k \<noteq> root_key \<Longrightarrow>
   parts_sum (AList.update k (updateFn s) hm) = parts_sum hm + delta"
  by (induction hm) (auto simp: adds ac_simps split: if_splits)

text \<open>The entry chosen for an update is not the aggregate, and adding to it adds to the parts.\<close>

lemma entry_update:
  assumes ok: "host_ok hm" and e: "e \<noteq> root_key" "e \<noteq> other_key"
    and entry: "endpoint_entry e hm = (key, st)"
  shows "key \<noteq> root_key" and "parts_sum (AList.update key (updateFn st) hm) = parts_sum hm + delta"
    and "length (AList.update key (updateFn st) hm) \<le>
      maxEndpointsPerHost + (if map_of (AList.update key (updateFn st) hm) other_key = None then 0 else 1)"
proof -
  have dist: "distinct (map fst hm)"
    and len: "length hm \<le> maxEndpointsPerHost + (if map_of hm other_key = None then 0 else 1)"
    using ok by (simp_all add: host_ok_def)
  consider (old) "map_of hm e = Some st" "key = e"
    | (fresh) "map_of hm e = None" "length hm < maxEndpointsPerHost" "key = e" "st = endpointState_zero"
    | (other) "map_of hm other_key = Some st" "key = other_key"
    | (first_other) "map_of hm other_key = None" "key = other_key" "st = endpointState_zero"
    using entry by (auto simp: endpoint_entry_def split: option.splits if_splits)
  note cases = this
  from cases show "key \<noteq> root_key" by cases (use e in auto)
  from cases show "parts_sum (AList.update key (updateFn st) hm) = parts_sum hm + delta"
    by cases (use e dist in \<open>simp_all add: parts_sum_old parts_sum_fresh adds\<close>)
  from cases show "length (AList.update key (updateFn st) hm) \<le>
      maxEndpointsPerHost + (if map_of (AList.update key (updateFn st) hm) other_key = None then 0 else 1)"
    by cases (use e len in \<open>auto simp: AList_update_length\<close>)
qed

text \<open>So one update of a host keeps its invariant.\<close>

lemma host_ok_update:
  assumes ok: "host_ok hm" and e: "e \<noteq> root_key" "e \<noteq> other_key"
    and entry: "endpoint_entry e hm = (key, st)" and agg: "map_of hm root_key = Some agg"
  shows "host_ok (AList.update root_key (updateFn agg) (AList.update key (updateFn st) hm))"
proof -
  note upd = entry_update [OF ok e entry]
  have dist: "distinct (map fst (AList.update key (updateFn st) hm))"
    using ok by (simp add: host_ok_def distinct_update)
  then have "parts_sum (AList.update root_key (updateFn agg) (AList.update key (updateFn st) hm)) = parts_sum hm + delta"
    by (simp add: parts_sum_root upd(2))
  moreover have "tally_of agg = parts_sum hm"
    using ok agg by (simp add: host_ok_def)
  moreover have "map_of (AList.update key (updateFn st) hm) root_key = Some agg"
    using agg upd(1) by simp
  ultimately show ?thesis
    using dist upd(3) by (simp add: host_ok_def distinct_update adds AList_update_length)
qed

lemma updateMetrics_effect:
  assumes ok: "metrics_ok m"
  shows "\<exists>m'. updateMetrics host endpoint updateFn m = Some m' \<and> metrics_ok m' \<and>
    (\<forall>h e. tally_at m' h e = tally_at m h e +
       (if h = host \<and> (e = root_key \<or> e = target_key m host endpoint) then delta else 0))"
proof -
  define e where "e = (if endpoint = root_key \<or> endpoint = other_key then ''/'' @ endpoint else endpoint)"
  define hm where "hm = (case map_of m host of None \<Rightarrow> [(root_key, endpointState_zero)] | Some hm \<Rightarrow> hm)"
  obtain key st where entry: "endpoint_entry e hm = (key, st)" by fastforce
  have e: "e \<noteq> root_key" "e \<noteq> other_key" by (auto simp: e_def root_key_def other_key_def)
  have host: "host_ok hm"
    using ok host_ok_fresh by (auto simp: hm_def metrics_ok_def split: option.splits)
  then obtain agg where agg: "map_of hm root_key = Some agg" by (auto simp: host_ok_def)
  with entry_update(1) [OF host e entry]
  have "map_of (AList.update key (updateFn st) hm) root_key = Some agg" by simp
  then have "updateMetrics host endpoint updateFn m =
      Some (AList.update host (AList.update root_key (updateFn agg) (AList.update key (updateFn st) hm)) m)"
    using entry by (simp add: updateMetrics_def flip: e_def hm_def)
  moreover have "metrics_ok (AList.update host (AList.update root_key (updateFn agg) (AList.update key (updateFn st) hm)) m)"
    using ok host_ok_update [OF host e entry agg] by (simp add: metrics_ok_def distinct_update)
  moreover have "tally_at (AList.update host (AList.update root_key (updateFn agg) (AList.update key (updateFn st) hm)) m) h x =
      tally_at m h x + (if h = host \<and> (x = root_key \<or> x = key) then delta else 0)" for h x
  proof -
    have st: "(case map_of hm key of None \<Rightarrow> 0 | Some s \<Rightarrow> tally_of s) = tally_of st"
      using entry by (auto simp: endpoint_entry_def split: option.splits if_splits)
    have "tally_at m host x = (case map_of hm x of None \<Rightarrow> 0 | Some s \<Rightarrow> tally_of s)"
      by (simp add: tally_at_def hm_def split: option.split)
    then show ?thesis
      using st agg entry_update(1) [OF host e entry]
      by (auto simp: tally_at_def adds split: option.splits)
  qed
  moreover have "target_key m host endpoint = key"
    using entry by (simp add: target_key_def host_view_def flip: e_def hm_def)
  ultimately show ?thesis by blast
qed

end

interpretation kind: tally_update "metric_update k start fin now" "kind_tally k" for k start fin now
  by unfold_locales (cases k; simp add: tally_of_def plus_tally_def)


section \<open>Histories of records\<close>

definition record_kind ::
    "metric_kind \<Rightarrow> string \<Rightarrow> string \<Rightarrow> gotime \<Rightarrow> gotime \<Rightarrow> metrics_map \<Rightarrow> metrics_map option" where
  "record_kind k host endpoint start fin m =
     (case k of
        Attempt \<Rightarrow> recordAttempt host endpoint start fin m
      | Success \<Rightarrow> recordSuccess host endpoint start fin m
      | Failure \<Rightarrow> recordFailure host endpoint start fin m
      | TokenCancel \<Rightarrow> recordTokenCancel host endpoint m
      | Retry \<Rightarrow> recordRetry host endpoint start fin m)"

lemma record_kind_effect:
  assumes "metrics_ok m"
  shows "\<exists>m'. record_kind k host endpoint start fin m = Some m' \<and> metrics_ok m' \<and>
    (\<forall>h e. tally_at m' h e = tally_at m h e +
       (if h = host \<and> (e = root_key \<or> e = target_key m host endpoint) then kind_tally k else 0))"
  using kind.updateMetrics_effect [OF assms, of host endpoint k start fin fin]
    kind.updateMetrics_effect [OF assms, of host endpoint k 0 0 0]
  by (cases k)
    (simp_all add: record_kind_def recordAttempt_def recordSuccess_def recordFailure_def
      recordTokenCancel_def recordRetry_def)

text \<open>A record event: kind, host, endpoint, start and end.\<close>

type_synonym metric_event = "metric_kind \<times> string \<times> string \<times> gotime \<times> gotime"

fun record_all :: "metric_event list \<Rightarrow> metrics_map \<Rightarrow> metrics_map option" where
  "record_all [] m = Some m"
| "record_all ((k, host, endpoint, start, fin) # es) m =
     (case record_kind k host endpoint start fin m of None \<Rightarrow> None | Some m' \<Rightarrow> record_all es m')"

text \<open>The tallies of the events of one host.\<close>

definition host_tally :: "string \<Rightarrow> metric_event list \<Rightarrow> tally" where
  "host_tally h es = (\<Sum>(k, host, _) \<leftarrow> es. if host = h then kind_tally k else 0)"

lemma host_tally_simps [simp]:
  "host_tally h [] = 0"
  "host_tally h ((k, host, endpoint, start, fin) # es) = (if host = h then kind_tally k else 0) + host_tally h es"
  by (simp_all add: host_tally_def)

lemma record_all_effect:
  "metrics_ok m \<Longrightarrow> \<exists>m'. record_all es m = Some m' \<and> metrics_ok m' \<and>
     (\<forall>h. tally_at m' h root_key = tally_at m h root_key + host_tally h es)"
proof (induction es m rule: record_all.induct)
  case (1 m)
  then show ?case by simp
next
  case (2 k host endpoint start fin es m)
  then obtain m1 where m1: "record_kind k host endpoint start fin m = Some m1" "metrics_ok m1"
    "\<forall>h e. tally_at m1 h e = tally_at m h e +
       (if h = host \<and> (e = root_key \<or> e = target_key m host endpoint) then kind_tally k else 0)"
    using record_kind_effect by blast
  obtain m' where m': "record_all es m1 = Some m'" "metrics_ok m'"
    "\<forall>h. tally_at m' h root_key = tally_at m1 h root_key + host_tally h es"
    using 2(1) [OF m1(1,2)] by blast
  have "tally_at m1 h root_key = tally_at m h root_key + (if host = h then kind_tally k else 0)" for h
    by (simp add: m1(3) eq_commute)
  then have "tally_at m' h root_key = tally_at m h root_key + host_tally h ((k, host, endpoint, start, fin) # es)" for h
    by (simp add: m'(3) add.assoc)
  with m' m1(1) show ?case by simp
qed

section \<open>Histories of a family\<close>

text \<open>A record of a family: start, end, and the clock reading when it is recorded.\<close>

definition family_run :: "(gotime \<times> gotime \<times> gotime) list \<Rightarrow> familyState" where
  "family_run evs = fold (\<lambda>(start, fin, now). family_record start fin now) evs familyState_zero"

text \<open>The readings do not go back, and no event starts after it is recorded or before the epoch.\<close>

definition clock_ok :: "(gotime \<times> gotime \<times> gotime) list \<Rightarrow> bool" where
  "clock_ok evs \<longleftrightarrow> sorted (map (snd \<circ> snd) evs) \<and> (\<forall>(start, fin, now) \<in> set evs. 0 < unix start \<and> start \<le> now)"

lemma family_run_snoc: "family_run (evs @ [(start, fin, now)]) = family_record start fin now (family_run evs)"
  by (simp add: family_run_def)

lemma clock_ok_snoc:
  "clock_ok (evs @ [(start, fin, now)]) \<longleftrightarrow>
     clock_ok evs \<and> 0 < unix start \<and> start \<le> now \<and> (\<forall>(s, f, n) \<in> set evs. n \<le> now)"
  by (auto simp: clock_ok_def sorted_append)

lemma family_run_rings:
  "durations (family_run evs) = fold floatRing_add (map (\<lambda>(s, f, n). Seconds (time_sub f s)) evs) floatRing_zero"
  "starts (family_run evs) = fold timeRing_add (map fst evs) timeRing_zero"
  by (induction evs rule: rev_induct)
    (auto simp: family_run_def familyState_zero_def family_record_def Let_def split: prod.splits)

lemma family_record_wheel:
  assumes "bw.tracks (wheel f) ts now" and "0 < unix start" and "start \<le> now"
  shows "bw.tracks (wheel (family_record start fin now f)) (ts @ [start]) now"
    and "length (ts @ [start]) < 2 ^ 31 \<Longrightarrow>
      \<forall>(r, n) \<in> {(ratio01, 60), (ratio05, 300), (ratio10, 600)}. r (family_record start fin now f) =
        int (length (filter (\<lambda>t. unix now - n < unix t \<and> unix t \<le> unix now) (ts @ [start])))"
proof -
  have now: "0 < unix now" using assms(2,3) unix_mono [of start now] by linarith
  have w0: "bw.tracks (wheel_record start (wheel f)) (ts @ [start]) now"
    using assms by (rule bw.tracks_note)
  obtain r1 w1 where c1: "countLast now 60 (wheel_record start (wheel f)) = (r1, w1)" by fastforce
  then have w1: "bw.tracks w1 (ts @ [start]) now" using bw.tracks_recent [OF w0 now, of 60] by simp
  obtain r5 w5 where c5: "countLast now 300 w1 = (r5, w5)" by fastforce
  then have w5: "bw.tracks w5 (ts @ [start]) now" using bw.tracks_recent [OF w1 now, of 300] by simp
  obtain r10 w10 where c10: "countLast now 600 w5 = (r10, w10)" by fastforce
  then have w10: "bw.tracks w10 (ts @ [start]) now" using bw.tracks_recent [OF w5 now, of 600] by simp
  have fields: "wheel (family_record start fin now f) = w10" "ratio01 (family_record start fin now f) = r1"
    "ratio05 (family_record start fin now f) = r5" "ratio10 (family_record start fin now f) = r10"
    by (simp_all add: family_record_def Let_def c1 c5 c10)
  show "bw.tracks (wheel (family_record start fin now f)) (ts @ [start]) now"
    using w10 by (simp add: fields)
  assume few: "length (ts @ [start]) < 2 ^ 31"
  show "\<forall>(r, n) \<in> {(ratio01, 60), (ratio05, 300), (ratio10, 600)}. r (family_record start fin now f) =
        int (length (filter (\<lambda>t. unix now - n < unix t \<and> unix t \<le> unix now) (ts @ [start])))"
    using bw.recent_events [OF w0 now _ few, of 60] bw.recent_events [OF w1 now _ few, of 300]
      bw.recent_events [OF w5 now _ few, of 600]
    by (simp add: fields c1 c5 c10 wheelSeconds_def)
qed

lemma family_run_wheel:
  "clock_ok evs \<Longrightarrow> 0 < unix now \<Longrightarrow> \<forall>(s, f, n) \<in> set evs. n \<le> now \<Longrightarrow>
     bw.tracks (wheel (family_run evs)) (map fst evs) now"
proof (induction evs arbitrary: now rule: rev_induct)
  case Nil
  then show ?case by (simp add: family_run_def familyState_zero_def bw.tracks_fresh)
next
  case (snoc e evs)
  obtain start fin n where e: "e = (start, fin, n)" by (metis prod_cases3)
  have ok: "clock_ok evs" "0 < unix start" "start \<le> n" "\<forall>(s, f, k) \<in> set evs. k \<le> n" "n \<le> now"
    using snoc.prems by (auto simp: e clock_ok_snoc)
  have "0 < unix n" using ok(2,3) unix_mono [of start n] by linarith
  then have "bw.tracks (wheel (family_run evs)) (map fst evs) n"
    using snoc.IH ok by blast
  then have "bw.tracks (wheel (family_run (evs @ [e]))) (map fst (evs @ [e])) n"
    using family_record_wheel(1) ok by (simp add: e family_run_snoc)
  then show ?case by (rule bw.tracks_later [OF _ ok(5)])
qed

section \<open>How many entries a host has\<close>

lemma updateMetrics_keys:
  assumes ok: "metrics_ok m" and upd: "updateMetrics host endpoint f m = Some m'"
  shows "length (host_view m' host) = length (host_view m host)
      + (if map_of (host_view m host) (target_key m host endpoint) = None then 1 else 0)"
    and "map_of (host_view m' host) x = None \<longleftrightarrow>
      map_of (host_view m host) x = None \<and> x \<noteq> target_key m host endpoint"
proof -
  have "host_ok (host_view m host)"
    using ok host_ok_fresh by (auto simp: host_view_def metrics_ok_def split: option.split)
  then obtain agg where agg: "map_of (host_view m host) root_key = Some agg"
    by (auto simp: host_ok_def)
  obtain key st where entry:
    "endpoint_entry (if endpoint = root_key \<or> endpoint = other_key then ''/'' @ endpoint else endpoint)
       (host_view m host) = (key, st)" by fastforce
  then have key: "target_key m host endpoint = key"
    by (simp add: target_key_def)
  have "\<exists>a. m' = AList.update host (AList.update root_key a (AList.update key (f st) (host_view m host))) m"
    using upd entry agg by (auto simp: updateMetrics_def host_view_def split: option.splits)
  then obtain a where "host_view m' host = AList.update root_key a (AList.update key (f st) (host_view m host))"
    by (auto simp: host_view_def)
  then show "length (host_view m' host) = length (host_view m host)
      + (if map_of (host_view m host) (target_key m host endpoint) = None then 1 else 0)"
    and "map_of (host_view m' host) x = None \<longleftrightarrow>
      map_of (host_view m host) x = None \<and> x \<noteq> target_key m host endpoint"
    using agg by (auto simp: key AList_update_length)
qed

lemma record_all_append:
  "record_all (es @ fs) m = (case record_all es m of None \<Rightarrow> None | Some m' \<Rightarrow> record_all fs m')"
  by (induction es m rule: record_all.induct) (auto split: option.split)

text \<open>Attempts on \<open>n\<close> different paths of one host.\<close>

definition path_of :: "nat \<Rightarrow> string" where
  "path_of n = CHR ''/'' # replicate n CHR ''a''"

definition many_paths :: "nat \<Rightarrow> metric_event list" where
  "many_paths n = map (\<lambda>i. (Attempt, ''h'', path_of i, 0, 0)) [0 ..< n]"

lemma path_of_inject [simp]: "path_of i = path_of j \<longleftrightarrow> i = j"
  by (auto simp: path_of_def replicate_eq_replicate)

lemma path_of_plain [simp]: "path_of i \<noteq> root_key" "path_of i \<noteq> other_key"
  by (simp_all add: path_of_def root_key_def other_key_def)

lemma many_paths_entries:
  assumes "n < maxEndpointsPerHost"
  shows "\<exists>m. record_all (many_paths n) [] = Some m \<and> metrics_ok m \<and> length (host_view m ''h'') = Suc n \<and>
    (\<forall>x. map_of (host_view m ''h'') x = None \<longleftrightarrow> x \<noteq> root_key \<and> (\<forall>i < n. x \<noteq> path_of i))"
  using assms
proof (induction n)
  case 0
  then show ?case by (auto simp: many_paths_def host_view_def metrics_ok_empty)
next
  case (Suc n)
  then obtain m where m: "record_all (many_paths n) [] = Some m" "metrics_ok m" "length (host_view m ''h'') = Suc n"
    "\<forall>x. map_of (host_view m ''h'') x = None \<longleftrightarrow> x \<noteq> root_key \<and> (\<forall>i < n. x \<noteq> path_of i)"
    by auto
  have fresh: "map_of (host_view m ''h'') (path_of n) = None" using m(4) by simp
  then have target: "target_key m ''h'' (path_of n) = path_of n"
    using m(3) Suc.prems by (simp add: target_key_def endpoint_entry_def)
  obtain m' where m': "record_kind Attempt ''h'' (path_of n) 0 0 m = Some m'" "metrics_ok m'"
    using record_kind_effect [OF m(2)] by blast
  have "record_all (many_paths (Suc n)) [] = Some m'"
    using m(1) m'(1) by (simp add: many_paths_def record_all_append)
  moreover have "updateMetrics ''h'' (path_of n) (metric_update Attempt 0 0 0) m = Some m'"
    using m'(1) by (simp add: record_kind_def recordAttempt_def)
  note updateMetrics_keys [OF m(2) this]
  ultimately show ?case
    using m'(2) m(3,4) fresh target by (auto simp: less_Suc_eq)
qed

text \<open>The next new path makes the entry \<open>::other\<close>: one more than the limit.\<close>

lemma entries_over_limit:
  "\<exists>m. record_all (many_paths maxEndpointsPerHost) [] = Some m \<and>
     length (host_view m ''h'') = Suc maxEndpointsPerHost"
proof -
  define n where "n = maxEndpointsPerHost - 1"
  have n: "n < maxEndpointsPerHost" "Suc n = maxEndpointsPerHost"
    by (simp_all add: n_def maxEndpointsPerHost_def)
  obtain m where m: "record_all (many_paths n) [] = Some m" "metrics_ok m" "length (host_view m ''h'') = Suc n"
    "\<forall>x. map_of (host_view m ''h'') x = None \<longleftrightarrow> x \<noteq> root_key \<and> (\<forall>i < n. x \<noteq> path_of i)"
    using many_paths_entries [OF n(1)] by blast
  have none: "map_of (host_view m ''h'') (path_of n) = None" "map_of (host_view m ''h'') other_key = None"
    using m(4) by (auto simp: eq_commute [of other_key])
  then have target: "target_key m ''h'' (path_of n) = other_key"
    using m(3) n by (simp add: target_key_def endpoint_entry_def)
  obtain m' where m': "record_kind Attempt ''h'' (path_of n) 0 0 m = Some m'"
    using record_kind_effect [OF m(2)] by blast
  have "updateMetrics ''h'' (path_of n) (metric_update Attempt 0 0 0) m = Some m'"
    using m' by (simp add: record_kind_def recordAttempt_def)
  then have "length (host_view m' ''h'') = Suc maxEndpointsPerHost"
    using updateMetrics_keys(1) [OF m(2)] target none m(3) n by simp
  moreover have "record_all (many_paths (Suc n)) [] = Some m'"
    using m(1) m' by (simp add: many_paths_def record_all_append)
  ultimately show ?thesis using n(2) by auto
qed

section \<open>Properties\<close>

text \<open>C26: Whatever is recorded, in whatever order, no update dereferences a missing \<open>::root\<close> entry, and
  for every host the aggregate counts exactly the recorded events of that host and is the sum of
  the other entries, also when a path equals a synthetic key or the entries overflow into
  \<open>::other\<close>.\<close>

theorem metrics_aggregate_consistent:
  "\<exists>m. record_all es [] = Some m \<and>
     (\<forall>h. tally_at m h root_key = host_tally h es) \<and>
     (\<forall>h hm. map_of m h = Some hm \<longrightarrow>
        distinct (map fst hm) \<and> (\<exists>agg. map_of hm root_key = Some agg \<and> tally_of agg = parts_sum hm))"
proof -
  obtain m where m: "record_all es [] = Some m" "metrics_ok m"
    "\<forall>h. tally_at m h root_key = tally_at [] h root_key + host_tally h es"
    using record_all_effect [OF metrics_ok_empty] by blast
  have "distinct (map fst hm) \<and> (\<exists>agg. map_of hm root_key = Some agg \<and> tally_of agg = parts_sum hm)"
    if "map_of m h = Some hm" for h hm
    using m(2) that unfolding metrics_ok_def host_ok_def by blast
  moreover have "tally_at m h root_key = host_tally h es" for h
    by (simp add: m(3) tally_at_def [of "[]"])
  ultimately show ?thesis using m(1) by blast
qed

theorem metrics_aggregate_consistent_witness:
  "\<exists>m. record_all [(Attempt, ''h'', ''::root'', 5, 9)] [] = Some m \<and> tally_at m ''h'' root_key = Tally 1 0 0 0 0"
  using metrics_aggregate_consistent [of "[(Attempt, ''h'', ''::root'', 5, 9)]"] by force

text \<open>One record adds its counter to the entry of its endpoint (or of \<open>::other\<close>, for a new endpoint
  of a full host) and to the host's aggregate, and to no other entry of any host.\<close>

theorem record_touches_two_entries:
  assumes "metrics_ok m"
  shows "\<exists>m'. record_kind k host endpoint start fin m = Some m' \<and>
    (\<forall>h e. tally_at m' h e = tally_at m h e +
       (if h = host \<and> (e = root_key \<or> e = target_key m host endpoint) then kind_tally k else 0))"
  using record_kind_effect [OF assms] by blast

theorem record_touches_two_entries_witness:
  "\<exists>m'. record_kind Failure ''h'' ''/a'' 5 9 [] = Some m' \<and>
     tally_at m' ''h'' ''/a'' = Tally 0 0 1 0 0 \<and> tally_at m' ''h'' ''/b'' = 0"
proof -
  obtain m' where m': "record_kind Failure ''h'' ''/a'' 5 9 [] = Some m'"
    "\<forall>h e. tally_at m' h e = tally_at [] h e +
       (if h = ''h'' \<and> (e = root_key \<or> e = target_key [] ''h'' ''/a'') then kind_tally Failure else 0)"
    using record_touches_two_entries [OF metrics_ok_empty] by blast
  have "target_key [] ''h'' ''/a'' = ''/a''"
    by (simp add: target_key_def host_view_def endpoint_entry_def root_key_def other_key_def maxEndpointsPerHost_def)
  with m' show ?thesis by (auto simp: tally_at_def [of "[]"] root_key_def)
qed


text \<open>C37: However many distinct paths are recorded, a host never has more than \<open>maxEndpointsPerHost + 1\<close>
  entries, and that many only together with \<open>::other\<close>; and the bound is reached, so the limit that
  the source says includes both synthetic keys is exceeded by one.\<close>

theorem endpoint_cardinality:
  "(\<exists>m. record_all es [] = Some m \<and>
      (\<forall>h hm. map_of m h = Some hm \<longrightarrow>
         length hm \<le> maxEndpointsPerHost + (if map_of hm other_key = None then 0 else 1))) \<and>
   (\<exists>es m hm. record_all es [] = Some m \<and> map_of m ''h'' = Some hm \<and> length hm = 1027)"
proof
  obtain m where m: "record_all es [] = Some m" "metrics_ok m"
    using record_all_effect [OF metrics_ok_empty] by blast
  have "length hm \<le> maxEndpointsPerHost + (if map_of hm other_key = None then 0 else 1)"
    if "map_of m h = Some hm" for h hm
    using m(2) that unfolding metrics_ok_def host_ok_def by blast
  with m(1) show "\<exists>m. record_all es [] = Some m \<and> (\<forall>h hm. map_of m h = Some hm \<longrightarrow>
         length hm \<le> maxEndpointsPerHost + (if map_of hm other_key = None then 0 else 1))"
    by blast
  obtain m where m: "record_all (many_paths maxEndpointsPerHost) [] = Some m"
    "length (host_view m ''h'') = Suc maxEndpointsPerHost"
    using entries_over_limit by blast
  then have "map_of m ''h'' \<noteq> None"
    by (auto simp: host_view_def maxEndpointsPerHost_def split: option.splits)
  then obtain hm where "map_of m ''h'' = Some hm" by blast
  with m show "\<exists>es m hm. record_all es [] = Some m \<and> map_of m ''h'' = Some hm \<and> length hm = 1027"
    by (auto simp: host_view_def maxEndpointsPerHost_def)
qed

theorem endpoint_cardinality_witness:
  "\<exists>m. record_all [(Retry, ''h'', ''/x'', 1, 2)] [] = Some m \<and>
     (\<forall>hm. map_of m ''h'' = Some hm \<longrightarrow> length hm \<le> 1027)"
proof -
  obtain m where "record_all [(Retry, ''h'', ''/x'', 1, 2)] [] = Some m"
    "\<forall>h hm. map_of m h = Some hm \<longrightarrow> length hm \<le> maxEndpointsPerHost + (if map_of hm other_key = None then 0 else 1)"
    using endpoint_cardinality [of "[(Retry, ''h'', ''/x'', 1, 2)]"] by blast
  then show ?thesis
    by (intro exI [of _ m]) (fastforce simp: maxEndpointsPerHost_def split: if_splits)
qed


text \<open>After any history of records of one family (durations, start instants, windows), the exported
  samples are the last 20 durations and starts in order, and the three ratios are the numbers of
  events whose start lies in the last 60, 300 and 600 seconds, counted at the last record.\<close>

theorem family_reports_history:
  assumes "clock_ok (evs @ [(start, fin, now)])" and "length evs < 2 ^ 30"
  shows "let f = family_run (evs @ [(start, fin, now)]); ts = map fst evs @ [start];
      in_window = (\<lambda>n. int (length (filter (\<lambda>t. unix now - n < unix t \<and> unix t \<le> unix now) ts)))
    in timeRing_slice (starts f) = last_n ringSize ts \<and>
       floatRing_slice (durations f) =
         last_n ringSize (map (\<lambda>(s, e, n). Seconds (time_sub e s)) (evs @ [(start, fin, now)])) \<and>
       ratio01 f = in_window 60 \<and> ratio05 f = in_window 300 \<and> ratio10 f = in_window 600"
proof -
  have ok: "clock_ok evs" "0 < unix start" "start \<le> now" "\<forall>(s, f, n) \<in> set evs. n \<le> now"
    using assms(1) by (simp_all add: clock_ok_snoc)
  have "0 < unix now" using ok(2,3) unix_mono [of start now] by linarith
  then have "bw.tracks (wheel (family_run evs)) (map fst evs) now"
    using family_run_wheel ok by blast
  from family_record_wheel(2) [OF this ok(2,3), of fin] assms(2)
  have "\<forall>(r, n) \<in> {(ratio01, 60), (ratio05, 300), (ratio10, 600)}. r (family_run (evs @ [(start, fin, now)])) =
        int (length (filter (\<lambda>t. unix now - n < unix t \<and> unix t \<le> unix now) (map fst evs @ [start])))"
    by (simp add: family_run_snoc)
  moreover have "timeRing_slice (starts (family_run (evs @ [(start, fin, now)]))) = last_n ringSize (map fst evs @ [start])"
    unfolding family_run_rings tring.slice_run by simp
  moreover have "floatRing_slice (durations (family_run (evs @ [(start, fin, now)]))) =
      last_n ringSize (map (\<lambda>(s, e, n). Seconds (time_sub e s)) (evs @ [(start, fin, now)]))"
    unfolding family_run_rings by (rule fring.slice_run)
  ultimately show ?thesis by (simp add: Let_def)
qed

theorem family_reports_history_witness:
  "ratio01 (family_run [(200 * second, 201 * second, 201 * second), (300 * second, 302 * second, 302 * second)]) = 1"
proof -
  have "clock_ok ([(200 * second, 201 * second, 201 * second)] @ [(300 * second, 302 * second, 302 * second)])"
    by (simp add: clock_ok_def unix_def)
  from family_reports_history [OF this] show ?thesis by (simp add: unix_def Let_def)
qed

end
