(* ===== verification/Channels.thy ===== *)
theory Channels
  imports Prelude
begin

text \<open>
  Buffered Go channels of empty structs, as the semaphore and the token bucket use them: the
  number of buffered elements and the capacity. \<open>try_send\<close> and \<open>try_recv\<close> are the arms of a
  \<open>select\<close>: \<open>None\<close> when the arm is not ready. The interface \<open>bounded_buffer\<close> states what their
  clients rely on and proves the accounting once.
\<close>

section \<open>Channels\<close>

record chan =
  ch_len :: nat
  ch_cap :: nat

definition make_chan :: "nat \<Rightarrow> chan" where
  "make_chan c = \<lparr>ch_len = 0, ch_cap = c\<rparr>"

definition try_send :: "chan \<Rightarrow> chan option" where
  "try_send c = (if ch_len c < ch_cap c then Some (c\<lparr>ch_len := ch_len c + 1\<rparr>) else None)"

definition try_recv :: "chan \<Rightarrow> chan option" where
  "try_recv c = (if 0 < ch_len c then Some (c\<lparr>ch_len := ch_len c - 1\<rparr>) else None)"

definition chan_ok :: "chan \<Rightarrow> bool" where
  "chan_ok c \<longleftrightarrow> ch_len c \<le> ch_cap c"

section \<open>The interface\<close>

datatype buffer_op = Put | Get

locale bounded_buffer =
  fixes send :: "'c \<Rightarrow> 'c option"
    and recv :: "'c \<Rightarrow> 'c option"
    and level :: "'c \<Rightarrow> nat"
    and room :: "'c \<Rightarrow> nat"
    and ok :: "'c \<Rightarrow> bool"
  assumes ok_level: "ok c \<Longrightarrow> level c \<le> room c"
    and send_Some: "send c = Some d \<Longrightarrow> level d = Suc (level c) \<and> room d = room c \<and> level c < room c"
    and send_None: "ok c \<Longrightarrow> send c = None \<Longrightarrow> level c = room c"
    and send_ok: "ok c \<Longrightarrow> send c = Some d \<Longrightarrow> ok d"
    and recv_Some: "recv c = Some d \<Longrightarrow> level c = Suc (level d) \<and> room d = room c"
    and recv_None: "recv c = None \<Longrightarrow> level c = 0"
    and recv_ok: "ok c \<Longrightarrow> recv c = Some d \<Longrightarrow> ok d"
begin

text \<open>A non-blocking attempt: the buffer afterwards, and whether the attempt succeeded.\<close>

fun attempt_op :: "buffer_op \<Rightarrow> 'c \<Rightarrow> 'c \<times> bool" where
  "attempt_op Put c = (case send c of None \<Rightarrow> (c, False) | Some d \<Rightarrow> (d, True))"
| "attempt_op Get c = (case recv c of None \<Rightarrow> (c, False) | Some d \<Rightarrow> (d, True))"

text \<open>A history of attempts: the buffer afterwards, the successful puts and the successful gets.\<close>

fun history :: "buffer_op list \<Rightarrow> 'c \<Rightarrow> 'c \<times> nat \<times> nat" where
  "history [] c = (c, 0, 0)"
| "history (p # ps) c =
     (case attempt_op p c of (d, good) \<Rightarrow>
        case history ps d of (e, puts, gets) \<Rightarrow>
          (e, (if good \<and> p = Put then Suc puts else puts), (if good \<and> p = Get then Suc gets else gets)))"

lemma attempt_op_level:
  "attempt_op p c = (d, good) \<Longrightarrow>
     level d + (if good \<and> p = Get then 1 else 0) = level c + (if good \<and> p = Put then 1 else 0) \<and> room d = room c"
  by (cases p) (auto split: option.splits dest: send_Some recv_Some)

lemma attempt_op_ok: "ok c \<Longrightarrow> attempt_op p c = (d, good) \<Longrightarrow> ok d"
  by (cases p) (auto split: option.splits dest: send_ok recv_ok)

text \<open>Nothing is lost or made up: what is in the buffer is what was there, plus puts, minus gets.\<close>

lemma history_balance:
  "history ps c = (d, puts, gets) \<Longrightarrow> level d + gets = level c + puts \<and> room d = room c"
proof (induction ps arbitrary: c d puts gets)
  case Nil
  then show ?case by simp
next
  case (Cons p ps)
  obtain e good where e: "attempt_op p c = (e, good)" by fastforce
  obtain f puts' gets' where f: "history ps e = (f, puts', gets')" by (metis prod_cases3)
  show ?case
    using Cons.prems Cons.IH [OF f] attempt_op_level [OF e] e f
    by (cases p) (auto split: if_splits)
qed

lemma history_puts: "history ps c = (d, puts, gets) \<Longrightarrow> puts \<le> length (filter ((=) Put) ps)"
proof (induction ps arbitrary: c d puts gets)
  case Nil
  then show ?case by simp
next
  case (Cons p ps)
  obtain e good where e: "attempt_op p c = (e, good)" by fastforce
  obtain f puts' gets' where f: "history ps e = (f, puts', gets')" by (metis prod_cases3)
  show ?case
    using Cons.prems Cons.IH [OF f] e f by (cases p) (auto split: if_splits)
qed

text \<open>So no history takes out more than was there plus what was offered.\<close>

lemma history_gets_bound:
  "history ps c = (d, puts, gets) \<Longrightarrow> gets \<le> level c + length (filter ((=) Put) ps)"
  using history_balance [of ps c d puts gets] history_puts [of ps c d puts gets] by simp

lemma history_ok: "ok c \<Longrightarrow> history ps c = (d, puts, gets) \<Longrightarrow> ok d"
proof (induction ps arbitrary: c d puts gets)
  case Nil
  then show ?case by simp
next
  case (Cons p ps)
  obtain e good where e: "attempt_op p c = (e, good)" by fastforce
  obtain f puts' gets' where f: "history ps e = (f, puts', gets')" by (metis prod_cases3)
  show ?case
    using Cons.prems Cons.IH [OF _ f] attempt_op_ok [OF _ e] e f by auto
qed

text \<open>Offering \<open>n\<close> elements fills the buffer up to its capacity and not beyond.\<close>

lemma offer_level:
  assumes "ok c"
  shows "level (((\<lambda>c. fst (attempt_op Put c)) ^^ n) c) = min (room c) (level c + n)
    \<and> room (((\<lambda>c. fst (attempt_op Put c)) ^^ n) c) = room c
    \<and> ok (((\<lambda>c. fst (attempt_op Put c)) ^^ n) c)"
proof (induction n)
  case 0
  then show ?case using assms ok_level by simp
next
  case (Suc n)
  let ?d = "((\<lambda>c. fst (attempt_op Put c)) ^^ n) c"
  show ?case
    using Suc send_Some [of ?d] send_None [of ?d] send_ok [of ?d]
    by (cases "send ?d") auto
qed

end

section \<open>Channels implement it\<close>

interpretation ch: bounded_buffer try_send try_recv ch_len ch_cap chan_ok
  by unfold_locales (auto simp: try_send_def try_recv_def chan_ok_def split: if_splits)

lemma chan_ok_make [simp]: "chan_ok (make_chan n)"
  by (simp add: chan_ok_def make_chan_def)

lemma make_chan_simps [simp]: "ch_len (make_chan n) = 0" "ch_cap (make_chan n) = n"
  by (simp_all add: make_chan_def)

end
