(* ===== verification/Breaker_Core.thy ===== *)
theory Breaker_Core
  imports Breaker_State Metrics Channels
begin

text \<open>
  The breaker itself: the fields of \<open>circuitBreaker\<close>, its constructors and options, the set-up of
  the token bucket and the wait between attempts (circuitbreaker.go, options.go). A nil channel or
  pointer is \<open>None\<close>; \<open>tokenStop\<close> is \<open>Some True\<close> once closed; \<open>refilling\<close> says that the goroutine
  counted by \<open>tokenWaitGroup\<close> is running; \<open>stopOnce\<close> that \<open>Stop\<close> has run its closure.
\<close>

section \<open>Data\<close>

text \<open>What a retry policy of the caller does with an error: it answers or it panics.\<close>

datatype policy_verdict = Verdict bool | PolicyPanic string

record expBackoffConfig =
  eb_base :: duration
  eb_max :: duration
  eb_jitter :: bool

record circuitBreaker =
  Name :: string
  MaxConcurrent :: int
  MaxRetries :: int
  sem :: "chan option"
  tokens :: "chan option"
  tokenInterval :: duration
  tokensPerTick :: int
  tokenStop :: "bool option"
  backoff :: duration
  state :: "breakerState option"
  statusFailMin :: int
  retryPolicy :: "(go_error \<Rightarrow> policy_verdict) option"
  expBackoff :: "expBackoffConfig option"
  defaultTimeout :: duration
  maxRequests :: int
  windowSeconds :: int
  burst :: int
  retryAfterMax :: duration
  retryAfterUntil :: int
  refilling :: bool
  stopOnce :: bool
  metrics :: metrics_map

definition minTokenInterval :: duration where "minTokenInterval = millisecond"
definition clampedTick :: duration where "clampedTick = 25 * millisecond"
definition maxBucketCapacity :: int where "maxBucketCapacity = 1000000"

section \<open>Construction\<close>

definition newCircuitBreaker :: "string \<Rightarrow> int \<Rightarrow> int \<Rightarrow> int \<Rightarrow> int \<Rightarrow> circuitBreaker" where
  "newCircuitBreaker name max_concurrent max_requests window_seconds max_retries =
     \<lparr>Name = name, MaxConcurrent = max_concurrent, MaxRetries = max_retries,
      sem = (if 0 < max_concurrent then Some (make_chan (nat max_concurrent)) else None),
      tokens = None, tokenInterval = 0, tokensPerTick = 0, tokenStop = None,
      backoff = 500 * millisecond, state = None, statusFailMin = 0, retryPolicy = None,
      expBackoff = None, defaultTimeout = 0, maxRequests = max_requests,
      windowSeconds = window_seconds, burst = 0, retryAfterMax = 0, retryAfterUntil = 0,
      refilling = False, stopOnce = False, metrics = []\<rparr>"

text \<open>
  One tick of the refiller: up to \<open>n\<close> sends, leaving the loop at the first one the full bucket
  refuses. The pre-fill sends into the empty bucket until it holds its capacity.
\<close>

fun refill :: "nat \<Rightarrow> chan \<Rightarrow> chan" where
  "refill 0 c = c"
| "refill (Suc n) c = (case try_send c of None \<Rightarrow> c | Some d \<Rightarrow> refill n d)"

definition startTokenBucket :: "circuitBreaker \<Rightarrow> circuitBreaker" where
  "startTokenBucket cb =
     (if tokens cb = None \<or> tokenStop cb = None \<or> tokenInterval cb \<le> 0 then cb
      else cb\<lparr>refilling := True\<rparr>)"

definition bucket_capacity :: "circuitBreaker \<Rightarrow> int" where
  "bucket_capacity cb =
     (let capacity = (if 0 < burst cb then burst cb else maxRequests cb)
      in if maxBucketCapacity < capacity then maxBucketCapacity else capacity)"

definition initTokenBucket :: "circuitBreaker \<Rightarrow> circuitBreaker" where
  "initTokenBucket cb =
     (if maxRequests cb \<le> 0 \<or> windowSeconds cb \<le> 0 then cb
      else
        let capacity = bucket_capacity cb;
            interval = wrap64 (windowSeconds cb * second) sdiv maxRequests cb;
            perSecond = fdiv (float_of_int (maxRequests cb)) (float_of_int (windowSeconds cb));
            batch = math_Round (fmul perSecond (Seconds clampedTick));
            batch = (if batch < 1 then 1 else batch);
            batch = (if capacity < batch then capacity else batch)
        in startTokenBucket
             (cb\<lparr>tokens := Some (refill (nat capacity) (make_chan (nat capacity))),
                 tokensPerTick := (if interval < minTokenInterval then batch else 1),
                 tokenInterval := (if interval < minTokenInterval then clampedTick else interval),
                 tokenStop := Some False\<rparr>))"

definition NewCircuitBreaker :: "string \<Rightarrow> int \<Rightarrow> int \<Rightarrow> int \<Rightarrow> int \<Rightarrow> circuitBreaker" where
  "NewCircuitBreaker name max_concurrent max_requests window_seconds max_retries =
     initTokenBucket (newCircuitBreaker name max_concurrent max_requests window_seconds max_retries)"

section \<open>Options\<close>

text \<open>An option is a function on the breaker; \<open>None\<close> is an explicit nil, which is skipped.\<close>

type_synonym go_option = "(circuitBreaker \<Rightarrow> circuitBreaker) option"

definition WithBreaker :: "int \<Rightarrow> duration \<Rightarrow> int \<Rightarrow> circuitBreaker \<Rightarrow> circuitBreaker" where
  "WithBreaker fails open_for half_open_probes cb =
     cb\<lparr>state := Some (newBreakerState fails open_for half_open_probes)\<rparr>"

definition WithStatusCodeFailure :: "int \<Rightarrow> circuitBreaker \<Rightarrow> circuitBreaker" where
  "WithStatusCodeFailure min_code cb = cb\<lparr>statusFailMin := min_code\<rparr>"

definition WithRetryPolicy :: "(go_error \<Rightarrow> policy_verdict) option \<Rightarrow> circuitBreaker \<Rightarrow> circuitBreaker" where
  "WithRetryPolicy policy cb = cb\<lparr>retryPolicy := policy\<rparr>"

definition WithExponentialBackoff :: "duration \<Rightarrow> duration \<Rightarrow> bool \<Rightarrow> circuitBreaker \<Rightarrow> circuitBreaker" where
  "WithExponentialBackoff base max_wait jitter cb =
     (let base = (if base \<le> 0 then 100 * millisecond else base);
          max_wait = (if max_wait < base then base else max_wait)
      in cb\<lparr>expBackoff := Some \<lparr>eb_base = base, eb_max = max_wait, eb_jitter = jitter\<rparr>\<rparr>)"

definition WithBurst :: "int \<Rightarrow> circuitBreaker \<Rightarrow> circuitBreaker" where
  "WithBurst n cb = cb\<lparr>burst := (if n < 1 then 1 else n)\<rparr>"

definition WithRetryAfter :: "duration \<Rightarrow> circuitBreaker \<Rightarrow> circuitBreaker" where
  "WithRetryAfter max_wait cb = cb\<lparr>retryAfterMax := (if max_wait \<le> 0 then 5 * minute else max_wait)\<rparr>"

definition WithDefaultTimeout :: "duration \<Rightarrow> circuitBreaker \<Rightarrow> circuitBreaker" where
  "WithDefaultTimeout d cb = cb\<lparr>defaultTimeout := d\<rparr>"

fun apply_options :: "go_option list \<Rightarrow> circuitBreaker \<Rightarrow> circuitBreaker" where
  "apply_options [] cb = cb"
| "apply_options (opt # opts) cb =
     apply_options opts (case opt of None \<Rightarrow> cb | Some f \<Rightarrow> f cb)"

definition NewCircuitBreakerWithOptions ::
    "string \<Rightarrow> int \<Rightarrow> int \<Rightarrow> int \<Rightarrow> int \<Rightarrow> go_option list \<Rightarrow> circuitBreaker" where
  "NewCircuitBreakerWithOptions name max_concurrent max_requests window_seconds max_retries opts =
     initTokenBucket (apply_options opts
       (newCircuitBreaker name max_concurrent max_requests window_seconds max_retries))"

section \<open>Waiting between attempts\<close>

text \<open>
  \<open>backoffFor\<close>: the loop doubles in 64 bits. \<open>rand_N n\<close> is the draw of \<open>rand.N(n)\<close>, for positive
  \<open>n\<close> a number from 0 to \<open>n - 1\<close>.
\<close>

function double_up :: "int \<Rightarrow> int \<Rightarrow> duration \<Rightarrow> duration \<Rightarrow> duration" where
  "double_up i attempt limit d =
     (if i < attempt \<and> d < limit then double_up (i + 1) attempt limit (wrap64 (d * 2)) else d)"
  by pat_completeness auto
termination
  by (relation "measure (\<lambda>(i, attempt, limit, d). nat (attempt - i))") auto

declare double_up.simps [simp del]

definition clamp_wait :: "duration \<Rightarrow> duration \<Rightarrow> duration" where
  "clamp_wait limit d = (if d \<le> 0 \<or> limit < d then limit else d)"

definition backoffFor :: "(int \<Rightarrow> int) \<Rightarrow> circuitBreaker \<Rightarrow> int \<Rightarrow> duration" where
  "backoffFor rand_N cb attempt =
     (case expBackoff cb of
        None \<Rightarrow> backoff cb
      | Some eb \<Rightarrow>
          let d = clamp_wait (eb_max eb) (double_up 0 attempt (eb_max eb) (eb_base eb))
          in if eb_jitter eb \<and> 1 < d then d sdiv 2 + rand_N (d sdiv 2) else d)"

section \<open>Stopping\<close>

text \<open>
  The effect of \<open>Stop\<close> before it waits for the refiller: the channel is closed once. Without rate
  limit it returns at once.
\<close>

definition Stop :: "circuitBreaker \<Rightarrow> circuitBreaker" where
  "Stop cb =
     (case tokenStop cb of
        None \<Rightarrow> cb
      | Some _ \<Rightarrow> if stopOnce cb then cb else cb\<lparr>stopOnce := True, tokenStop := Some True\<rparr>)"

text \<open>Its end: \<open>tokenWaitGroup.Wait()\<close> returns when the refiller has left.\<close>

definition Stop_returns :: "circuitBreaker \<Rightarrow> bool" where
  "Stop_returns cb \<longleftrightarrow> tokenStop cb = None \<or> \<not> refilling cb"

section \<open>The bucket as set up\<close>

lemma refill_iterates: "refill n c = ((\<lambda>c. fst (ch.attempt_op Put c)) ^^ n) c"
proof (induction n arbitrary: c)
  case 0
  then show ?case by simp
next
  case (Suc n)
  show ?case
  proof (cases "try_send c")
    case None
    then have "((\<lambda>c. fst (ch.attempt_op Put c)) ^^ k) c = c" for k
      by (induction k) simp_all
    with None show ?thesis by simp
  next
    case (Some d)
    with Suc show ?thesis by (simp add: funpow_Suc_right del: funpow.simps)
  qed
qed

text \<open>A tick adds what fits.\<close>

lemma refill_level:
  assumes "chan_ok c"
  shows "ch_len (refill n c) = min (ch_cap c) (ch_len c + n)"
    and "ch_cap (refill n c) = ch_cap c" and "chan_ok (refill n c)"
  using ch.offer_level [OF assms, of n] by (simp_all add: refill_iterates)

lemma bucket_capacity_bounds:
  "0 < maxRequests cb \<Longrightarrow> 1 \<le> bucket_capacity cb \<and> bucket_capacity cb \<le> maxBucketCapacity"
  by (auto simp: bucket_capacity_def maxBucketCapacity_def Let_def)

lemma initTokenBucket_frame [frame_simps]:
  "MaxRetries (initTokenBucket cb) = MaxRetries cb"
  "MaxConcurrent (initTokenBucket cb) = MaxConcurrent cb"
  "sem (initTokenBucket cb) = sem cb"
  "state (initTokenBucket cb) = state cb"
  "metrics (initTokenBucket cb) = metrics cb"
  "retryAfterMax (initTokenBucket cb) = retryAfterMax cb"
  "retryAfterUntil (initTokenBucket cb) = retryAfterUntil cb"
  "statusFailMin (initTokenBucket cb) = statusFailMin cb"
  "retryPolicy (initTokenBucket cb) = retryPolicy cb"
  "expBackoff (initTokenBucket cb) = expBackoff cb"
  "backoff (initTokenBucket cb) = backoff cb"
  "defaultTimeout (initTokenBucket cb) = defaultTimeout cb"
  "stopOnce (initTokenBucket cb) = stopOnce cb"
  by (simp_all add: initTokenBucket_def startTokenBucket_def Let_def)

lemma initTokenBucket_off:
  "maxRequests cb \<le> 0 \<or> windowSeconds cb \<le> 0 \<Longrightarrow> initTokenBucket cb = cb"
  by (simp add: initTokenBucket_def)

lemma initTokenBucket_on:
  assumes "0 < maxRequests cb" and "0 < windowSeconds cb"
  shows "tokens (initTokenBucket cb) =
      Some \<lparr>ch_len = nat (bucket_capacity cb), ch_cap = nat (bucket_capacity cb)\<rparr>"
    and "1 \<le> tokensPerTick (initTokenBucket cb)"
    and "tokensPerTick (initTokenBucket cb) \<le> bucket_capacity cb"
    and "minTokenInterval \<le> tokenInterval (initTokenBucket cb)"
    and "tokenStop (initTokenBucket cb) = Some False"
    and "refilling (initTokenBucket cb)"
proof -
  let ?c = "nat (bucket_capacity cb)"
  have "ch_len (refill ?c (make_chan ?c)) = ?c" "ch_cap (refill ?c (make_chan ?c)) = ?c"
    using refill_level [of "make_chan ?c" ?c] by simp_all
  then have full: "refill ?c (make_chan ?c) = \<lparr>ch_len = ?c, ch_cap = ?c\<rparr>"
    by (cases "refill ?c (make_chan ?c)") simp
  have cap: "1 \<le> bucket_capacity cb"
    using bucket_capacity_bounds [OF assms(1)] by simp
  show "tokens (initTokenBucket cb) = Some \<lparr>ch_len = ?c, ch_cap = ?c\<rparr>"
    using assms full by (simp add: initTokenBucket_def startTokenBucket_def Let_def)
  show "1 \<le> tokensPerTick (initTokenBucket cb)"
    and "tokensPerTick (initTokenBucket cb) \<le> bucket_capacity cb"
    using assms cap by (auto simp: initTokenBucket_def startTokenBucket_def Let_def)
  show "minTokenInterval \<le> tokenInterval (initTokenBucket cb)"
    and "tokenStop (initTokenBucket cb) = Some False" and "refilling (initTokenBucket cb)"
    using assms by (auto simp: initTokenBucket_def startTokenBucket_def Let_def minTokenInterval_def clampedTick_def)
qed

section \<open>Doubling without overflow\<close>

text \<open>With a limit of at most \<open>2 ^ 62\<close> no doubling below it leaves 64 bits.\<close>

lemma double_up_exact:
  assumes "0 < d" and "limit \<le> 2 ^ 62"
  shows "clamp_wait limit (double_up i attempt limit d) = min limit (d * 2 ^ nat (attempt - i))"
  using assms
proof (induction i attempt limit d rule: double_up.induct)
  case (1 i attempt limit d)
  show ?case
  proof (cases "i < attempt \<and> d < limit")
    case True
    then have "wrap64 (d * 2) = d * 2"
      using "1.prems" by (intro wrap64_in_range) auto
    moreover have "nat (attempt - i) = Suc (nat (attempt - (i + 1)))"
      using True by arith
    ultimately show ?thesis
      using "1.IH" [OF True] "1.prems" True by (simp add: double_up.simps [of i] mult.assoc)
  next
    case False
    then consider "attempt \<le> i" | "limit \<le> d" by linarith
    then show ?thesis
    proof cases
      case 1
      then show ?thesis using "1.prems" by (simp add: double_up.simps [of i] clamp_wait_def min_def)
    next
      case 2
      have "d * 1 \<le> d * 2 ^ nat (attempt - i)"
        using "1.prems" by (intro mult_left_mono) auto
      with 2 have "min limit (d * 2 ^ nat (attempt - i)) = limit" by simp
      with 2 show ?thesis using "1.prems" by (simp add: double_up.simps [of i] clamp_wait_def)
    qed
  qed
qed

section \<open>Properties\<close>

text \<open>With a positive rate and window the bucket is born full, its capacity is the burst (or the
  rate) clamped to one million, each tick restores between one token and the capacity, the ticks
  are at least a millisecond apart and the refiller runs, for all values of the parameters;
  otherwise there is no bucket and nothing changes.\<close>

theorem initTokenBucket_bounds:
  "if 0 < maxRequests cb \<and> 0 < windowSeconds cb
   then tokens (initTokenBucket cb) = Some \<lparr>ch_len = nat (bucket_capacity cb), ch_cap = nat (bucket_capacity cb)\<rparr> \<and>
     1 \<le> bucket_capacity cb \<and> bucket_capacity cb \<le> maxBucketCapacity \<and>
     1 \<le> tokensPerTick (initTokenBucket cb) \<and> tokensPerTick (initTokenBucket cb) \<le> bucket_capacity cb \<and>
     minTokenInterval \<le> tokenInterval (initTokenBucket cb) \<and>
     tokenStop (initTokenBucket cb) = Some False \<and> refilling (initTokenBucket cb)
   else initTokenBucket cb = cb"
  using initTokenBucket_on [of cb] initTokenBucket_off [of cb] bucket_capacity_bounds [of cb] by auto

text \<open>C31: With exponential backoff and no jitter, the wait before attempt \<open>n + 1\<close> is exactly
  \<open>min(max, base * 2 ^ n)\<close>, for every attempt number, when the limit is at most \<open>2 ^ 62\<close> nanoseconds;
  with jitter it lies in the upper half of that interval. Without the option it is the fixed
  backoff.\<close>

theorem backoffFor_exact:
  assumes "limit \<le> 2 ^ 62" and "0 < base" and "base \<le> limit"
    and "\<forall>n > 0. 0 \<le> rand_N n \<and> rand_N n < n"
  shows "backoffFor rand_N (WithExponentialBackoff base limit False cb) attempt = min limit (base * 2 ^ nat attempt) \<and>
    min limit (base * 2 ^ nat attempt) div 2 \<le> backoffFor rand_N (WithExponentialBackoff base limit True cb) attempt \<and>
    backoffFor rand_N (WithExponentialBackoff base limit True cb) attempt \<le> min limit (base * 2 ^ nat attempt) \<and>
    (expBackoff cb = None \<longrightarrow> backoffFor rand_N cb attempt = backoff cb)"
proof -
  define d where "d = min limit (base * 2 ^ nat attempt)"
  have "0 < d" using assms by (simp add: d_def)
  have eval: "backoffFor rand_N (WithExponentialBackoff base limit j cb) attempt =
      (if j \<and> 1 < d then d sdiv 2 + rand_N (d sdiv 2) else d)" for j
    using double_up_exact [OF assms(2,1), of 0 attempt] assms(2,3)
    by (simp add: backoffFor_def WithExponentialBackoff_def Let_def d_def)
  have half: "d sdiv 2 = d div 2"
    using \<open>0 < d\<close> by (simp add: signed_divide_int_def)
  have "0 \<le> rand_N (d div 2) \<and> rand_N (d div 2) < d div 2" if "1 < d"
    using assms(4) that by auto
  then show ?thesis
    unfolding d_def [symmetric] eval half using \<open>0 < d\<close>
    by (auto simp: backoffFor_def)
qed

theorem backoffFor_exact_witness:
  "backoffFor (\<lambda>n. 0) (WithExponentialBackoff 10 80 False (newCircuitBreaker ''x'' 0 0 0 5)) 2 = 40 \<and>
   backoffFor (\<lambda>n. 0) (WithExponentialBackoff 10 80 False (newCircuitBreaker ''x'' 0 0 0 5)) 9 = 80"
  using backoffFor_exact [of 80 10 "\<lambda>n. 0" "newCircuitBreaker ''x'' 0 0 0 5" 2]
    backoffFor_exact [of 80 10 "\<lambda>n. 0" "newCircuitBreaker ''x'' 0 0 0 5" 9] by simp

text \<open>Above that limit the clamp can be escaped: with a base of \<open>2 ^ 62 + 1\<close> nanoseconds and the
  largest limit, the second doubling wraps around to 4 nanoseconds, which is positive and below
  the limit, and is returned.\<close>

theorem backoffFor_wraps:
  "backoffFor rand_N (WithExponentialBackoff (2 ^ 62 + 1) max_int64 False cb) 2 = 4"
  by (simp add: backoffFor_def WithExponentialBackoff_def Let_def double_up.simps clamp_wait_def wrap64_def)

text \<open>
  The window in nanoseconds is computed in 64 bits: from 9223372037 seconds on (some 292 years) it wraps
  around to a negative interval, which is clamped, so one request per window becomes one for each
  25 milliseconds.
\<close>

theorem window_wraps:
  "tokenInterval (initTokenBucket (newCircuitBreaker name max_concurrent 1 9223372037 max_retries)) = 25 * millisecond"
  by (simp add: initTokenBucket_def newCircuitBreaker_def startTokenBucket_def Let_def minTokenInterval_def clampedTick_def
      wrap64_def signed_divide_int_def)

end
