(* ===== verification/Token_Bucket.thy ===== *)
theory Token_Bucket
  imports Breaker_Core
begin

text \<open>
  The rate limiter of circuitbreaker.go at work: a tick of the refiller, the wait for a token, and
  what the two together guarantee about the number of calls let through. A wait is split where the
  goroutine can block: the part before the \<open>select\<close>, and one arm of the \<open>select\<close>.
\<close>

section \<open>Waiting\<close>

text \<open>The outcome of a wait: through (with the breaker after it), an error, or still blocked.\<close>

datatype wait_result = Pass circuitBreaker | Fail go_error | Block

text \<open>The arms of the \<open>select\<close> statements of the breaker.\<close>

datatype select_arm = ArmCtx | ArmStop | ArmToken | ArmTimer | ArmSlot

definition tick :: "circuitBreaker \<Rightarrow> circuitBreaker" where
  "tick cb = cb\<lparr>tokens := map_option (refill (nat (tokensPerTick cb))) (tokens cb)\<rparr>"

text \<open>
  The same send by send, for the system where other goroutines come in between: one round of the
  loop with \<open>n\<close> rounds to go; a full bucket leaves the loop.
\<close>

definition refill_one :: "nat \<Rightarrow> circuitBreaker \<Rightarrow> (nat \<times> circuitBreaker) option" where
  "refill_one n cb =
     (case (n, tokens cb) of
        (Suc k, Some ch) \<Rightarrow>
          Some (case try_send ch of
                  None \<Rightarrow> (0, cb)
                | Some d \<Rightarrow> (k, cb\<lparr>tokens := Some d\<rparr>))
      | _ \<Rightarrow> None)"

lemma refill_one_cases:
  assumes "refill_one n cb = Some (m, cb')"
  obtains (full) k ch where "n = Suc k" "tokens cb = Some ch" "try_send ch = None" "m = 0" "cb' = cb"
    | (sent) ch d where "n = Suc m" "tokens cb = Some ch" "try_send ch = Some d" "cb' = cb\<lparr>tokens := Some d\<rparr>"
  using assms by (auto simp: refill_one_def split: nat.splits option.splits)

lemma refill_one_frame:
  assumes "refill_one n cb = Some (m, cb')"
  shows "cb' = cb\<lparr>tokens := tokens cb'\<rparr> \<and> (tokens cb' = None) = (tokens cb = None)"
  using assms by (cases rule: refill_one_cases) simp_all

text \<open>\<open>waitForToken\<close> up to its second \<open>select\<close>: no bucket, a context already done, the fast path.\<close>

definition waitForToken :: "go_context \<Rightarrow> circuitBreaker \<Rightarrow> wait_result" where
  "waitForToken ctx cb =
     (case tokens cb of
        None \<Rightarrow> Pass cb
      | Some c \<Rightarrow>
          (case ctx_err ctx of
             Some e \<Rightarrow> Fail e
           | None \<Rightarrow>
               (case try_recv c of
                  Some d \<Rightarrow> Pass (cb\<lparr>tokens := Some d\<rparr>)
                | None \<Rightarrow> Block)))"

text \<open>The second \<open>select\<close>, through the given arm; \<open>Block\<close> when that arm is not ready.\<close>

definition waitForToken_select :: "select_arm \<Rightarrow> go_context \<Rightarrow> circuitBreaker \<Rightarrow> wait_result" where
  "waitForToken_select arm ctx cb =
     (case arm of
        ArmCtx \<Rightarrow> (case ctx_err ctx of Some e \<Rightarrow> Fail e | None \<Rightarrow> Block)
      | ArmStop \<Rightarrow> if tokenStop cb = Some True then Fail ErrStopped else Block
      | ArmToken \<Rightarrow>
          (case tokens cb of
             None \<Rightarrow> Block
           | Some c \<Rightarrow> (case try_recv c of Some d \<Rightarrow> Pass (cb\<lparr>tokens := Some d\<rparr>) | None \<Rightarrow> Block))
      | _ \<Rightarrow> Block)"

section \<open>Histories of the bucket\<close>

text \<open>
  What happens to the bucket: a tick, or a call with a live context that asks for a token. The run
  gives the breaker afterwards and the number of tokens granted.
\<close>

datatype bucket_event = Tick | Take

fun bucket_run :: "bucket_event list \<Rightarrow> circuitBreaker \<Rightarrow> circuitBreaker \<times> nat" where
  "bucket_run [] cb = (cb, 0)"
| "bucket_run (Tick # evs) cb = bucket_run evs (tick cb)"
| "bucket_run (Take # evs) cb =
     (case waitForToken background cb of
        Pass cb' \<Rightarrow> (case bucket_run evs cb' of (cb'', n) \<Rightarrow> (cb'', Suc n))
      | _ \<Rightarrow> bucket_run evs cb)"

definition ticks :: "bucket_event list \<Rightarrow> nat" where
  "ticks evs = length (filter ((=) Tick) evs)"

lemma ticks_simps [simp]:
  "ticks [] = 0" "ticks (Tick # evs) = Suc (ticks evs)" "ticks (Take # evs) = ticks evs"
  by (simp_all add: ticks_def)

lemma tick_tokens:
  "tokens cb = Some c \<Longrightarrow> chan_ok c \<Longrightarrow>
   \<exists>d. tokens (tick cb) = Some d \<and> chan_ok d \<and> ch_cap d = ch_cap c \<and>
     ch_len d = min (ch_cap c) (ch_len c + nat (tokensPerTick cb))"
  using refill_level [of c "nat (tokensPerTick cb)"] by (simp add: tick_def)

lemma tick_frame [frame_simps]:
  "tokensPerTick (tick cb) = tokensPerTick cb" "tokenStop (tick cb) = tokenStop cb"
  "tokenInterval (tick cb) = tokenInterval cb"
  by (simp_all add: tick_def)

lemma take_cases:
  assumes "tokens cb = Some c" and "chan_ok c"
  obtains (granted) d where "waitForToken background cb = Pass (cb\<lparr>tokens := Some d\<rparr>)" "chan_ok d"
      "ch_cap d = ch_cap c" "ch_len c = Suc (ch_len d)"
    | (blocked) "waitForToken background cb = Block" "ch_len c = 0"
proof (cases "try_recv c")
  case None
  then have "waitForToken background cb = Block"
    using assms(1) by (simp add: waitForToken_def background_def)
  with ch.recv_None [OF None] show ?thesis using blocked by blast
next
  case (Some d)
  then have "waitForToken background cb = Pass (cb\<lparr>tokens := Some d\<rparr>)"
    using assms(1) by (simp add: waitForToken_def background_def)
  with ch.recv_Some [OF Some] ch.recv_ok [OF assms(2) Some] show ?thesis using granted by blast
qed

text \<open>No history grants more than the tokens it starts with and those the ticks restore.\<close>

lemma bucket_run_bound:
  "tokens cb = Some c \<Longrightarrow> chan_ok c \<Longrightarrow>
   \<exists>d. tokens (fst (bucket_run evs cb)) = Some d \<and> chan_ok d \<and> ch_cap d = ch_cap c \<and>
     snd (bucket_run evs cb) + ch_len d \<le> ch_len c + nat (tokensPerTick cb) * ticks evs"
proof (induction evs cb arbitrary: c rule: bucket_run.induct)
  case (1 cb)
  then show ?case by simp
next
  case (2 evs cb)
  obtain d where d: "tokens (tick cb) = Some d" "chan_ok d" "ch_cap d = ch_cap c"
    "ch_len d = min (ch_cap c) (ch_len c + nat (tokensPerTick cb))"
    using tick_tokens 2 by blast
  from "2.IH" [OF d(1,2)] d(3,4) show ?case by (auto simp: frame_simps)
next
  case (3 evs cb)
  show ?case
  proof (cases rule: take_cases [OF "3.prems"])
    case (1 d)
    from "3.IH"(1) [OF 1(1) _ 1(2)] 1 show ?thesis by (auto split: prod.splits)
  next
    case 2
    from "3.IH"(2,3) 2 "3.prems" show ?thesis by auto
  qed
qed

section \<open>Ticks in a window of time\<close>

text \<open>Instants at least \<open>d\<close> apart.\<close>

definition spaced :: "int \<Rightarrow> gotime list \<Rightarrow> bool" where
  "spaced d ts \<longleftrightarrow> successively (\<lambda>a b. a + d \<le> b) ts"

lemma spaced_length:
  "spaced d (t # ts) \<Longrightarrow> t + d * int (length ts) \<le> last (t # ts)"
proof (induction ts arbitrary: t)
  case Nil
  then show ?case by simp
next
  case (Cons u ts)
  then have "u + d * int (length ts) \<le> last (u # ts)" "t + d \<le> u"
    by (auto simp: spaced_def)
  then show ?case by (simp add: algebra_simps)
qed

text \<open>A half-open window of length \<open>w\<close> holds at most \<open>\<lceil>w / d\<rceil>\<close> instants at least \<open>d\<close> apart.\<close>

lemma spaced_in_window:
  assumes "spaced d ts" and "0 < d" and "0 < w" and "\<forall>t \<in> set ts. since \<le> t \<and> t < since + w"
  shows "int (length ts) \<le> (w + d - 1) div d"
proof (cases ts)
  case Nil
  then show ?thesis using assms by (simp add: pos_imp_zdiv_nonneg_iff)
next
  case (Cons t us)
  have "t + d * int (length us) \<le> last ts"
    using spaced_length assms(1) Cons by simp
  moreover have "last ts < since + w" "since \<le> t"
    using assms(4) Cons by auto
  ultimately have "d * int (length us) < w" by linarith
  then have "d * int (length ts) \<le> w + d - 1"
    using Cons by (simp add: algebra_simps)
  then have "d * int (length ts) div d \<le> (w + d - 1) div d"
    using assms(2) by (intro zdiv_mono1)
  then show ?thesis using assms(2) by simp
qed

text \<open>A timed history: each event with its instant; the ticks keep their distance.\<close>

definition tick_times :: "(gotime \<times> bucket_event) list \<Rightarrow> gotime list" where
  "tick_times evs = map fst (filter (\<lambda>(t, e). e = Tick) evs)"

definition timed_history :: "duration \<Rightarrow> (gotime \<times> bucket_event) list \<Rightarrow> bool" where
  "timed_history interval evs \<longleftrightarrow> sorted (map fst evs) \<and> spaced interval (tick_times evs)"

definition in_window :: "gotime \<Rightarrow> duration \<Rightarrow> (gotime \<times> bucket_event) list \<Rightarrow> bool" where
  "in_window since w evs \<longleftrightarrow> (\<forall>(t, e) \<in> set evs. since \<le> t \<and> t < since + w)"

lemma ticks_times: "ticks (map snd evs) = length (tick_times evs)"
  by (induction evs) (auto simp: ticks_def tick_times_def)

lemma ticks_in_window:
  assumes "timed_history d evs" and "in_window since w evs" and "0 < d" and "0 < w"
  shows "int (ticks (map snd evs)) \<le> (w + d - 1) div d"
  unfolding ticks_times
  by (rule spaced_in_window) (use assms in \<open>auto simp: timed_history_def in_window_def tick_times_def\<close>)


section \<open>The rate of a thickened tick\<close>

text \<open>
  Six roundings separate the batch from the exact \<open>maxRequests / windowSeconds / 40\<close>; together
  they stay within one per cent.
\<close>

lemma per_mille_bounds: "per_mille f \<Longrightarrow> 999 / 1000 \<le> f \<and> f \<le> 1001 / 1000 \<and> 0 < f"
  by (simp add: per_mille_def)

lemma mult_between:
  fixes a b x y :: rat
  shows "0 \<le> a \<Longrightarrow> 0 \<le> b \<Longrightarrow> a \<le> x \<Longrightarrow> x \<le> c \<Longrightarrow> b \<le> y \<Longrightarrow> y \<le> d \<Longrightarrow> a * b \<le> x * y \<and> x * y \<le> c * d"
  by (intro conjI mult_mono) auto

lemma clampedTick_seconds:
  obtains f where "Seconds clampedTick = 1 / 40 * f" and "998 / 1000 \<le> f" and "f \<le> 10021 / 10000"
proof -
  obtain f where f: "fl64 (1 / 40) = 1 / 40 * f" "per_mille f"
    using fl64_per_mille [of "1 / 40"] by (auto simp: field_simps)
  have int: "fl64 25000000 = 25000000" using fl64_of_int [of 25000000] by simp
  have "Seconds clampedTick = fl64 (fl64 (1 / 40))"
    by (simp add: Seconds_def clampedTick_def fadd_def fdiv_def float_of_int_def int)
  moreover obtain g where g: "fl64 (1 / 40 * f) = 1 / 40 * f * g" "per_mille g"
    using fl64_per_mille [of "1 / 40 * f"] per_mille_bounds [OF f(2)] by (auto simp: field_simps)
  ultimately have "Seconds clampedTick = 1 / 40 * (f * g)"
    by (simp add: f(1))
  moreover have "998001 / 1000000 \<le> f * g \<and> f * g \<le> 1002001 / 1000000"
    using mult_between [of "999 / 1000" "999 / 1000" f "1001 / 1000" g "1001 / 1000"] f(2) g(2)
    by (simp add: per_mille_def)
  ultimately show ?thesis by (intro that [of "f * g"]) (auto elim: order_trans)
qed

lemma perSecond_rounds:
  assumes "0 < r" and "r \<le> max_int64" and "0 < w" and "w \<le> max_int64"
  obtains f where "fdiv (float_of_int r) (float_of_int w) = of_int r / of_int w * f"
    and "996 / 1000 \<le> f" and "f \<le> 1004 / 1000"
proof -
  have big: "1 / 2 ^ 100 \<le> (of_int r :: rat)" "1 / 2 ^ 100 \<le> (of_int w :: rat)"
    using assms by (auto intro: order_trans [of _ 1])
  obtain f where f: "fl64 (of_int r) = of_int r * f" "per_mille f" using fl64_per_mille [OF big(1)] by blast
  obtain g where g: "fl64 (of_int w) = of_int w * g" "per_mille g" using fl64_per_mille [OF big(2)] by blast
  note fg = per_mille_bounds [OF f(2)] per_mille_bounds [OF g(2)]
  have fg_lo: "998 / 1000 \<le> f / g" and fg_hi: "f / g \<le> 10021 / 10000"
    using fg by (simp_all add: pos_le_divide_eq pos_divide_le_eq)
  have q: "fl64 (of_int r) / fl64 (of_int w) = of_int r / of_int w * (f / g)"
    by (simp add: f g)
  have "(1 :: rat) / of_int max_int64 \<le> of_int r / of_int w"
  proof (rule frac_le)
    show "(1 :: rat) \<le> of_int r" "0 \<le> (of_int r :: rat)" "(0 :: rat) < of_int w" using assms by auto
    show "of_int w \<le> (of_int max_int64 :: rat)" using assms(4) by (subst of_int_le_iff)
  qed
  then have "(1 :: rat) / of_int max_int64 * (998 / 1000) \<le> of_int r / of_int w * (f / g)"
    using fg_lo assms by (intro mult_mono) auto
  moreover have "1 / 2 ^ 100 \<le> (1 :: rat) / of_int max_int64 * (998 / 1000)" by simp
  ultimately have "1 / 2 ^ 100 \<le> of_int r / of_int w * (f / g)" by (rule order_trans [rotated])
  then obtain h where h: "fl64 (of_int r / of_int w * (f / g)) = of_int r / of_int w * (f / g) * h" "per_mille h"
    using fl64_per_mille by blast
  have "996 / 1000 \<le> f / g * h \<and> f / g * h \<le> 1004 / 1000"
  proof -
    have "998 / 1000 * (999 / 1000) \<le> f / g * h \<and> f / g * h \<le> 10021 / 10000 * (1001 / 1000)"
      by (rule mult_between) (use fg_lo fg_hi h(2) in \<open>simp_all add: per_mille_def\<close>)
    then show ?thesis by linarith
  qed
  moreover have "fdiv (float_of_int r) (float_of_int w) = of_int r / of_int w * (f / g * h)"
    by (simp only: fdiv_def float_of_int_def q h(1) mult.assoc)
  ultimately show ?thesis using that by blast
qed


lemma batch_close:
  assumes "0 < r" and "r \<le> max_int64" and "0 < w" and "w \<le> max_int64" and "1000 * w < r"
  defines "x \<equiv> of_int r / of_int w / 40 :: rat"
  shows "\<bar>of_int (math_Round (fmul (fdiv (float_of_int r) (float_of_int w)) (Seconds clampedTick))) - x\<bar> \<le> x / 25"
    and "1 \<le> math_Round (fmul (fdiv (float_of_int r) (float_of_int w)) (Seconds clampedTick))"
proof -
  let ?q = "fmul (fdiv (float_of_int r) (float_of_int w)) (Seconds clampedTick)"
  have "(1000 :: rat) * of_int w < of_int r"
    using assms(5) by (metis of_int_less_iff of_int_mult of_int_numeral)
  then have x: "25 \<le> x"
    using assms(3) by (simp add: x_def pos_le_divide_eq)
  obtain f where f: "fdiv (float_of_int r) (float_of_int w) = of_int r / of_int w * f"
    "996 / 1000 \<le> f" "f \<le> 1004 / 1000"
    using perSecond_rounds [OF assms(1-4)] by blast
  obtain g where g: "Seconds clampedTick = 1 / 40 * g" "998 / 1000 \<le> g" "g \<le> 10021 / 10000"
    using clampedTick_seconds by blast
  have fg: "994 / 1000 \<le> f * g \<and> f * g \<le> 1007 / 1000"
    using mult_between [of "996 / 1000" "998 / 1000" f "1004 / 1000" g "10021 / 10000"] f g
    by (auto elim!: order_trans)
  have "25 * (994 / 1000) \<le> x * (f * g)"
    using x fg by (intro mult_mono) auto
  then obtain h where h: "fl64 (x * (f * g)) = x * (f * g) * h" "per_mille h"
    using fl64_per_mille [of "x * (f * g)"] by (auto elim: order_trans [rotated])
  have F: "99 / 100 \<le> f * g * h \<and> f * g * h \<le> 101 / 100"
    using mult_between [of "994 / 1000" "999 / 1000" "f * g" "1007 / 1000" h "1001 / 1000"] fg h(2)
    by (auto simp: per_mille_def elim!: order_trans)
  have q: "?q = x * (f * g * h)"
    using h(1) by (simp add: fmul_def f(1) g(1) x_def field_simps)
  have q_lo: "x * (99 / 100) \<le> ?q" and q_hi: "?q \<le> x * (101 / 100)"
    unfolding q using F x by (intro mult_left_mono; simp)+
  then have "\<bar>of_int (math_Round ?q) - ?q\<bar> \<le> 1 / 2"
    using x by (intro math_Round_close) linarith
  then have diff: "\<bar>of_int (math_Round ?q) - x\<bar> \<le> x / 25"
    using q_lo q_hi x by linarith
  then show "\<bar>of_int (math_Round ?q) - x\<bar> \<le> x / 25" .
  have "1 \<le> (of_int (math_Round ?q) :: rat)" using diff x by linarith
  then show "1 \<le> math_Round ?q" by simp
qed

section \<open>Properties\<close>

text \<open>Rate limit. Over any window of time in which the ticks keep their interval, the bucket lets
  through at most its capacity plus one batch for each tick the window can hold, \<open>\<lceil>w / interval\<rceil>\<close>,
  however the requests and the ticks are interleaved and whatever the bucket held.\<close>

theorem rate_limit_window:
  assumes "tokens cb = Some c" and "chan_ok c"
    and "timed_history (tokenInterval cb) evs" and "in_window since w evs"
    and "0 < tokenInterval cb" and "0 < w"
  shows "int (snd (bucket_run (map snd evs) cb)) \<le>
    int (ch_cap c) + int (nat (tokensPerTick cb)) * ((w + tokenInterval cb - 1) div tokenInterval cb)"
proof -
  obtain d :: chan where "snd (bucket_run (map snd evs) cb) + ch_len d \<le> ch_len c + nat (tokensPerTick cb) * ticks (map snd evs)"
    using bucket_run_bound [OF assms(1,2), of "map snd evs"] by blast
  then have "int (snd (bucket_run (map snd evs) cb)) \<le> int (ch_len c) + int (nat (tokensPerTick cb)) * int (ticks (map snd evs))"
    by (metis add_leD1 of_nat_add of_nat_mono of_nat_mult)
  moreover have "int (nat (tokensPerTick cb)) * int (ticks (map snd evs)) \<le>
      int (nat (tokensPerTick cb)) * ((w + tokenInterval cb - 1) div tokenInterval cb)"
    using ticks_in_window [OF assms(3,4,5,6)] by (intro mult_left_mono) auto
  moreover have "ch_len c \<le> ch_cap c" using assms(2) by (simp add: chan_ok_def)
  ultimately show ?thesis by linarith
qed

theorem rate_limit_window_witness:
  "int (snd (bucket_run [Take, Take, Tick, Take] (NewCircuitBreaker ''b'' 0 2 2 0))) \<le> 4"
proof -
  let ?cb = "NewCircuitBreaker ''b'' 0 2 2 0"
  have cap: "bucket_capacity (newCircuitBreaker ''b'' 0 2 2 0) = 2"
    by (simp add: bucket_capacity_def newCircuitBreaker_def maxBucketCapacity_def)
  have tok: "tokens ?cb = Some \<lparr>ch_len = 2, ch_cap = 2\<rparr>"
    using initTokenBucket_on(1) [of "newCircuitBreaker ''b'' 0 2 2 0"]
    by (simp add: NewCircuitBreaker_def cap) (simp add: newCircuitBreaker_def)
  have cfg: "tokenInterval ?cb = second" "tokensPerTick ?cb = 1"
    by (simp_all add: NewCircuitBreaker_def initTokenBucket_def newCircuitBreaker_def startTokenBucket_def
        Let_def wrap64_def minTokenInterval_def)
  have "timed_history second [(0, Take), (1, Take), (5, Tick), (7, Take)]"
    "in_window 0 (2 * second) [(0, Take), (1, Take), (5, Tick), (7, Take)]"
    by (simp_all add: timed_history_def tick_times_def spaced_def in_window_def)
  then show ?thesis
    using rate_limit_window [OF tok, of "[(0, Take), (1, Take), (5, Tick), (7, Take)]" 0 "2 * second"]
    by (simp add: cfg chan_ok_def)
qed




text \<open>A bucket of one token that is emptied after each tick grants one call per tick.\<close>

lemma bucket_run_pairs:
  assumes "tokensPerTick cb = 1" and "tokens cb = Some \<lparr>ch_len = 0, ch_cap = 1\<rparr>"
  shows "bucket_run (concat (replicate n [Tick, Take])) cb = (cb, n)"
proof (induction n)
  case (Suc n)
  have "tick cb = cb\<lparr>tokens := Some \<lparr>ch_len = 1, ch_cap = 1\<rparr>\<rparr>"
    using assms by (simp add: tick_def try_send_def)
  moreover have "waitForToken background (cb\<lparr>tokens := Some \<lparr>ch_len = 1, ch_cap = 1\<rparr>\<rparr>) = Pass cb"
    using assms(2) by (simp add: waitForToken_def background_def try_recv_def)
  ultimately show ?case using Suc by simp
qed simp

text \<open>The configuration the documentation recommends for a hard limit of 200 calls per minute.\<close>

definition two_hundred_per_minute :: circuitBreaker where
  "two_hundred_per_minute = NewCircuitBreakerWithOptions ''ccee'' 0 199 60 2 [Some (WithBurst 1)]"

definition crowded_minute :: "(gotime \<times> bucket_event) list" where
  "crowded_minute = (301507536, Take) # concat (map (\<lambda>k. [(301507537 * k, Tick), (301507537 * k, Take)]) [1 .. 200])"

lemma two_hundred_config:
  "tokenInterval two_hundred_per_minute = 301507537" "tokensPerTick two_hundred_per_minute = 1"
  "tokens two_hundred_per_minute = Some \<lparr>ch_len = 1, ch_cap = 1\<rparr>"
  by (simp_all add: two_hundred_per_minute_def NewCircuitBreakerWithOptions_def WithBurst_def initTokenBucket_def
      newCircuitBreaker_def startTokenBucket_def Let_def wrap64_def minTokenInterval_def
      bucket_capacity_def maxBucketCapacity_def try_send_def make_chan_def signed_divide_int_def)

lemma crowded_events: "map snd crowded_minute = Take # concat (replicate 200 [Tick, Take])"
proof -
  have "map snd (concat (map (\<lambda>k. [(301507537 * k, Tick), (301507537 * k, Take)]) ks)) =
      concat (replicate (length ks) [Tick, Take])" for ks :: "int list"
    by (induction ks) auto
  from this [of "[1 .. 200]"] show ?thesis by (simp add: crowded_minute_def)
qed

lemma crowded_times:
  "map fst crowded_minute = 301507536 # concat (map (\<lambda>k. [301507537 * k, 301507537 * k]) [1 .. 200])"
  "tick_times crowded_minute = map (\<lambda>k. 301507537 * k) [1 .. 200]"
proof -
  have "map fst (concat (map (\<lambda>k. [(301507537 * k, Tick), (301507537 * k, Take)]) ks)) =
      concat (map (\<lambda>k. [301507537 * k, 301507537 * k]) ks)" for ks :: "int list"
    by (induction ks) auto
  then show "map fst crowded_minute = 301507536 # concat (map (\<lambda>k. [301507537 * k, 301507537 * k]) [1 .. 200])"
    by (simp add: crowded_minute_def)
  have "map fst (filter (\<lambda>(t, e). e = Tick) (concat (map (\<lambda>k. [(301507537 * k, Tick), (301507537 * k, Take)]) ks))) =
      map (\<lambda>k. 301507537 * k) ks" for ks :: "int list"
    by (induction ks) auto
  then show "tick_times crowded_minute = map (\<lambda>k. 301507537 * k) [1 .. 200]"
    by (simp add: tick_times_def crowded_minute_def)
qed

lemma successively_upto: "successively (\<lambda>a b. b = a + 1) [i .. j]"
proof (induction i j rule: upto.induct)
  case (1 i j)
  then show ?case
    by (cases "i + 1 \<le> j"; cases "i \<le> j") (simp_all add: upto.simps [of i] upto.simps [of "i + 1"])
qed

lemma crowded_history: "timed_history 301507537 crowded_minute"
proof -
  have "sorted (concat (map (\<lambda>k. [301507537 * k, 301507537 * k]) ks))" if "sorted ks" for ks :: "int list"
    using that by (induction ks) auto
  from this [of "[1 .. 200]"] have "sorted (map fst crowded_minute)"
    by (auto simp: crowded_times simp del: upto_rec_numeral)
  moreover have "spaced 301507537 (map (\<lambda>k. 301507537 * k) [1 .. 200])"
    unfolding spaced_def successively_map
    by (rule successively_mono [OF successively_upto]) auto
  ultimately show ?thesis
    by (simp add: timed_history_def crowded_times)
qed

text \<open>C39: The rule \<open>maxRequests + burst \<le> L\<close> does not hold for every rate: with the documented
  configuration (199 per 60 seconds, burst 1) the tick interval is truncated to 301507537
  nanoseconds, so 200 ticks fit into less than a minute, and a history with exactly these ticks
  lets 201 calls through within a window of 60 seconds.\<close>

theorem documented_limit_exceeded:
  "timed_history (tokenInterval two_hundred_per_minute) crowded_minute \<and>
   in_window 301507536 (60 * second) crowded_minute \<and>
   snd (bucket_run (map snd crowded_minute) two_hundred_per_minute) = 201"
proof (intro conjI)
  show "timed_history (tokenInterval two_hundred_per_minute) crowded_minute"
    unfolding two_hundred_config by (rule crowded_history)
  have "\<forall>t \<in> set (map fst crowded_minute). 301507536 \<le> t \<and> t < 301507536 + 60 * second"
    unfolding crowded_times by (auto simp del: upto_rec_numeral)
  then show "in_window 301507536 (60 * second) crowded_minute"
    by (auto simp: in_window_def)
  have "waitForToken background two_hundred_per_minute =
      Pass (two_hundred_per_minute\<lparr>tokens := Some \<lparr>ch_len = 0, ch_cap = 1\<rparr>\<rparr>)"
    by (simp add: waitForToken_def background_def two_hundred_config try_recv_def)
  then show "snd (bucket_run (map snd crowded_minute) two_hundred_per_minute) = 201"
    unfolding crowded_events
    using bucket_run_pairs [of "two_hundred_per_minute\<lparr>tokens := Some \<lparr>ch_len = 0, ch_cap = 1\<rparr>\<rparr>" 200]
    by (simp add: two_hundred_config)
qed


text \<open>For rates above 1000 per second the tick is thickened to 25 ms and restores a batch; unless the
  batch is cut down to the capacity, 40 batches per second differ from the nominal rate by at most
  four per cent, all floating-point roundings included.\<close>

theorem thick_tick_rate:
  assumes "0 < maxRequests cb" and "maxRequests cb \<le> max_int64" and "0 < windowSeconds cb"
    and "windowSeconds cb * second \<le> max_int64" and "1000 * windowSeconds cb < maxRequests cb"
    and "tokensPerTick (initTokenBucket cb) < bucket_capacity cb"
  shows "tokenInterval (initTokenBucket cb) = clampedTick \<and>
    \<bar>40 * of_int (tokensPerTick (initTokenBucket cb)) - of_int (maxRequests cb) / of_int (windowSeconds cb)\<bar>
      \<le> 4 / 100 * (of_int (maxRequests cb) / of_int (windowSeconds cb) :: rat)"
proof -
  let ?r = "maxRequests cb" and ?w = "windowSeconds cb"
  let ?batch = "math_Round (fmul (fdiv (float_of_int ?r) (float_of_int ?w)) (Seconds clampedTick))"
  have w: "?w \<le> max_int64" using assms(3,4) by simp
  note close = batch_close [OF assms(1,2,3) w assms(5)]
  have "(?w * second) div ?r < millisecond"
  proof -
    have "(?w * second) div ?r * ?r \<le> ?w * second"
      using assms(1) by (simp add: minus_mod_eq_div_mult [symmetric])
    also have "\<dots> < millisecond * ?r" using assms(5) by simp
    finally show ?thesis using assms(1) by (simp only: mult_less_cancel_right_pos)
  qed
  then have fast: "wrap64 (?w * second) sdiv ?r < minTokenInterval"
    using assms(1,3,4) by (simp add: wrap64_in_range signed_divide_int_def minTokenInterval_def sgn_mult)
  then have tpt: "tokensPerTick (initTokenBucket cb) = ?batch"
    using assms(1,3,6) close(2)
    by (auto simp: initTokenBucket_def startTokenBucket_def Let_def split: if_splits)
  have "tokenInterval (initTokenBucket cb) = clampedTick"
    using assms(1,3) fast by (simp add: initTokenBucket_def startTokenBucket_def Let_def)
  then show ?thesis
    unfolding tpt using close(1) by (simp add: abs_le_iff field_simps)
qed

text \<open>After \<open>Stop\<close>, and with no further tick, no waiter is left hanging: the tokens still in the
  bucket are granted one by one, and once it is empty a live waiter blocks before the \<open>select\<close>,
  whose stop arm is ready and returns \<open>ErrStopped\<close> while its token arm is not.\<close>

theorem stopped_waiters_released:
  assumes "tokens cb = Some c" and "tokenStop cb = Some s" and "stopOnce cb \<longrightarrow> s" and "ctx_err ctx = None"
  shows "(\<exists>d. waitForToken ctx (Stop cb) = Pass ((Stop cb)\<lparr>tokens := Some d\<rparr>) \<and> ch_len c = Suc (ch_len d)) \<or>
    (ch_len c = 0 \<and> waitForToken ctx (Stop cb) = Block \<and>
     waitForToken_select ArmStop ctx (Stop cb) = Fail ErrStopped \<and>
     waitForToken_select ArmToken ctx (Stop cb) = Block)"
proof -
  have stop: "tokens (Stop cb) = Some c" "tokenStop (Stop cb) = Some True"
    using assms(1-3) by (auto simp: Stop_def)
  show ?thesis
  proof (cases "try_recv c")
    case None
    then show ?thesis
      using stop assms(4) ch.recv_None [OF None] by (simp add: waitForToken_def waitForToken_select_def)
  next
    case (Some d)
    then show ?thesis
      using stop assms(4) ch.recv_Some [OF Some] by (auto simp: waitForToken_def)
  qed
qed

theorem stopped_waiters_released_witness:
  "waitForToken_select ArmStop background (Stop ((NewCircuitBreaker ''b'' 0 1 1 0)\<lparr>tokens := Some \<lparr>ch_len = 0, ch_cap = 1\<rparr>\<rparr>)) = Fail ErrStopped"
proof -
  let ?cb = "(NewCircuitBreaker ''b'' 0 1 1 0)\<lparr>tokens := Some \<lparr>ch_len = 0, ch_cap = 1\<rparr>\<rparr>"
  have "tokenStop ?cb = Some False" "\<not> stopOnce ?cb"
    by (simp_all add: NewCircuitBreaker_def newCircuitBreaker_def initTokenBucket_def startTokenBucket_def Let_def)
  then show ?thesis
    using stopped_waiters_released [of ?cb "\<lparr>ch_len = 0, ch_cap = 1\<rparr>" False background]
    by (simp add: background_def)
qed

theorem thick_tick_rate_witness:
  "\<bar>40 * of_int (tokensPerTick (NewCircuitBreaker ''b'' 0 200000 1 0)) - (200000 :: rat)\<bar> \<le> 4 / 100 * 200000"
proof -
  let ?n = "newCircuitBreaker ''b'' 0 200000 1 0"
  have fields: "maxRequests ?n = 200000" "windowSeconds ?n = 1" "bucket_capacity ?n = 200000"
    by (simp_all add: newCircuitBreaker_def bucket_capacity_def maxBucketCapacity_def)
  have x: "(200000 :: rat) / 1 / 40 = 5000" by simp
  have "\<bar>of_int (math_Round (fmul (fdiv (float_of_int 200000) (float_of_int 1)) (Seconds clampedTick))) - (5000 :: rat)\<bar> \<le> 5000 / 25"
    using batch_close(1) [of 200000 1] by simp
  then have "(of_int (math_Round (fmul (fdiv (float_of_int 200000) (float_of_int 1)) (Seconds clampedTick))) :: rat) < of_int 200000"
    by simp
  then have "math_Round (fmul (fdiv (float_of_int 200000) (float_of_int 1)) (Seconds clampedTick)) < 200000"
    by (simp only: of_int_less_iff)
  then have "tokensPerTick (initTokenBucket ?n) < bucket_capacity ?n"
    by (auto simp: initTokenBucket_def startTokenBucket_def Let_def fields)
  from thick_tick_rate [of ?n, unfolded fields, OF _ _ _ _ _ this [unfolded fields]]
  show ?thesis by (simp add: NewCircuitBreaker_def)
qed

end

