(* ===== verification/Go_Strings.thy ===== *)
theory Go_Strings
  imports Prelude
begin

text \<open>
  The parts of Go's \<open>strings\<close> and \<open>strconv\<close> the reader of the \<open>Retry-After\<close> header uses, on strings
  as lists of bytes, and the decimal texts it must understand.
\<close>

section \<open>Operations\<close>

text \<open>
  \<open>strings.TrimSpace\<close>: the UTF-8 encodings of the runes \<open>unicode.IsSpace\<close> accepts, stripped at
  both ends.
\<close>

definition space_runes :: "string list" where
  "space_runes =
     [[CHR 0x09], [CHR 0x0A], [CHR 0x0B], [CHR 0x0C], [CHR 0x0D], [CHR 0x20],
      [CHR 0xC2, CHR 0x85], [CHR 0xC2, CHR 0xA0], [CHR 0xE1, CHR 0x9A, CHR 0x80],
      [CHR 0xE2, CHR 0x80, CHR 0x80], [CHR 0xE2, CHR 0x80, CHR 0x81], [CHR 0xE2, CHR 0x80, CHR 0x82],
      [CHR 0xE2, CHR 0x80, CHR 0x83], [CHR 0xE2, CHR 0x80, CHR 0x84], [CHR 0xE2, CHR 0x80, CHR 0x85],
      [CHR 0xE2, CHR 0x80, CHR 0x86], [CHR 0xE2, CHR 0x80, CHR 0x87], [CHR 0xE2, CHR 0x80, CHR 0x88],
      [CHR 0xE2, CHR 0x80, CHR 0x89], [CHR 0xE2, CHR 0x80, CHR 0x8A], [CHR 0xE2, CHR 0x80, CHR 0xA8],
      [CHR 0xE2, CHR 0x80, CHR 0xA9], [CHR 0xE2, CHR 0x80, CHR 0xAF], [CHR 0xE2, CHR 0x81, CHR 0x9F],
      [CHR 0xE3, CHR 0x80, CHR 0x80]]"

definition strip_one :: "string list \<Rightarrow> string \<Rightarrow> string option" where
  "strip_one runes s =
     (case List.find (\<lambda>r. take (length r) s = r) runes of
        None \<Rightarrow> None
      | Some r \<Rightarrow> if r = [] then None else Some (drop (length r) s))"

function strip_all :: "string list \<Rightarrow> string \<Rightarrow> string" where
  "strip_all runes s = (case strip_one runes s of None \<Rightarrow> s | Some t \<Rightarrow> strip_all runes t)"
  by pat_completeness auto
termination
proof (relation "measure (length \<circ> snd)")
  show "((runes, t), runes, s) \<in> measure (length \<circ> snd)" if some: "strip_one runes s = Some t" for runes s t
  proof -
    obtain r where r: "List.find (\<lambda>r. take (length r) s = r) runes = Some r" "r \<noteq> []" "t = drop (length r) s"
      using some by (auto simp: strip_one_def split: option.splits if_splits)
    then have "take (length r) s = r" by (auto simp: find_Some_iff)
    with r(2) have "s \<noteq> []" by auto
    with r show ?thesis by simp
  qed
qed simp

declare strip_all.simps [simp del]

definition TrimSpace :: "string \<Rightarrow> string" where
  "TrimSpace s = rev (strip_all (map rev space_runes) (rev (strip_all space_runes s)))"

text \<open>
  \<open>strconv.Atoi\<close>: an optional sign, then at least one decimal digit and nothing else; a value
  outside 64 bits is an error like a syntax error.
\<close>

definition digit_val :: "char \<Rightarrow> int option" where
  "digit_val ch = (let n = of_char ch :: int in if 48 \<le> n \<and> n \<le> 57 then Some (n - 48) else None)"

fun decimal :: "int \<Rightarrow> string \<Rightarrow> int option" where
  "decimal acc [] = Some acc"
| "decimal acc (ch # s) = (case digit_val ch of None \<Rightarrow> None | Some n \<Rightarrow> decimal (10 * acc + n) s)"

definition digits :: "string \<Rightarrow> int option" where
  "digits s = (if s = [] then None else decimal 0 s)"

definition in_int64 :: "int option \<Rightarrow> int option" where
  "in_int64 v = (case v of None \<Rightarrow> None | Some n \<Rightarrow> if int64 n then Some n else None)"

definition Atoi :: "string \<Rightarrow> int option" where
  "Atoi s =
     (case s of
        [] \<Rightarrow> None
      | ch # t \<Rightarrow>
          if ch = CHR ''-'' then in_int64 (map_option uminus (digits t))
          else if ch = CHR ''+'' then in_int64 (digits t)
          else in_int64 (digits s))"

section \<open>Decimal texts\<close>

text \<open>The text of a natural number, as servers write it into the header.\<close>

fun dec_text :: "nat \<Rightarrow> string" where
  "dec_text n = (if n < 10 then [char_of (48 + n)] else dec_text (n div 10) @ [char_of (48 + n mod 10)])"

declare dec_text.simps [simp del]

definition all_digits :: "string \<Rightarrow> bool" where
  "all_digits s \<longleftrightarrow> (\<forall>ch \<in> set s. digit_val ch \<noteq> None)"

lemma digit_val_char_of [simp]: "k < 10 \<Longrightarrow> digit_val (char_of (48 + k :: nat)) = Some (int k)"
proof -
  assume "k < 10"
  then have "(of_char (char_of (48 + k)) :: nat) = 48 + k" by simp
  then have "(of_char (char_of (48 + k)) :: int) = 48 + int k"
    by (metis of_nat_add of_nat_numeral of_nat_of_char)
  with \<open>k < 10\<close> show ?thesis by (simp add: digit_val_def Let_def)
qed

lemma decimal_append:
  "decimal acc (s @ t) = (case decimal acc s of None \<Rightarrow> None | Some v \<Rightarrow> decimal v t)"
  by (induction s arbitrary: acc) (auto split: option.splits)

lemma dec_text_digits: "all_digits (dec_text n) \<and> dec_text n \<noteq> [] \<and> decimal 0 (dec_text n) = Some (int n)"
proof (induction n rule: dec_text.induct)
  case (1 n)
  show ?case
  proof (cases "n < 10")
    case True
    then show ?thesis by (simp add: dec_text.simps [of n] all_digits_def)
  next
    case False
    have "10 * (int n div 10) + int n mod 10 = int n" by simp
    with "1.IH" [OF False] False show ?thesis
      by (simp add: dec_text.simps [of n] all_digits_def decimal_append zdiv_int zmod_int)
  qed
qed

lemmas dec_text_facts = dec_text_digits [THEN conjunct1]
  dec_text_digits [THEN conjunct2, THEN conjunct1] dec_text_digits [THEN conjunct2, THEN conjunct2]

lemma strip_all_stop:
  assumes "\<forall>r \<in> set runes. r \<noteq> [] \<and> (s \<noteq> [] \<longrightarrow> hd r \<noteq> hd s)"
  shows "strip_all runes s = s"
proof -
  have "take (length r) s \<noteq> r" if "r \<in> set runes" for r
    using assms that by (cases s; cases r) auto
  then have "List.find (\<lambda>r. take (length r) s = r) runes = None"
    by (auto simp: find_None_iff)
  then show ?thesis by (simp add: strip_all.simps strip_one_def)
qed

lemma digit_no_space:
  assumes "digit_val ch \<noteq> None"
  shows "\<forall>r \<in> set space_runes. r \<noteq> [] \<and> hd r \<noteq> ch \<and> hd (rev r) \<noteq> ch"
  using assms by (auto simp: space_runes_def digit_val_def)

lemma TrimSpace_digits:
  assumes "all_digits s"
  shows "TrimSpace s = s"
proof (cases "s = []")
  case True
  have "r \<noteq> [] \<and> rev r \<noteq> []" if "r \<in> set space_runes" for r
    using that by (auto simp: space_runes_def)
  with True show ?thesis by (simp add: TrimSpace_def strip_all_stop)
next
  case False
  have h: "digit_val (hd s) \<noteq> None" "digit_val (hd (rev s)) \<noteq> None"
    using assms False by (auto simp: all_digits_def hd_rev)
  have "strip_all space_runes s = s"
    using digit_no_space [OF h(1)] by (intro strip_all_stop) auto
  moreover have "strip_all (map rev space_runes) (rev s) = rev s"
    using digit_no_space [OF h(2)] by (intro strip_all_stop) auto
  ultimately show ?thesis by (simp add: TrimSpace_def)
qed

lemma Atoi_digits: "all_digits s \<Longrightarrow> Atoi s = in_int64 (digits s)"
  by (cases s) (auto simp: Atoi_def all_digits_def digit_val_def digits_def in_int64_def)

lemma Atoi_dec_text: "Atoi (dec_text n) = (if int n \<le> max_int64 then Some (int n) else None)"
  by (simp add: Atoi_digits dec_text_facts digits_def in_int64_def int64_def)

end
