(* ===== verification/Go_Date.thy ===== *)
theory Go_Date
  imports Go_Time Go_Strings
begin

text \<open>
  \<open>http.ParseTime\<close> and the part of \<open>time.Parse\<close> and \<open>time.Date\<close> behind it: the three layouts of an
  HTTP date, the fields a layout is made of, and the instant of a civil date. The offset of a
  named zone other than UTC comes from the zone table of the process and is the parameter
  \<open>zone\_offset\<close>.
\<close>

section \<open>Civil dates\<close>

definition leap_year :: "int \<Rightarrow> bool" where
  "leap_year y \<longleftrightarrow> y mod 4 = 0 \<and> (y mod 100 \<noteq> 0 \<or> y mod 400 = 0)"

definition days_in :: "int \<Rightarrow> int \<Rightarrow> int" where
  "days_in m y =
     (if m = 2 then (if leap_year y then 29 else 28)
      else if m = 4 \<or> m = 6 \<or> m = 9 \<or> m = 11 then 30 else 31)"

text \<open>The days before a year, counted from the first day of year 1, and those before a month.\<close>

definition days_before_year :: "int \<Rightarrow> int" where
  "days_before_year y = 365 * (y - 1) + (y - 1) div 4 - (y - 1) div 100 + (y - 1) div 400"

definition days_before_month :: "int \<Rightarrow> int \<Rightarrow> int" where
  "days_before_month m y = (\<Sum>k \<leftarrow> [1..m - 1]. days_in k y)"

definition epoch_day :: "int \<Rightarrow> int \<Rightarrow> int \<Rightarrow> int" where
  "epoch_day y m d = days_before_year y - days_before_year 1970 + days_before_month m y + d - 1"

text \<open>\<open>time.Date\<close> in UTC, for fields in their ranges.\<close>

definition time_Date :: "int \<Rightarrow> int \<Rightarrow> int \<Rightarrow> int \<Rightarrow> int \<Rightarrow> int \<Rightarrow> int \<Rightarrow> gotime" where
  "time_Date y m d h mi s ns = (((epoch_day y m d * 24 + h) * 60 + mi) * 60 + s) * 1000000000 + ns"

lemma epoch_day_epoch: "epoch_day 1970 1 1 = 0"
  by (simp add: epoch_day_def days_before_month_def)

lemma div_pred: "1 < n \<Longrightarrow> (y - 1) div n = (if y mod n = 0 then y div n - 1 else y div n)" for y n :: int
proof (cases "y mod n = 0")
  case True
  assume "1 < n"
  moreover from True have "y - 1 = n * (y div n - 1) + (n - 1)"
    using mult_div_mod_eq [of n y] by (simp add: right_diff_distrib)
  ultimately show ?thesis using True int_div_pos_eq [of "y - 1" n "y div n - 1" "n - 1"] by simp
next
  case False
  assume n: "1 < n"
  have "y - 1 = n * (y div n) + (y mod n - 1)" using mult_div_mod_eq [of n y] by simp
  moreover have "0 \<le> y mod n - 1" "y mod n - 1 < n"
    using n False pos_mod_sign [of n y] pos_mod_bound [of n y] by linarith+
  ultimately show ?thesis using False int_div_pos_eq [of "y - 1" n "y div n" "y mod n - 1"] by simp
qed

lemma year_days: "days_before_year (y + 1) = days_before_year y + (if leap_year y then 366 else 365)"
proof -
  have sum: "365 * y + a - b + c = 365 * (y - 1) + (if p then a - 1 else a) - (if q then b - 1 else b) +
      (if r then c - 1 else c) + (if p \<and> (\<not> q \<or> r) then 366 else 365)"
    if "q \<longrightarrow> p" "r \<longrightarrow> q" for a b c :: int and p q r
    using that by auto
  have "y mod 400 = 0 \<longrightarrow> y mod 100 = 0"
    using dvd_trans [of 100 400 y] by (simp add: mod_eq_0_iff_dvd)
  moreover have "y mod 100 = 0 \<longrightarrow> y mod 4 = 0"
    using dvd_trans [of 4 100 y] by (simp add: mod_eq_0_iff_dvd)
  ultimately have "365 * y + y div 4 - y div 100 + y div 400 =
      365 * (y - 1) + (y - 1) div 4 - (y - 1) div 100 + (y - 1) div 400 + (if leap_year y then 366 else 365)"
    unfolding leap_year_def div_pred [of 4 y, simplified] div_pred [of 100 y, simplified] div_pred [of 400 y, simplified]
    by (intro sum)
  then show ?thesis by (simp only: days_before_year_def add_diff_cancel_right')
qed

text \<open>The calendar: each day is followed by the next one.\<close>

lemma next_day: "epoch_day y m (d + 1) = epoch_day y m d + 1"
  by (simp add: epoch_day_def)

lemma next_month: "1 \<le> m \<Longrightarrow> m < 12 \<Longrightarrow> epoch_day y (m + 1) 1 = epoch_day y m (days_in m y) + 1"
proof -
  assume "1 \<le> m" "m < 12"
  then have "[1..m] = [1..m - 1] @ [m]" using upto_rec2 [of 1 m] by simp
  then show ?thesis by (simp add: epoch_day_def days_before_month_def)
qed

lemma next_year: "epoch_day (y + 1) 1 1 = epoch_day y 12 31 + 1"
proof -
  have "days_before_month 12 y = (if leap_year y then 335 else 334)"
    by (simp add: days_before_month_def upto.simps days_in_def)
  then show ?thesis by (simp add: epoch_day_def days_before_month_def year_days)
qed

section \<open>Layouts\<close>

text \<open>
  The elements of a layout: text that must be present, and the fields. \<open>nextStdChunk\<close> cuts the
  layout strings into these; that is done here once and for all.
\<close>

datatype chunk = Literal string | stdWeekDay | stdLongWeekDay | stdZeroDay | stdUnderDay | stdMonth
  | stdLongYear | stdYear | stdHour | stdZeroMinute | stdZeroSecond | stdTZ

text \<open>\<open>Mon, 02 Jan 2006 15:04:05 GMT\<close>, \<open>Monday, 02-Jan-06 15:04:05 MST\<close>, \<open>Mon Jan \_2 15:04:05 2006\<close>.\<close>

definition clock_chunks :: "chunk list" where
  "clock_chunks = [stdHour, Literal '':'', stdZeroMinute, Literal '':'', stdZeroSecond]"

definition TimeFormat :: "chunk list" where
  "TimeFormat = [stdWeekDay, Literal '', '', stdZeroDay, Literal '' '', stdMonth, Literal '' '', stdLongYear,
     Literal '' ''] @ clock_chunks @ [Literal '' GMT'']"

definition RFC850 :: "chunk list" where
  "RFC850 = [stdLongWeekDay, Literal '', '', stdZeroDay, Literal ''-'', stdMonth, Literal ''-'', stdYear,
     Literal '' ''] @ clock_chunks @ [Literal '' '', stdTZ]"

definition ANSIC :: "chunk list" where
  "ANSIC = [stdWeekDay, Literal '' '', stdMonth, Literal '' '', stdUnderDay, Literal '' ''] @ clock_chunks @
     [Literal '' '', stdLongYear]"

definition shortDayNames :: "string list" where
  "shortDayNames = [''Sun'', ''Mon'', ''Tue'', ''Wed'', ''Thu'', ''Fri'', ''Sat'']"

definition longDayNames :: "string list" where
  "longDayNames = [''Sunday'', ''Monday'', ''Tuesday'', ''Wednesday'', ''Thursday'', ''Friday'', ''Saturday'']"

definition shortMonthNames :: "string list" where
  "shortMonthNames = [''Jan'', ''Feb'', ''Mar'', ''Apr'', ''May'', ''Jun'', ''Jul'', ''Aug'', ''Sep'', ''Oct'',
     ''Nov'', ''Dec'']"

section \<open>Reading the pieces\<close>

definition is_space :: "char \<Rightarrow> bool" where
  "is_space ch \<longleftrightarrow> ch = CHR '' ''"

abbreviation cutspace :: "string \<Rightarrow> string" where
  "cutspace \<equiv> dropWhile is_space"

text \<open>\<open>skip\<close>: a space in the layout stands for any number of spaces, also for none at the end.\<close>

function skip :: "string \<Rightarrow> string \<Rightarrow> string option" where
  "skip [] value = Some value"
| "skip (p # prefix) value =
     (if is_space p then
        (if value \<noteq> [] \<and> \<not> is_space (hd value) then None else skip (cutspace prefix) (cutspace value))
      else (case value of [] \<Rightarrow> None | ch # rest \<Rightarrow> if ch = p then skip prefix rest else None))"
  by pat_completeness auto
termination
  by (relation "measure (length \<circ> fst)") (auto simp: le_imp_less_Suc length_dropWhile_le)

text \<open>\<open>match\<close> compares without regard to the case of ASCII letters, setting bit 5 of both bytes.\<close>

unbundle bit_operations_syntax

definition lower_byte :: "char \<Rightarrow> int" where
  "lower_byte ch = of_char ch OR 32"

definition same_letter :: "char \<Rightarrow> char \<Rightarrow> bool" where
  "same_letter c1 c2 \<longleftrightarrow>
     c1 = c2 \<or> lower_byte c1 = lower_byte c2 \<and> 97 \<le> lower_byte c1 \<and> lower_byte c1 \<le> 122"

fun lookup :: "string list \<Rightarrow> string \<Rightarrow> (int \<times> string) option" where
  "lookup [] value = None"
| "lookup (name # tab) value =
     (if length name \<le> length value \<and> list_all2 same_letter (take (length name) value) name
      then Some (0, drop (length name) value)
      else map_option (\<lambda>(i, rest). (i + 1, rest)) (lookup tab value))"

definition first_digit :: "string \<Rightarrow> int option" where
  "first_digit s = (case s of [] \<Rightarrow> None | ch # _ \<Rightarrow> digit_val ch)"

definition getnum :: "bool \<Rightarrow> string \<Rightarrow> (int \<times> string) option" where
  "getnum fixed s =
     (case first_digit s of
        None \<Rightarrow> None
      | Some a \<Rightarrow>
          (case first_digit (tl s) of
             None \<Rightarrow> if fixed then None else Some (a, tl s)
           | Some b \<Rightarrow> Some (10 * a + b, tl (tl s))))"

text \<open>The \<open>atoi\<close> of package \<open>time\<close>, for the short texts it is called on: an empty number is zero.\<close>

definition time_atoi :: "string \<Rightarrow> int option" where
  "time_atoi s =
     (case s of
        [] \<Rightarrow> Some 0
      | ch # t \<Rightarrow>
          if ch = CHR ''-'' then map_option uminus (decimal 0 t)
          else if ch = CHR ''+'' then decimal 0 t
          else decimal 0 s)"

definition is_digit :: "char \<Rightarrow> bool" where
  "is_digit ch \<longleftrightarrow> digit_val ch \<noteq> None"

text \<open>A fraction of a second: at most nine of its digits count.\<close>

definition fraction :: "string \<Rightarrow> int \<times> string" where
  "fraction s =
     (case s of
        p # ch # rest \<Rightarrow>
          if (p = CHR ''.'' \<or> p = CHR '','') \<and> is_digit ch then
            let ds = take 9 (takeWhile is_digit (ch # rest))
            in (the (decimal 0 ds) * 10 ^ (9 - length ds), dropWhile is_digit (ch # rest))
          else (0, s)
      | _ \<Rightarrow> (0, s))"

section \<open>Time zones\<close>

text \<open>
  \<open>parseSignedOffset\<close> gives the length of a sign with a number up to 23, or 0; \<open>parseTimeZone\<close> the
  length of the abbreviation at the front.
\<close>

definition parseSignedOffset :: "string \<Rightarrow> nat" where
  "parseSignedOffset value =
     (case value of
        [] \<Rightarrow> 0
      | sign # rest \<Rightarrow>
          let ds = takeWhile is_digit rest
          in if sign \<noteq> CHR ''-'' \<and> sign \<noteq> CHR ''+'' \<or> ds = [] \<or> 23 < the (decimal 0 ds) then 0
             else Suc (length ds))"

definition upper_letter :: "char \<Rightarrow> bool" where
  "upper_letter ch \<longleftrightarrow> 65 \<le> (of_char ch :: int) \<and> (of_char ch :: int) \<le> 90"

definition parseTimeZone :: "string \<Rightarrow> nat option" where
  "parseTimeZone value =
     (if length value < 3 then None
      else if take 4 value = ''ChST'' \<or> take 4 value = ''MeST'' then Some 4
      else if take 3 value = ''GMT'' then Some (3 + parseSignedOffset (drop 3 value))
      else if hd value = CHR ''+'' \<or> hd value = CHR ''-'' then
        (if 0 < parseSignedOffset value then Some (parseSignedOffset value) else None)
      else
        let nUpper = length (takeWhile upper_letter (take 6 value))
        in if nUpper = 5 then (if value ! 4 = CHR ''T'' then Some 5 else None)
           else if nUpper = 4 then (if value ! 3 = CHR ''T'' \<or> take 4 value = ''WITA'' then Some 4 else None)
           else if nUpper = 3 then Some 3
           else None)"

section \<open>Reading a date\<close>

record date_fields =
  year :: int
  month :: int
  day :: int
  hour :: int
  minute_of :: int
  sec :: int
  nsec :: int
  zone_name :: string

definition no_fields :: date_fields where
  "no_fields = \<lparr>year = 0, month = -1, day = -1, hour = 0, minute_of = 0, sec = 0, nsec = 0, zone_name = []\<rparr>"

text \<open>One round of the loop of \<open>time.Parse\<close>. The zone name \<open>UTC\<close> stands for the location UTC.\<close>

definition parse_chunk :: "chunk \<Rightarrow> string \<Rightarrow> date_fields \<Rightarrow> (string \<times> date_fields) option" where
  "parse_chunk ch value f =
     (case ch of
        Literal prefix \<Rightarrow> map_option (\<lambda>rest. (rest, f)) (skip prefix value)
      | stdWeekDay \<Rightarrow> map_option (\<lambda>(_, rest). (rest, f)) (lookup shortDayNames value)
      | stdLongWeekDay \<Rightarrow> map_option (\<lambda>(_, rest). (rest, f)) (lookup longDayNames value)
      | stdZeroDay \<Rightarrow> map_option (\<lambda>(n, rest). (rest, f\<lparr>day := n\<rparr>)) (getnum True value)
      | stdUnderDay \<Rightarrow>
          map_option (\<lambda>(n, rest). (rest, f\<lparr>day := n\<rparr>))
            (getnum False (if value \<noteq> [] \<and> is_space (hd value) then tl value else value))
      | stdMonth \<Rightarrow> map_option (\<lambda>(n, rest). (rest, f\<lparr>month := n + 1\<rparr>)) (lookup shortMonthNames value)
      | stdLongYear \<Rightarrow>
          if length value < 4 \<or> first_digit value = None then None
          else map_option (\<lambda>n. (drop 4 value, f\<lparr>year := n\<rparr>)) (time_atoi (take 4 value))
      | stdYear \<Rightarrow>
          if length value < 2 then None
          else map_option (\<lambda>n. (drop 2 value, f\<lparr>year := (if 69 \<le> n then n + 1900 else n + 2000)\<rparr>))
                 (time_atoi (take 2 value))
      | stdHour \<Rightarrow>
          (case getnum False value of None \<Rightarrow> None
           | Some (n, rest) \<Rightarrow> if 24 \<le> n then None else Some (rest, f\<lparr>hour := n\<rparr>))
      | stdZeroMinute \<Rightarrow>
          (case getnum True value of None \<Rightarrow> None
           | Some (n, rest) \<Rightarrow> if 60 \<le> n then None else Some (rest, f\<lparr>minute_of := n\<rparr>))
      | stdZeroSecond \<Rightarrow>
          (case getnum True value of None \<Rightarrow> None
           | Some (n, rest) \<Rightarrow>
               if 60 \<le> n then None
               else case fraction rest of (ns, rest') \<Rightarrow> Some (rest', f\<lparr>sec := n, nsec := ns\<rparr>))
      | stdTZ \<Rightarrow>
          if take 3 value = ''UTC'' then Some (drop 3 value, f\<lparr>zone_name := ''UTC''\<rparr>)
          else map_option (\<lambda>n. (drop n value, f\<lparr>zone_name := take n value\<rparr>)) (parseTimeZone value))"

fun parse_chunks :: "chunk list \<Rightarrow> string \<Rightarrow> date_fields \<Rightarrow> date_fields option" where
  "parse_chunks [] value f = (if value = [] then Some f else None)"
| "parse_chunks (ch # layout) value f =
     (case parse_chunk ch value f of None \<Rightarrow> None | Some (rest, f') \<Rightarrow> parse_chunks layout rest f')"

text \<open>
  \<open>zone_offset name t\<close> is the offset in seconds the process knows for a zone abbreviation at an
  instant; it is consulted only for a zone that is neither absent nor UTC nor plain GMT (GMT has
  offset 0 wherever it is known).
\<close>

definition time_Parse :: "(string \<Rightarrow> gotime \<Rightarrow> int) \<Rightarrow> chunk list \<Rightarrow> string \<Rightarrow> gotime option" where
  "time_Parse zone_offset layout value =
     (case parse_chunks layout value no_fields of
        None \<Rightarrow> None
      | Some f \<Rightarrow>
          if day f < 1 \<or> days_in (month f) (year f) < day f then None
          else
            let t = time_Date (year f) (month f) (day f) (hour f) (minute_of f) (sec f) (nsec f)
            in Some (if zone_name f \<in> {[], ''UTC'', ''GMT''} then t
                     else t - zone_offset (zone_name f) t * 1000000000))"

definition ParseTime :: "(string \<Rightarrow> gotime \<Rightarrow> int) \<Rightarrow> string \<Rightarrow> gotime option" where
  "ParseTime zone_offset text =
     (case time_Parse zone_offset TimeFormat text of
        Some t \<Rightarrow> Some t
      | None \<Rightarrow>
          (case time_Parse zone_offset RFC850 text of
             Some t \<Rightarrow> Some t
           | None \<Rightarrow> time_Parse zone_offset ANSIC text))"

section \<open>Printed dates\<close>

text \<open>The three forms of an HTTP date, as servers print them; weekdays and months count from 0 and 1.\<close>

definition two :: "nat \<Rightarrow> string" where
  "two n = [char_of (48 + n div 10), char_of (48 + n mod 10)]"

definition four :: "nat \<Rightarrow> string" where
  "four n = two (n div 100) @ two (n mod 100)"

definition clock_text :: "nat \<Rightarrow> nat \<Rightarrow> nat \<Rightarrow> string" where
  "clock_text h mi s = two h @ '':'' @ two mi @ '':'' @ two s"

definition imf_date :: "nat \<Rightarrow> nat \<Rightarrow> nat \<Rightarrow> nat \<Rightarrow> nat \<Rightarrow> nat \<Rightarrow> nat \<Rightarrow> string" where
  "imf_date wd y m d h mi s =
     shortDayNames ! wd @ '', '' @ two d @ '' '' @ shortMonthNames ! (m - 1) @ '' '' @ four y @ '' '' @
     clock_text h mi s @ '' GMT''"

definition rfc850_date :: "nat \<Rightarrow> nat \<Rightarrow> nat \<Rightarrow> nat \<Rightarrow> nat \<Rightarrow> nat \<Rightarrow> nat \<Rightarrow> string" where
  "rfc850_date wd y m d h mi s =
     longDayNames ! wd @ '', '' @ two d @ ''-'' @ shortMonthNames ! (m - 1) @ ''-'' @ two (y mod 100) @ '' '' @
     clock_text h mi s @ '' GMT''"

definition asctime_date :: "nat \<Rightarrow> nat \<Rightarrow> nat \<Rightarrow> nat \<Rightarrow> nat \<Rightarrow> nat \<Rightarrow> nat \<Rightarrow> string" where
  "asctime_date wd y m d h mi s =
     shortDayNames ! wd @ '' '' @ shortMonthNames ! (m - 1) @ '' '' @
     (if d < 10 then '' '' @ [char_of (48 + d)] else two d) @ '' '' @ clock_text h mi s @ '' '' @ four y"

text \<open>The fields of a valid date.\<close>

definition valid_date :: "nat \<Rightarrow> nat \<Rightarrow> nat \<Rightarrow> nat \<Rightarrow> nat \<Rightarrow> nat \<Rightarrow> nat \<Rightarrow> bool" where
  "valid_date wd y m d h mi s \<longleftrightarrow>
     wd < 7 \<and> y < 10000 \<and> 1 \<le> m \<and> m \<le> 12 \<and> 1 \<le> d \<and> int d \<le> days_in (int m) (int y) \<and> h < 24 \<and> mi < 60 \<and> s < 60"

lemma digit_no_space_letter: "k < 10 \<Longrightarrow> char_of (48 + k :: nat) = ch \<Longrightarrow> \<not> is_space ch \<and> ch \<noteq> CHR ''-'' \<and> ch \<noteq> CHR ''+''"
proof -
  assume k: "k < 10" and ch: "char_of (48 + k :: nat) = ch"
  then have "(of_char ch :: nat) = 48 + k" by auto
  then show ?thesis using k by (auto simp: is_space_def)
qed

lemmas digit_facts = digit_no_space_letter [OF _ refl]

lemma two_facts [simp]:
  assumes "n < 100"
  shows "getnum fixed (two n @ rest) = Some (int n, rest)" "cutspace (two n @ rest) = two n @ rest"
    "first_digit (two n @ rest) = Some (int (n div 10))" "length (two n) = 2" "decimal a (two n) = Some (100 * a + int n)"
    "\<not> is_space (hd (two n @ rest))" "two n @ rest \<noteq> []"
proof -
  have n: "n div 10 < 10" "n mod 10 < 10" "10 * (int n div 10) + int n mod 10 = int n" using assms by simp_all
  show "getnum fixed (two n @ rest) = Some (int n, rest)"
    using n by (simp add: two_def getnum_def first_digit_def zdiv_int zmod_int)
  show "cutspace (two n @ rest) = two n @ rest" "\<not> is_space (hd (two n @ rest))" "two n @ rest \<noteq> []"
    using digit_facts [OF n(1)] by (simp_all add: two_def)
  show "first_digit (two n @ rest) = Some (int (n div 10))" "length (two n) = 2"
    "decimal a (two n) = Some (100 * a + int n)"
    using n by (simp_all add: two_def first_digit_def zdiv_int zmod_int)
qed

lemma getnum_one: "n < 10 \<Longrightarrow> first_digit rest = None \<Longrightarrow> getnum False (char_of (48 + n :: nat) # rest) = Some (int n, rest)"
  by (simp add: getnum_def first_digit_def)

lemma four_facts [simp]:
  assumes "n < 10000"
  shows "length (four n) = 4" "time_atoi (four n) = Some (int n)" "first_digit (four n @ rest) = Some (int (n div 1000))"
    "cutspace (four n @ rest) = four n @ rest"
proof -
  have n: "n div 100 < 100" "n mod 100 < 100" "n div 100 div 10 < 10" "n div 100 div 10 = n div 1000"
    using assms by (simp_all flip: div_mult2_eq)
  have "decimal 0 (four n) = Some (int n)"
    using n by (simp add: four_def decimal_append zdiv_int zmod_int)
  moreover have "time_atoi (four n) = decimal 0 (four n)"
    using digit_facts [OF n(3)] by (simp add: time_atoi_def four_def two_def)
  ultimately show "time_atoi (four n) = Some (int n)" by simp
  show "length (four n) = 4" "cutspace (four n @ rest) = four n @ rest"
    "first_digit (four n @ rest) = Some (int (n div 1000))"
    using n by (simp_all add: four_def)
qed

lemma time_atoi_two [simp]: "n < 100 \<Longrightarrow> time_atoi (two n) = Some (int n)"
  using digit_facts [of "n div 10"] two_facts(5) [of n 0] by (simp add: time_atoi_def two_def)

text \<open>
  A table whose names already differ in their first three letters: each of its names is found at
  its own place.
\<close>

definition apart :: "string list \<Rightarrow> bool" where
  "apart tab \<longleftrightarrow>
     (\<forall>name \<in> set tab. 3 \<le> length name) \<and>
     sorted_wrt (\<lambda>a b. \<not> list_all2 same_letter (take 3 b) (take 3 a)) tab"

lemma same_letter_refl [simp]: "same_letter ch ch"
  by (simp add: same_letter_def)

lemma lookup_apart:
  "apart tab \<Longrightarrow> i < length tab \<Longrightarrow> lookup tab (tab ! i @ rest) = Some (int i, rest)"
proof (induction tab arbitrary: i)
  case (Cons name tab)
  show ?case
  proof (cases i)
    case 0
    then show ?thesis by (simp add: list_all2_refl)
  next
    case (Suc k)
    let ?v = "tab ! k @ rest"
    have k: "k < length tab" "3 \<le> length (tab ! k)" "3 \<le> length name"
      "\<not> list_all2 same_letter (take 3 (tab ! k)) (take 3 name)"
      using Cons.prems Suc by (auto simp: apart_def)
    have "take 3 (take (length name) ?v) = take 3 (tab ! k)" using k by (simp add: min_def)
    with k(4) have "\<not> list_all2 same_letter (take (length name) ?v) name"
      by (metis list_all2_takeI)
    moreover have "apart tab" using Cons.prems by (simp add: apart_def)
    ultimately show ?thesis using Cons.IH [OF _ k(1)] Suc by simp
  qed
qed simp

lemma tables_apart: "apart shortDayNames" "apart longDayNames" "apart shortMonthNames"
  by code_simp+

lemma table_lengths: "length shortDayNames = 7" "length longDayNames = 7" "length shortMonthNames = 12"
  by (simp_all add: shortDayNames_def longDayNames_def shortMonthNames_def)

lemma name_facts [simp]:
  "i < 7 \<Longrightarrow> lookup shortDayNames (shortDayNames ! i @ rest) = Some (int i, rest)"
  "i < 7 \<Longrightarrow> lookup longDayNames (longDayNames ! i @ rest) = Some (int i, rest)"
  "k < 12 \<Longrightarrow> lookup shortMonthNames (shortMonthNames ! k @ rest) = Some (int k, rest)"
  using tables_apart by (simp_all add: lookup_apart table_lengths)

lemma names_no_space: "\<forall>name \<in> set (shortDayNames @ longDayNames @ shortMonthNames). name \<noteq> [] \<and> \<not> is_space (hd name)"
  by code_simp

lemma month_cutspace [simp]: "k < 12 \<Longrightarrow> cutspace (shortMonthNames ! k @ rest) = shortMonthNames ! k @ rest"
proof -
  assume "k < 12"
  then have "shortMonthNames ! k \<in> set (shortDayNames @ longDayNames @ shortMonthNames)"
    using nth_mem [of k shortMonthNames] by (simp add: table_lengths)
  with names_no_space have "shortMonthNames ! k \<noteq> []" "\<not> is_space (hd (shortMonthNames ! k))" by blast+
  then show ?thesis by (cases "shortMonthNames ! k") auto
qed

text \<open>The text between the fields.\<close>

lemma skip_comma [simp]: "skip '', '' (CHR '','' # CHR '' '' # rest) = Some (cutspace rest)"
  by (simp add: is_space_def)

lemma skip_space [simp]: "skip '' '' (CHR '' '' # rest) = Some (cutspace rest)"
  by (simp add: is_space_def)

lemma skip_colon [simp]: "skip '':'' (CHR '':'' # rest) = Some rest" "skip ''-'' (CHR ''-'' # rest) = Some rest"
  by (simp_all add: is_space_def)

lemma skip_gmt [simp]: "skip '' GMT'' '' GMT'' = Some []"
  by (simp add: is_space_def)

lemma no_fraction [simp]: "fraction (CHR '' '' # rest) = (0, CHR '' '' # rest)"
  by (simp add: fraction_def split: list.split)

declare skip.simps(2) [simp del]

lemma clock_read [simp]:
  assumes "h < 24" and "mi < 60" and "s < 60"
  shows "parse_chunks (clock_chunks @ layout) (clock_text h mi s @ CHR '' '' # rest) f =
    parse_chunks layout (CHR '' '' # rest) (f\<lparr>hour := int h, minute_of := int mi, sec := int s, nsec := 0\<rparr>)"
  using assms by (simp add: clock_chunks_def clock_text_def parse_chunk_def)

lemma cutspace_clock [simp]: "h < 24 \<Longrightarrow> cutspace (clock_text h mi s @ rest) = clock_text h mi s @ rest"
  by (simp add: clock_text_def)

lemma date_facts:
  assumes "valid_date wd y m d h mi s"
  shows "wd < 7" "m - 1 < 12" "d < 100" "y < 10000" "h < 24" "mi < 60" "s < 60" "int (m - 1) + 1 = int m"
    "\<not> int d < 1" "\<not> days_in (int m) (int y) < int d"
  using assms by (auto simp: valid_date_def days_in_def split: if_splits)

lemma imf_read:
  assumes "valid_date wd y m d h mi s"
  shows "parse_chunks TimeFormat (imf_date wd y m d h mi s) f =
    Some (f\<lparr>year := int y, month := int m, day := int d, hour := int h, minute_of := int mi, sec := int s, nsec := 0\<rparr>)"
  using date_facts [OF assms] by (simp add: TimeFormat_def imf_date_def parse_chunk_def)

lemma skip_gmt_zone [simp]: "parse_chunk stdTZ ''GMT'' f = Some ([], f\<lparr>zone_name := ''GMT''\<rparr>)"
  by (simp add: parse_chunk_def parseTimeZone_def parseSignedOffset_def)

lemma is_space_G [simp]: "\<not> is_space (CHR ''G'')"
  by (simp add: is_space_def)

lemma two_digit_year:
  assumes "1969 \<le> y" and "y \<le> 2068"
  shows "(if 69 \<le> int (y mod 100) then int (y mod 100) + 1900 else int (y mod 100) + 2000) = int y"
proof (cases "y < 2000")
  case True
  with assms(1) have "y mod 100 = y - 1900" by (intro mod_nat_eqI) auto
  with True assms(1) show ?thesis by simp
next
  case False
  with assms(2) have "y mod 100 = y - 2000" by (intro mod_nat_eqI) auto
  with False assms(2) show ?thesis by simp
qed

lemma rfc850_read:
  assumes "valid_date wd y m d h mi s" and "1969 \<le> y" and "y \<le> 2068"
  shows "parse_chunks RFC850 (rfc850_date wd y m d h mi s) f =
    Some (f\<lparr>year := int y, month := int m, day := int d, hour := int h, minute_of := int mi, sec := int s, nsec := 0,
      zone_name := ''GMT''\<rparr>)"
proof -
  define n where "n = y mod 100"
  have "(if 69 \<le> int n then int n + 1900 else int n + 2000) = int y" "n < 100"
    unfolding n_def by (rule two_digit_year [OF assms(2,3)]) simp
  then have "parse_chunk stdYear (two n @ rest) g = Some (rest, g\<lparr>year := int y\<rparr>)" for rest g
    by (simp add: parse_chunk_def)
  then show ?thesis
    using date_facts [OF assms(1)] unfolding RFC850_def rfc850_date_def n_def [symmetric]
    by (simp add: parse_chunk_def [of "Literal p" for p] parse_chunk_def [of stdLongWeekDay]
        parse_chunk_def [of stdZeroDay] parse_chunk_def [of stdMonth])
qed

lemma is_space_blank [simp]: "is_space (CHR '' '')"
  by (simp add: is_space_def)

lemma asctime_day [simp]:
  "d < 10 \<Longrightarrow> skip '' '' (CHR '' '' # CHR '' '' # char_of (48 + d :: nat) # rest) = Some (char_of (48 + d) # rest)"
  "d < 10 \<Longrightarrow> \<not> is_space (char_of (48 + d :: nat))"
  using digit_facts by simp_all

lemma asctime_read:
  assumes "valid_date wd y m d h mi s"
  shows "parse_chunks ANSIC (asctime_date wd y m d h mi s) f =
    Some (f\<lparr>year := int y, month := int m, day := int d, hour := int h, minute_of := int mi, sec := int s, nsec := 0\<rparr>)"
  using date_facts [OF assms] four_facts(3,4) [of y "[]"] two_facts(6) [of d]
  by (cases "d < 10") (simp_all add: ANSIC_def asctime_date_def parse_chunk_def getnum_one first_digit_def [of "CHR '' '' # r" for r]
      digit_val_def [of "CHR '' ''"])

text \<open>No date is read in a layout tried before its own.\<close>

lemma day_table:
  "\<forall>i \<in> {0..<7}. length (shortDayNames ! i) = 3 \<and>
     (case drop 3 (longDayNames ! i) of [] \<Rightarrow> False | ch # t \<Rightarrow> ch \<noteq> CHR '','') \<and>
     take 3 (longDayNames ! i) = shortDayNames ! i"
  by code_simp

lemma skip_comma_fails: "ch \<noteq> CHR '','' \<Longrightarrow> skip '', '' (ch # rest) = None"
  by (simp add: skip.simps(2) is_space_def)

lemma rfc850_not_imf:
  assumes "wd < 7"
  shows "parse_chunks TimeFormat (rfc850_date wd y m d h mi s) f = None"
proof -
  have "case drop 3 (longDayNames ! wd) of [] \<Rightarrow> False | ch # t \<Rightarrow> ch \<noteq> CHR '',''"
    and short: "take 3 (longDayNames ! wd) = shortDayNames ! wd"
    using day_table assms by simp_all
  then obtain ch t where t: "drop 3 (longDayNames ! wd) = ch # t" "ch \<noteq> CHR '',''"
    by (cases "drop 3 (longDayNames ! wd)") simp_all
  with short have "longDayNames ! wd = shortDayNames ! wd @ ch # t" by (metis append_take_drop_id)
  with t assms show ?thesis by (simp add: TimeFormat_def rfc850_date_def parse_chunk_def skip_comma_fails)
qed

lemma asctime_not_imf:
  assumes "wd < 7"
  shows "parse_chunks TimeFormat (asctime_date wd y m d h mi s) f = None"
  using assms by (simp add: TimeFormat_def asctime_date_def parse_chunk_def skip_comma_fails)

lemma lookup_no_match:
  assumes "\<forall>name \<in> set tab. 3 < length name \<and> \<not> same_letter ch (name ! 3)" and "value ! 3 = ch"
  shows "lookup tab value = None"
  using assms
proof (induction tab)
  case (Cons name tab)
  have "same_letter (value ! 3) (name ! 3)" if "list_all2 same_letter (take (length name) value) name"
    using list_all2_nthD2 [OF that, of 3] Cons.prems by simp
  with Cons.prems have "\<not> list_all2 same_letter (take (length name) value) name" by auto
  with Cons show ?case by simp
qed simp

lemma long_days_differ: "\<forall>name \<in> set longDayNames. 3 < length name \<and> \<not> same_letter (CHR '' '') (name ! 3)"
  by code_simp

lemma asctime_not_rfc850:
  assumes "wd < 7"
  shows "parse_chunks RFC850 (asctime_date wd y m d h mi s) f = None"
proof -
  have "asctime_date wd y m d h mi s ! 3 = CHR '' ''"
    using day_table assms by (simp add: asctime_date_def nth_append)
  then have "lookup longDayNames (asctime_date wd y m d h mi s) = None"
    by (rule lookup_no_match [OF long_days_differ])
  then show ?thesis by (simp add: RFC850_def parse_chunk_def)
qed

definition date_instant :: "nat \<Rightarrow> nat \<Rightarrow> nat \<Rightarrow> nat \<Rightarrow> nat \<Rightarrow> nat \<Rightarrow> gotime" where
  "date_instant y m d h mi s = time_Date (int y) (int m) (int d) (int h) (int mi) (int s) 0"

lemma http_dates:
  assumes "valid_date wd y m d h mi s"
  shows "ParseTime zone_offset (imf_date wd y m d h mi s) = Some (date_instant y m d h mi s)"
    and "1969 \<le> y \<Longrightarrow> y \<le> 2068 \<Longrightarrow>
      ParseTime zone_offset (rfc850_date wd y m d h mi s) = Some (date_instant y m d h mi s)"
    and "ParseTime zone_offset (asctime_date wd y m d h mi s) = Some (date_instant y m d h mi s)"
proof -
  note facts = date_facts [OF assms]
  have ok: "\<not> (int d < 1 \<or> days_in (int m) (int y) < int d)" using facts by simp
  show "ParseTime zone_offset (imf_date wd y m d h mi s) = Some (date_instant y m d h mi s)"
    using ok by (simp add: ParseTime_def time_Parse_def imf_read [OF assms] date_instant_def no_fields_def)
  show "ParseTime zone_offset (rfc850_date wd y m d h mi s) = Some (date_instant y m d h mi s)"
    if "1969 \<le> y" "y \<le> 2068"
    using ok by (simp add: ParseTime_def time_Parse_def rfc850_not_imf [OF facts(1)] rfc850_read [OF assms that]
        date_instant_def no_fields_def)
  show "ParseTime zone_offset (asctime_date wd y m d h mi s) = Some (date_instant y m d h mi s)"
    using ok by (simp add: ParseTime_def time_Parse_def asctime_not_imf [OF facts(1)] asctime_not_rfc850 [OF facts(1)]
        asctime_read [OF assms] date_instant_def no_fields_def)
qed

section \<open>Digits are no date\<close>

lemma names_no_digit:
  "\<forall>name \<in> set (shortDayNames @ longDayNames). 0 < length name \<and> 97 \<le> lower_byte (hd name) \<and> \<not> is_digit (hd name)"
  by code_simp

lemma digit_no_letter: "is_digit ch \<Longrightarrow> 97 \<le> lower_byte a \<Longrightarrow> \<not> is_digit a \<Longrightarrow> \<not> same_letter ch a"
proof
  assume "is_digit ch" "97 \<le> lower_byte a" "\<not> is_digit a" "same_letter ch a"
  then have b: "48 \<le> (of_char ch :: int)" "(of_char ch :: int) \<le> 57" "97 \<le> lower_byte ch"
    by (auto simp: is_digit_def digit_val_def Let_def same_letter_def split: if_splits)
  have "\<forall>x \<in> set [48..57]. (x :: int) OR 32 \<le> 57" by code_simp
  then have "(of_char ch :: int) OR 32 \<le> 57" using b(1,2) unfolding set_upto by (simp only: atLeastAtMost_iff Ball_def)
  with b show False by (simp add: lower_byte_def)
qed

lemma lookup_digit:
  "(\<forall>name \<in> set tab. 0 < length name \<and> 97 \<le> lower_byte (hd name) \<and> \<not> is_digit (hd name)) \<Longrightarrow> is_digit ch \<Longrightarrow>
     lookup tab (ch # rest) = None"
proof (induction tab)
  case (Cons name tab)
  then obtain a t where "name = a # t" "\<not> same_letter ch a"
    using digit_no_letter by (cases name) auto
  with Cons show ?case by simp
qed simp

lemma ParseTime_digits: "all_digits s \<Longrightarrow> ParseTime zone_offset s = None"
proof (cases s)
  case Nil
  then show ?thesis
    by (simp add: ParseTime_def time_Parse_def TimeFormat_def RFC850_def ANSIC_def parse_chunk_def
        shortDayNames_def longDayNames_def)
next
  case (Cons ch rest)
  moreover assume "all_digits s"
  ultimately have "is_digit ch" by (simp add: all_digits_def is_digit_def)
  then have "lookup shortDayNames (ch # rest) = None" "lookup longDayNames (ch # rest) = None"
    using names_no_digit by (simp_all add: lookup_digit)
  with Cons show ?thesis
    by (simp add: ParseTime_def time_Parse_def TimeFormat_def RFC850_def ANSIC_def parse_chunk_def)
qed

section \<open>Dates as headers\<close>

text \<open>A date starts with a letter and has no space at either end.\<close>

definition printable :: "char \<Rightarrow> bool" where
  "printable ch \<longleftrightarrow> 33 \<le> (of_char ch :: nat) \<and> (of_char ch :: nat) \<le> 126"

lemma TrimSpace_printable:
  assumes "s \<noteq> []" and "printable (hd s)" and "printable (last s)"
  shows "TrimSpace s = s"
proof -
  have "\<forall>r \<in> set space_runes. r \<noteq> [] \<and> \<not> printable (hd r) \<and> \<not> printable (hd (rev r))"
    by (simp add: space_runes_def printable_def)
  with assms have "\<forall>r \<in> set space_runes. r \<noteq> [] \<and> hd r \<noteq> hd s \<and> hd (rev r) \<noteq> hd (rev s)"
    by (auto simp: hd_rev)
  then have "strip_all space_runes s = s" "strip_all (map rev space_runes) (rev s) = rev s"
    by (auto intro!: strip_all_stop)
  then show ?thesis by (simp add: TrimSpace_def)
qed

lemma Atoi_letter: "s \<noteq> [] \<Longrightarrow> 97 \<le> lower_byte (hd s) \<Longrightarrow> \<not> is_digit (hd s) \<Longrightarrow> Atoi s = None"
  by (cases s) (auto simp: Atoi_def is_digit_def digits_def in_int64_def lower_byte_def)

lemma names_printable:
  "\<forall>name \<in> set (shortDayNames @ longDayNames). 0 < length name \<and> printable (hd name)" by code_simp

lemma last_chars:
  "last (imf_date wd y m d h mi s) = CHR ''T''" "last (rfc850_date wd y m d h mi s) = CHR ''T''"
  "last (asctime_date wd y m d h mi s) = char_of (48 + y mod 100 mod 10)"
  by (simp_all add: imf_date_def rfc850_date_def asctime_date_def four_def two_def)

lemma printable_chars: "printable (CHR ''T'')" "n < 10 \<Longrightarrow> printable (char_of (48 + n :: nat))"
  by (simp_all add: printable_def)

lemma date_headers:
  assumes "valid_date wd y m d h mi s" and "hdr \<in> {imf_date wd y m d h mi s, rfc850_date wd y m d h mi s, asctime_date wd y m d h mi s}"
  shows "TrimSpace hdr = hdr" "Atoi hdr = None" "hdr \<noteq> []"
proof -
  have wd: "wd < 7" using assms(1) by (simp add: valid_date_def)
  obtain name rest where split: "hdr = name @ rest" and name: "name \<in> set (shortDayNames @ longDayNames)"
    using assms(2) wd by (auto simp: imf_date_def rfc850_date_def asctime_date_def table_lengths)
  have last: "printable (last hdr)"
    using assms(2) printable_chars(2) [of "y mod 100 mod 10"] by (auto simp: last_chars printable_chars(1))
  have head: "name \<noteq> []" "hd hdr = hd name" using name names_printable split by auto
  with split last name names_printable show "TrimSpace hdr = hdr"
    by (intro TrimSpace_printable) auto
  show "hdr \<noteq> []" using split head by simp
  then show "Atoi hdr = None"
    using head name names_no_digit by (intro Atoi_letter) auto
qed

end
