(* ===== verification/Retry_After.thy ===== *)
theory Retry_After
  imports Token_Bucket Go_Date
begin

text \<open>
  The \<open>Retry-After\<close> side of circuitbreaker.go: reading the header, the global gate that a 429 or 503
  arms, and the wait at that gate. The date form of the header is read by
  \<open>ParseTime\<close> of Go\_Date; \<open>zone_offset\<close> is the zone table of the process, which matters only for a
  date in the RFC 850 form with a zone other than GMT or UTC. Strings are lists of bytes, as in Go.
\<close>

section \<open>Reading the header\<close>

definition retryAfterStatus :: "int \<Rightarrow> bool" where
  "retryAfterStatus code \<longleftrightarrow> code = StatusTooManyRequests \<or> code = StatusServiceUnavailable"

text \<open>\<open>None\<close> stands for the result \<open>(0, false)\<close>.\<close>

definition parseRetryAfter :: "(string \<Rightarrow> gotime \<Rightarrow> int) \<Rightarrow> string \<Rightarrow> gotime \<Rightarrow> duration option" where
  "parseRetryAfter zone_offset header now =
     (let h = TrimSpace header
      in if h = '''' then None
         else case Atoi h of
             Some secs \<Rightarrow>
               if secs < 0 then None
               else if max_int64 sdiv second < secs then Some max_int64
               else Some (wrap64 (secs * second))
           | None \<Rightarrow>
               (case ParseTime zone_offset h of
                  Some t \<Rightarrow> let d = time_sub t now in Some (if d < 0 then 0 else d)
                | None \<Rightarrow> None))"

section \<open>The gate\<close>

text \<open>
  The loop of \<open>extendRetryAfterGate\<close>: \<open>loaded\<close> is the value it has loaded; the list gives, for each
  round, the value the cell holds when the \<open>CompareAndSwap\<close> runs and the value the next \<open>Load\<close>
  sees. When the list is used up there is no further interference. The result is the value in
  the cell when the loop returns.
\<close>

fun gate_loop :: "int \<Rightarrow> (int \<times> int) list \<Rightarrow> int \<Rightarrow> int" where
  "gate_loop n [] loaded = (if n \<le> loaded then loaded else n)"
| "gate_loop n ((at_cas, next_load) # rounds) loaded =
     (if n \<le> loaded then loaded else if at_cas = loaded then n else gate_loop n rounds next_load)"

text \<open>The loop without interference, on the breaker.\<close>

definition extendRetryAfterGate :: "gotime \<Rightarrow> circuitBreaker \<Rightarrow> circuitBreaker" where
  "extendRetryAfterGate until cb =
     (let n = unix_nano until
      in cb\<lparr>retryAfterUntil := gate_loop n [] (retryAfterUntil cb)\<rparr>)"

text \<open>
  One pass through the loop of \<open>waitRetryAfterGate\<close>: the gate is open, or the goroutine sleeps for
  a duration in the \<open>select\<close>; its timer arm goes back to the top.
\<close>

datatype gate_result = GateOpen | GateSleep duration | GateFail go_error | GateBlock

definition waitRetryAfterGate :: "gotime \<Rightarrow> circuitBreaker \<Rightarrow> gate_result" where
  "waitRetryAfterGate now cb =
     (if retryAfterMax cb \<le> 0 then GateOpen
      else let d = time_until (time_unix_0 (retryAfterUntil cb)) now
           in if d \<le> 0 then GateOpen else GateSleep d)"

definition waitRetryAfterGate_select ::
    "select_arm \<Rightarrow> go_context \<Rightarrow> gotime \<Rightarrow> gotime \<Rightarrow> circuitBreaker \<Rightarrow> gate_result" where
  "waitRetryAfterGate_select arm ctx wake now cb =
     (case arm of
        ArmCtx \<Rightarrow> (case ctx_err ctx of Some e \<Rightarrow> GateFail e | None \<Rightarrow> GateBlock)
      | ArmStop \<Rightarrow> if tokenStop cb = Some True then GateFail ErrStopped else GateBlock
      | ArmTimer \<Rightarrow> if wake \<le> now then waitRetryAfterGate now cb else GateBlock
      | _ \<Rightarrow> GateBlock)"

text \<open>\<open>drainAndClose\<close>, as far as the context of the body is concerned.\<close>

definition drainAndClose :: "response option \<Rightarrow> go_context \<Rightarrow> go_context" where
  "drainAndClose resp ctx =
     (case resp of
        None \<Rightarrow> ctx
      | Some r \<Rightarrow> (case Body r of None \<Rightarrow> ctx | Some b \<Rightarrow> body_Close b ctx))"

section \<open>Decimal headers\<close>

lemma parse_dec_text:
  "parseRetryAfter zone_offset (dec_text n) now =
     (if int n * second \<le> max_int64 then Some (int n * second)
      else if int n \<le> max_int64 then Some max_int64
      else None)"
proof -
  have "max_int64 sdiv second = 9223372036"
    by (simp add: signed_divide_int_def)
  moreover have "wrap64 (int n * second) = int n * second" if "int n \<le> 9223372036"
    using that by (intro wrap64_in_range) auto
  moreover have "int n * second \<le> max_int64 \<longleftrightarrow> int n \<le> 9223372036" by arith
  ultimately show ?thesis
    by (auto simp: parseRetryAfter_def Let_def TrimSpace_digits ParseTime_digits dec_text_facts Atoi_dec_text
        split: option.splits)
qed

section \<open>Rounds of the compare-and-swap\<close>

text \<open>The values the cell takes, in the order the loop meets them.\<close>

definition cell_values :: "(int \<times> int) list \<Rightarrow> int list" where
  "cell_values rounds = concat (map (\<lambda>(a, b). [a, b]) rounds)"

lemma gate_loop_linear:
  "sorted (loaded # cell_values rounds) \<Longrightarrow>
   (\<exists>v \<in> set (loaded # cell_values rounds). gate_loop n rounds loaded = max n v) \<and>
   loaded \<le> gate_loop n rounds loaded \<and> n \<le> gate_loop n rounds loaded"
proof (induction n rounds loaded rule: gate_loop.induct)
  case (1 n loaded)
  then show ?case by (simp add: max_def cell_values_def)
next
  case (2 n at_cas next_load rounds loaded)
  show ?case
  proof (cases "n \<le> loaded \<or> at_cas = loaded")
    case True
    then show ?thesis by (auto simp: max_def)
  next
    case False
    have "sorted (next_load # cell_values rounds)"
      using "2.prems" by (simp add: cell_values_def)
    moreover have "loaded \<le> next_load"
      using "2.prems" by (simp add: cell_values_def)
    ultimately show ?thesis
      using "2.IH" False by (fastforce simp: cell_values_def)
  qed
qed

lemma extendRetryAfterGate_max:
  "retryAfterUntil (extendRetryAfterGate until cb) = max (unix_nano until) (retryAfterUntil cb)"
  by (auto simp: extendRetryAfterGate_def Let_def max_def)

lemma extendRetryAfterGate_frame [frame_simps]:
  "sem (extendRetryAfterGate until cb) = sem cb" "tokens (extendRetryAfterGate until cb) = tokens cb"
  "state (extendRetryAfterGate until cb) = state cb" "metrics (extendRetryAfterGate until cb) = metrics cb"
  "tokenStop (extendRetryAfterGate until cb) = tokenStop cb"
  "stopOnce (extendRetryAfterGate until cb) = stopOnce cb"
  "retryAfterMax (extendRetryAfterGate until cb) = retryAfterMax cb"
  "MaxRetries (extendRetryAfterGate until cb) = MaxRetries cb"
  by (simp_all add: extendRetryAfterGate_def Let_def)

section \<open>Properties\<close>

text \<open>The seconds form of the header is read exactly: a decimal number of seconds gives that many
  nanoseconds, saturated at the largest duration when the product leaves 64 bits.\<close>

theorem retry_after_seconds_read:
  assumes "int n \<le> max_int64"
  shows "parseRetryAfter zone_offset (dec_text n) now = Some (min max_int64 (int n * second))"
  using assms by (simp add: parse_dec_text)

theorem retry_after_seconds_read_witness:
  "parseRetryAfter (\<lambda>_ _. 0) ''120'' 0 = Some (120 * second) \<and>
   parseRetryAfter (\<lambda>_ _. 0) ''10000000000'' 0 = Some max_int64"
proof -
  have t: "dec_text 120 = ''120''" "dec_text 10000000000 = ''10000000000''"
    by (simp_all add: dec_text.simps char_of_def bit_simps)
  show ?thesis
    using retry_after_seconds_read [of 120 "\<lambda>_ _. 0" 0] retry_after_seconds_read [of 10000000000 "\<lambda>_ _. 0" 0]
    unfolding t by simp
qed

text \<open>C28: The date form of the header is read exactly: a valid date, in any of the three formats HTTP
  allows, gives the time left until the instant it names, and zero when it is in the past.\<close>

theorem retry_after_date_read:
  assumes "valid_date wd y m d h mi s"
  shows "parseRetryAfter zone_offset (imf_date wd y m d h mi s) now =
      Some (max 0 (time_sub (date_instant y m d h mi s) now)) \<and>
    parseRetryAfter zone_offset (asctime_date wd y m d h mi s) now =
      Some (max 0 (time_sub (date_instant y m d h mi s) now)) \<and>
    (1969 \<le> y \<and> y \<le> 2068 \<longrightarrow> parseRetryAfter zone_offset (rfc850_date wd y m d h mi s) now =
      Some (max 0 (time_sub (date_instant y m d h mi s) now)))"
proof -
  have read: "parseRetryAfter zone_offset hdr now = Some (max 0 (time_sub t now))"
    if "hdr \<in> {imf_date wd y m d h mi s, rfc850_date wd y m d h mi s, asctime_date wd y m d h mi s}"
      and "ParseTime zone_offset hdr = Some t" for hdr t
    using date_headers [OF assms that(1)] that(2) by (simp add: parseRetryAfter_def Let_def max_def)
  show ?thesis using http_dates [OF assms, of zone_offset] by (intro conjI impI read) auto
qed

theorem retry_after_date_read_witness:
  "imf_date 3 2015 10 21 7 28 0 = ''Wed, 21 Oct 2015 07:28:00 GMT'' \<and>
   parseRetryAfter (\<lambda>_ _. 0) ''Wed, 21 Oct 2015 07:28:00 GMT'' (1445412450 * second) = Some (30 * second)"
proof -
  have t: "imf_date 3 2015 10 21 7 28 0 = ''Wed, 21 Oct 2015 07:28:00 GMT''" by code_simp
  have "date_instant 2015 10 21 7 28 0 = 1445412480 * second" by code_simp
  moreover have "valid_date 3 2015 10 21 7 28 0" by code_simp
  ultimately show ?thesis
    using retry_after_date_read [of 3 2015 10 21 7 28 0 "\<lambda>_ _. 0" "1445412450 * second"]
    unfolding t by (simp add: time_sub_def sat64_def)
qed

text \<open>Every delay read from a header, in either form and for every header, is a duration between
  zero and the largest one, so the gate is never asked to end in the past.\<close>

lemma retry_after_delay_bounds:
  assumes "parseRetryAfter zone_offset header now = Some d"
  shows "0 \<le> d \<and> d \<le> max_int64"
proof -
  have "max_int64 sdiv second = 9223372036"
    by (simp add: signed_divide_int_def)
  moreover have "wrap64 (secs * second) = secs * second" if "0 \<le> secs" "secs \<le> 9223372036" for secs
    using that by (intro wrap64_in_range) auto
  moreover have "time_sub t now \<le> max_int64" for t
    by (simp add: time_sub_def sat64_def)
  ultimately show ?thesis
    using assms by (auto simp: parseRetryAfter_def Let_def split: if_splits option.splits)
qed

text \<open>C40: A decimal header above the range of \<open>int64\<close> is not saturated: it does not parse as a number
  and it is no date, so the response is treated as if it had no header at all and the
  gate is not armed.\<close>

theorem retry_after_above_int64_ignored:
  assumes "max_int64 < int n"
  shows "parseRetryAfter zone_offset (dec_text n) now = None"
  using assms by (simp add: parse_dec_text)

theorem retry_after_above_int64_ignored_witness:
  "parseRetryAfter (\<lambda>_ _. 0) (dec_text 9223372036854775808) 0 = None \<and>
   parseRetryAfter (\<lambda>_ _. 0) (dec_text 9223372036854775807) 0 = Some max_int64"
  using retry_after_above_int64_ignored [of 9223372036854775808 "\<lambda>_ _. 0" 0] by (simp add: parse_dec_text)

text \<open>Once a response has extended the gate, no caller passes before the requested instant: the
  gate is open exactly from the latest of the requested and the earlier deadline on, and before
  that the sleep lasts exactly the time left, as long as the instant fits in 64 bits of
  nanoseconds.\<close>

theorem gate_holds_until_deadline:
  assumes "0 < retryAfterMax cb" and "int64 until" and "int64 (retryAfterUntil cb)" and "0 \<le> t"
  shows "waitRetryAfterGate t (extendRetryAfterGate until cb) =
    (if max until (retryAfterUntil cb) \<le> t then GateOpen
     else GateSleep (max until (retryAfterUntil cb) - t))"
proof -
  let ?m = "max until (retryAfterUntil cb)"
  have "time_until ?m t = ?m - t" if "t < ?m"
    using assms that by (simp add: time_until_def time_sub_def int64_def sat64_in_range max_def split: if_splits)
  then show ?thesis
    using assms by (auto simp: waitRetryAfterGate_def Let_def extendRetryAfterGate_max frame_simps time_unix_0_def)
qed

theorem gate_holds_until_deadline_witness:
  "waitRetryAfterGate 70 (extendRetryAfterGate 100 (WithRetryAfter 0 (newCircuitBreaker ''g'' 1 0 0 0))) = GateSleep 30 \<and>
   waitRetryAfterGate 100 (extendRetryAfterGate 100 (WithRetryAfter 0 (newCircuitBreaker ''g'' 1 0 0 0))) = GateOpen"
  using gate_holds_until_deadline [of "WithRetryAfter 0 (newCircuitBreaker ''g'' 1 0 0 0)" 100 70]
    gate_holds_until_deadline [of "WithRetryAfter 0 (newCircuitBreaker ''g'' 1 0 0 0)" 100 100]
  by (simp add: WithRetryAfter_def newCircuitBreaker_def int64_def)



text \<open>When the requested instant lies beyond the largest \<open>int64\<close> of nanoseconds, \<open>UnixNano\<close> wraps
  to a negative number and the extension is lost: the gate stays as it was. \<open>WithRetryAfter\<close> does
  not bound its limit, so a limit of some 236 years or more lets a large header do this.\<close>

theorem gate_wraps_open:
  assumes "max_int64 < time_add now d" and "now \<le> max_int64" and "0 \<le> d" and "d \<le> max_int64" and "0 \<le> retryAfterUntil cb"
  shows "extendRetryAfterGate (time_add now d) cb = cb"
proof -
  have "(now + d + 9223372036854775808) mod 18446744073709551616 = now + d + 9223372036854775808 - 18446744073709551616"
    using mod_pos_pos_trivial [of "now + d - 9223372036854775808" 18446744073709551616]
      minus_mod_self2 [of "now + d + 9223372036854775808" 18446744073709551616] assms
    by (simp add: time_add_def)
  then have "unix_nano (time_add now d) < 0"
    using assms by (simp add: unix_nano_def wrap64_def time_add_def)
  with assms(5) show ?thesis by (simp add: extendRetryAfterGate_def Let_def)
qed

theorem gate_wraps_open_witness:
  "waitRetryAfterGate 1750000000000000000 (extendRetryAfterGate (time_add 1750000000000000000 max_int64)
     (WithRetryAfter max_int64 (newCircuitBreaker ''g'' 1 0 0 0))) = GateOpen"
proof -
  have "extendRetryAfterGate (time_add 1750000000000000000 max_int64) (WithRetryAfter max_int64 (newCircuitBreaker ''g'' 1 0 0 0))
      = WithRetryAfter max_int64 (newCircuitBreaker ''g'' 1 0 0 0)"
    by (rule gate_wraps_open) (simp_all add: time_add_def WithRetryAfter_def newCircuitBreaker_def)
  then show ?thesis
    by (simp add: waitRetryAfterGate_def WithRetryAfter_def newCircuitBreaker_def time_unix_0_def)
qed

end
