(* ===== verification/Call.thy ===== *)
theory Call
  imports Retry_After
begin

text \<open>
  A call of \<open>Do\<close> (circuitbreaker.go) as a machine. The program counter names the next piece of the
  source; a piece ends where the goroutine can block or where another goroutine can come between
  two accesses to the shared breaker. Accesses in a row that only add to counters (two metrics
  records, or arming the gate and a record) are taken together, because no other step but a reading
  of the metrics could tell them apart. One definition per piece says what it does to the breaker
  and to the call; \<open>do_step\<close> puts them together. The answers of the transport and of \<open>GetBody\<close>,
  and the arm a \<open>select\<close> takes, are inputs. The deferred functions run in reverse order of their
  registration: release the slot, report to the state machine, cancel the context.
\<close>

section \<open>Data\<close>

text \<open>What the process gives a step: the clock, \<open>rand.N\<close> and the table of time zones.\<close>

record env =
  clock :: gotime
  rand_N :: "int \<Rightarrow> int"
  zone_offset :: "string \<Rightarrow> gotime \<Rightarrow> int"

datatype reply = Answer response | TransportError go_error | TransportPanic string

datatype rewind_result = FreshBody | RewindError go_error | RewindPanic string

datatype input = Run | Arm select_arm | Reply reply | Rewind rewind_result

datatype do_result = Returned "response option" "go_error option" | Panicked string

datatype pc =
    AtAllow
  | AtSem
  | AtLoop int
  | AtGate int gotime
  | AtGateSleep int gotime gotime
  | AtToken int gotime
  | AtTokenWait int gotime
  | AtSend int gotime
  | AtRewind int gotime
  | AtTransport int gotime
  | AtRetryAfter int gotime response
  | AtPause int gotime
  | AtRelease do_result
  | AtReport do_result
  | AtCancel do_result
  | Done do_result

text \<open>
  What a call has done so far, in order, for the statements about it; \<open>Raised\<close> is a panic of \<open>GetBody\<close>.
\<close>

datatype call_event = Sent | Rewound | Raised string | Got reply | Drained | Recorded metric_kind

text \<open>
  The local state: the request with its current context, whether the context is one of our own
  that must be cancelled, \<open>lastErr\<close>, the ticket of the state machine while its report is due, and
  whether the slot of the semaphore must be released.
\<close>

record call =
  c_req :: request
  c_url :: url
  c_ctx :: go_context
  c_cancel :: bool
  c_lastErr :: "go_error option"
  c_ticket :: "(bool \<times> 64 word) option"
  c_slot :: bool
  c_pc :: pc
  c_log :: "call_event list"

definition call_endpoint :: "call \<Rightarrow> string" where
  "call_endpoint c = (if Path (c_url c) = '''' then ''/'' else Path (c_url c))"

definition goto :: "pc \<Rightarrow> call \<Rightarrow> call" where
  "goto p c = c\<lparr>c_pc := p\<rparr>"

definition log_event :: "call_event \<Rightarrow> call \<Rightarrow> call" where
  "log_event e c = c\<lparr>c_log := c_log c @ [e]\<rparr>"

text \<open>A \<open>return\<close>, and a panic: both go on with the deferred functions.\<close>

definition return_with :: "response option \<Rightarrow> go_error option \<Rightarrow> call \<Rightarrow> call" where
  "return_with r e c = goto (AtRelease (Returned r e)) c"

definition panic_with :: "string \<Rightarrow> call \<Rightarrow> call" where
  "panic_with m c = goto (AtRelease (Panicked m)) c"

text \<open>
  A metrics record at the current time, and what follows it. A missing aggregate entry is a nil
  dereference.
\<close>

definition recorded ::
    "metric_kind \<Rightarrow> gotime \<Rightarrow> env \<Rightarrow> (circuitBreaker \<times> call \<Rightarrow> circuitBreaker \<times> call) \<Rightarrow>
     circuitBreaker \<times> call \<Rightarrow> circuitBreaker \<times> call" where
  "recorded k start env andThen s =
     (case s of (cb, c) \<Rightarrow>
        case record_kind k (Host (c_url c)) (call_endpoint c) start (clock env) (metrics cb) of
          None \<Rightarrow> (cb, panic_with ''nil pointer dereference'' c)
        | Some m \<Rightarrow> andThen (cb\<lparr>metrics := m\<rparr>, log_event (Recorded k) c))"

section \<open>Entering\<close>

text \<open>
  The head of \<open>Do\<close>, up to the registration of the first deferred function: an error for a
  malformed request, the default client, the default timeout.
\<close>

definition Do_enter ::
    "env \<Rightarrow> circuitBreaker \<Rightarrow> request option \<Rightarrow> client option \<Rightarrow> do_result + call" where
  "Do_enter env cb rq cl =
     (case rq of
        None \<Rightarrow> Inl (Returned None (Some (Plain ''circuitbreaker: nil *http.Request or nil request URL'')))
      | Some r \<Rightarrow>
          (case URL r of
             None \<Rightarrow> Inl (Returned None (Some (Plain ''circuitbreaker: nil *http.Request or nil request URL'')))
           | Some u \<Rightarrow>
               let cl = (case cl of None \<Rightarrow> http_DefaultClient | Some cl \<Rightarrow> cl);
                   bounded = (0 < defaultTimeout cb \<and> client_Timeout cl = 0 \<and> ctx_deadline (Ctx r) = None)
               in Inr \<lparr>c_req = r, c_url = u,
                    c_ctx = (if bounded then with_timeout (clock env) (defaultTimeout cb) (Ctx r) else Ctx r),
                    c_cancel = bounded, c_lastErr = None, c_ticket = None, c_slot = False,
                    c_pc = AtAllow, c_log = []\<rparr>))"

section \<open>Steps\<close>

text \<open>Each step gives \<open>None\<close> when the input does not fit or the goroutine is blocked.\<close>

definition step_allow :: "env \<Rightarrow> circuitBreaker \<Rightarrow> call \<Rightarrow> circuitBreaker \<times> call" where
  "step_allow env cb c =
     (case state cb of
        None \<Rightarrow> (cb, goto AtSem c)
      | Some b \<Rightarrow>
          (case allow (clock env) b of
             (Inl allowErr, b') \<Rightarrow> (cb\<lparr>state := Some b'\<rparr>, return_with None (Some allowErr) c)
           | (Inr ticket, b') \<Rightarrow> (cb\<lparr>state := Some b'\<rparr>, goto AtSem (c\<lparr>c_ticket := Some ticket\<rparr>))))"

definition step_sem :: "input \<Rightarrow> circuitBreaker \<Rightarrow> call \<Rightarrow> (circuitBreaker \<times> call) option" where
  "step_sem i cb c =
     (case sem cb of
        None \<Rightarrow> if i = Run then Some (cb, goto (AtLoop 0) c) else None
      | Some s \<Rightarrow>
          if i = Arm ArmSlot then
            map_option (\<lambda>s'. (cb\<lparr>sem := Some s'\<rparr>, goto (AtLoop 0) (c\<lparr>c_slot := True\<rparr>))) (try_send s)
          else if i = Arm ArmCtx then
            map_option (\<lambda>e. (cb, return_with None (Some e) c)) (ctx_err (c_ctx c))
          else None)"

text \<open>After the last attempt: the exhaustion error around the last failure.\<close>

definition retries_exhausted :: "call \<Rightarrow> call" where
  "retries_exhausted c = return_with None (Some (RetriesExhausted (c_lastErr c))) c"

text \<open>The head of the retry loop.\<close>

definition step_loop :: "env \<Rightarrow> int \<Rightarrow> circuitBreaker \<Rightarrow> call \<Rightarrow> circuitBreaker \<times> call" where
  "step_loop env attempt cb c =
     (if attempt \<le> MaxRetries cb then (cb, goto (AtGate attempt (clock env)) c)
      else (cb, retries_exhausted c))"

text \<open>A failed wait, at the gate or for a token.\<close>

definition wait_failed :: "env \<Rightarrow> gotime \<Rightarrow> go_error \<Rightarrow> circuitBreaker \<Rightarrow> call \<Rightarrow> circuitBreaker \<times> call" where
  "wait_failed env start err cb c =
     recorded Failure start env
       (\<lambda>s. if \<not> errors_Is err ErrStopped
            then recorded TokenCancel start env (\<lambda>(cb, c). (cb, return_with None (Some err) c)) s
            else (fst s, return_with None (Some err) (snd s)))
       (cb, c)"

definition gate_outcome ::
    "env \<Rightarrow> int \<Rightarrow> gotime \<Rightarrow> gate_result \<Rightarrow> circuitBreaker \<Rightarrow> call \<Rightarrow> (circuitBreaker \<times> call) option" where
  "gate_outcome env attempt start g cb c =
     (case g of
        GateOpen \<Rightarrow> Some (cb, goto (AtToken attempt start) c)
      | GateSleep d \<Rightarrow> Some (cb, goto (AtGateSleep attempt start (time_add (clock env) d)) c)
      | GateFail err \<Rightarrow> Some (wait_failed env start err cb c)
      | GateBlock \<Rightarrow> None)"

definition token_outcome ::
    "env \<Rightarrow> int \<Rightarrow> gotime \<Rightarrow> wait_result \<Rightarrow> call \<Rightarrow> circuitBreaker \<Rightarrow> (circuitBreaker \<times> call) option" where
  "token_outcome env attempt start w c cb =
     (case w of
        Pass cb' \<Rightarrow> Some (cb', goto (AtSend attempt start) c)
      | Fail err \<Rightarrow> Some (wait_failed env start err cb c)
      | Block \<Rightarrow> None)"

definition step_token :: "env \<Rightarrow> int \<Rightarrow> gotime \<Rightarrow> circuitBreaker \<Rightarrow> call \<Rightarrow> circuitBreaker \<times> call" where
  "step_token env attempt start cb c =
     (case token_outcome env attempt start (waitForToken (c_ctx c) cb) c cb of
        Some s \<Rightarrow> s
      | None \<Rightarrow> (cb, goto (AtTokenWait attempt start) c))"

definition step_send :: "env \<Rightarrow> int \<Rightarrow> gotime \<Rightarrow> circuitBreaker \<Rightarrow> call \<Rightarrow> circuitBreaker \<times> call" where
  "step_send env attempt start cb c =
     recorded Attempt start env
       (\<lambda>(cb, c). (cb,
          if 0 < attempt \<and> has_Body (c_req c) then goto (AtRewind attempt start) c
          else goto (AtTransport attempt start) (log_event Sent c)))
       (cb, c)"

text \<open>\<open>req.GetBody()\<close>: calling the nil function would panic.\<close>

definition step_rewind ::
    "env \<Rightarrow> int \<Rightarrow> gotime \<Rightarrow> rewind_result \<Rightarrow> circuitBreaker \<Rightarrow> call \<Rightarrow> circuitBreaker \<times> call" where
  "step_rewind env attempt start r cb c =
     (if \<not> has_GetBody (c_req c) then (cb, panic_with ''nil function call'' c)
      else case r of
          FreshBody \<Rightarrow> (cb, goto (AtTransport attempt start) (log_event Sent (log_event Rewound c)))
        | RewindError bodyErr \<Rightarrow>
            recorded Failure start env (\<lambda>(cb, c). (cb, return_with None (Some (LocalOp bodyErr)) c)) (cb, c)
        | RewindPanic m \<Rightarrow> (cb, panic_with m (log_event (Raised m) c)))"

text \<open>The transport has answered: an error.\<close>

definition transport_failed ::
    "env \<Rightarrow> int \<Rightarrow> gotime \<Rightarrow> go_error \<Rightarrow> circuitBreaker \<Rightarrow> call \<Rightarrow> circuitBreaker \<times> call" where
  "transport_failed env attempt start err cb c =
     recorded Failure start env
       (\<lambda>(cb, c).
          let retryable = (case retryPolicy cb of None \<Rightarrow> Verdict \<circ> isRetryable | Some p \<Rightarrow> p)
          in case retryable err of
               PolicyPanic m \<Rightarrow> (cb, panic_with m c)
             | Verdict again \<Rightarrow>
                 if \<not> again then (cb, return_with None (Some err) c)
                 else if has_Body (c_req c) \<and> \<not> has_GetBody (c_req c) then (cb, return_with None (Some err) c)
                 else if attempt < MaxRetries cb then
                   recorded Retry start env
                     (\<lambda>(cb, c). (cb, goto (AtPause attempt (time_add (clock env) (backoffFor (rand_N env) cb attempt))) c))
                     (cb, c)
                 else (cb, goto (AtLoop (attempt + 1)) c))
       (cb, c\<lparr>c_lastErr := Some err\<rparr>)"

text \<open>The transport has answered: a response.\<close>

definition transport_answered ::
    "env \<Rightarrow> int \<Rightarrow> gotime \<Rightarrow> response \<Rightarrow> circuitBreaker \<Rightarrow> call \<Rightarrow> circuitBreaker \<times> call" where
  "transport_answered env attempt start resp cb c =
     recorded (if 0 < statusFailMin cb \<and> statusFailMin cb \<le> StatusCode resp then Failure else Success) start env
       (\<lambda>(cb, c). (cb,
          if 0 < retryAfterMax cb \<and> retryAfterStatus (StatusCode resp)
          then goto (AtRetryAfter attempt start resp) c
          else return_with (Some resp) None c))
       (cb, c)"

definition step_transport ::
    "env \<Rightarrow> int \<Rightarrow> gotime \<Rightarrow> reply \<Rightarrow> circuitBreaker \<Rightarrow> call \<Rightarrow> circuitBreaker \<times> call" where
  "step_transport env attempt start r cb c =
     (case r of
        Answer resp \<Rightarrow> transport_answered env attempt start resp cb (log_event (Got r) c)
      | TransportError err \<Rightarrow> transport_failed env attempt start err cb (log_event (Got r) c)
      | TransportPanic m \<Rightarrow> (cb, panic_with m (log_event (Got r) c)))"

text \<open>A 429 or 503 with the option on: arm the gate and, if the call can try again, pause.\<close>

definition step_retry_after ::
    "env \<Rightarrow> int \<Rightarrow> gotime \<Rightarrow> response \<Rightarrow> circuitBreaker \<Rightarrow> call \<Rightarrow> circuitBreaker \<times> call" where
  "step_retry_after env attempt start resp cb c =
     (case parseRetryAfter (zone_offset env) (Header_RetryAfter resp) (clock env) of
        None \<Rightarrow> (cb, return_with (Some resp) None c)
      | Some delay \<Rightarrow>
          let delay = (if retryAfterMax cb < delay then retryAfterMax cb else delay);
              until = time_add (clock env) delay;
              cb = extendRetryAfterGate until cb
          in if attempt < MaxRetries cb \<and> (\<not> has_Body (c_req c) \<or> has_GetBody (c_req c)) then
               recorded Retry start env
                 (\<lambda>(cb, c).
                    let wait = time_until until (clock env);
                        floor = backoffFor (rand_N env) cb attempt;
                        wait = (if wait < floor then floor else wait)
                    in (cb, goto (AtPause attempt (time_add (clock env) wait)) c))
                 (cb, log_event Drained (c\<lparr>c_ctx := drainAndClose (Some resp) (c_ctx c)\<rparr>))
             else (cb, return_with (Some resp) None c))"

text \<open>The \<open>select\<close> between attempts.\<close>

definition step_pause :: "env \<Rightarrow> int \<Rightarrow> gotime \<Rightarrow> select_arm \<Rightarrow> circuitBreaker \<Rightarrow> call \<Rightarrow> (circuitBreaker \<times> call) option" where
  "step_pause env attempt wake arm cb c =
     (case arm of
        ArmCtx \<Rightarrow> map_option (\<lambda>e. (cb, return_with None (Some e) c)) (ctx_err (c_ctx c))
      | ArmTimer \<Rightarrow> if wake \<le> clock env then Some (cb, goto (AtLoop (attempt + 1)) c) else None
      | _ \<Rightarrow> None)"

section \<open>Deferred functions\<close>

definition step_release :: "do_result \<Rightarrow> circuitBreaker \<Rightarrow> call \<Rightarrow> (circuitBreaker \<times> call) option" where
  "step_release res cb c =
     (if c_slot c then
        (case sem cb of
           None \<Rightarrow> None
         | Some s \<Rightarrow>
             map_option (\<lambda>s'. (cb\<lparr>sem := Some s'\<rparr>, goto (AtReport res) (c\<lparr>c_slot := False\<rparr>))) (try_recv s))
      else Some (cb, goto (AtReport res) c))"

text \<open>
  The outcome the call reports: a panic is a failure, and a neutral end is escalated to a failure
  when the deadline passed after a real failure of the transport.
\<close>

definition call_outcome :: "do_result \<Rightarrow> go_error option \<Rightarrow> int \<Rightarrow> outcome" where
  "call_outcome res lastErr min_code =
     (case res of
        Panicked _ \<Rightarrow> outcomeFailure
      | Returned finalResp finalErr \<Rightarrow>
          let out = classifyOutcome finalResp finalErr min_code
          in if out = outcomeNeutral \<and> lastErr \<noteq> None \<and>
                (case finalErr of None \<Rightarrow> False | Some e \<Rightarrow> errors_Is e CtxDeadlineExceeded)
             then outcomeFailure else out)"

definition step_report :: "env \<Rightarrow> do_result \<Rightarrow> circuitBreaker \<Rightarrow> call \<Rightarrow> circuitBreaker \<times> call" where
  "step_report env res cb c =
     (case c_ticket c of
        None \<Rightarrow> (cb, goto (AtCancel res) c)
      | Some (probe, probeGen) \<Rightarrow>
          (cb\<lparr>state := map_option
                (report (clock env) probe probeGen (call_outcome res (c_lastErr c) (statusFailMin cb))) (state cb)\<rparr>,
           goto (AtCancel res) (c\<lparr>c_ticket := None\<rparr>)))"

text \<open>Without a body to hang it on the context is cancelled now, otherwise when the body is closed.\<close>

definition step_cancel :: "do_result \<Rightarrow> call \<Rightarrow> call" where
  "step_cancel res c =
     (if \<not> c_cancel c then goto (Done res) c
      else case res of
          Returned (Some resp) None \<Rightarrow>
            (case Body resp of
               None \<Rightarrow> goto (Done res) (c\<lparr>c_ctx := ctx_cancel (c_ctx c)\<rparr>)
             | Some b \<Rightarrow> goto (Done (Returned (Some (resp\<lparr>Body := Some (CancelOnClose b)\<rparr>)) None)) c)
        | _ \<Rightarrow> goto (Done res) (c\<lparr>c_ctx := ctx_cancel (c_ctx c)\<rparr>))"

section \<open>The machine\<close>

definition do_step :: "env \<Rightarrow> input \<Rightarrow> circuitBreaker \<Rightarrow> call \<Rightarrow> (circuitBreaker \<times> call) option" where
  "do_step env i cb c =
     (case (c_pc c, i) of
        (AtAllow, Run) \<Rightarrow> Some (step_allow env cb c)
      | (AtSem, _) \<Rightarrow> step_sem i cb c
      | (AtLoop attempt, Run) \<Rightarrow> Some (step_loop env attempt cb c)
      | (AtGate attempt start, Run) \<Rightarrow>
          gate_outcome env attempt start (waitRetryAfterGate (clock env) cb) cb c
      | (AtGateSleep attempt start wake, Arm arm) \<Rightarrow>
          gate_outcome env attempt start (waitRetryAfterGate_select arm (c_ctx c) wake (clock env) cb) cb c
      | (AtToken attempt start, Run) \<Rightarrow> Some (step_token env attempt start cb c)
      | (AtTokenWait attempt start, Arm arm) \<Rightarrow>
          token_outcome env attempt start (waitForToken_select arm (c_ctx c) cb) c cb
      | (AtSend attempt start, Run) \<Rightarrow> Some (step_send env attempt start cb c)
      | (AtRewind attempt start, Rewind r) \<Rightarrow> Some (step_rewind env attempt start r cb c)
      | (AtTransport attempt start, Reply r) \<Rightarrow> Some (step_transport env attempt start r cb c)
      | (AtRetryAfter attempt start resp, Run) \<Rightarrow> Some (step_retry_after env attempt start resp cb c)
      | (AtPause attempt wake, Arm arm) \<Rightarrow> step_pause env attempt wake arm cb c
      | (AtRelease res, Run) \<Rightarrow> step_release res cb c
      | (AtReport res, Run) \<Rightarrow> Some (step_report env res cb c)
      | (AtCancel res, Run) \<Rightarrow> Some (cb, step_cancel res c)
      | _ \<Rightarrow> None)"

end
