(* ===== verification/Call_Laws.thy ===== *)
theory Call_Laws
  imports Call
begin

text \<open>
  What holds of every call, whatever the other goroutines do. \<open>control\<close> is the control flow of
  \<open>Do\<close> with the shared state left out; each step of the machine follows it. The contract
  \<open>call_law\<close> turns a predicate that the control flow preserves into a law of all reachable calls.
\<close>

section \<open>Configuration\<close>

text \<open>What is fixed once the breaker is built; the other fields change while calls run.\<close>

definition same_config :: "circuitBreaker \<Rightarrow> circuitBreaker \<Rightarrow> bool" where
  "same_config cb cb' \<longleftrightarrow>
     MaxRetries cb' = MaxRetries cb \<and> MaxConcurrent cb' = MaxConcurrent cb \<and>
     statusFailMin cb' = statusFailMin cb \<and> retryPolicy cb' = retryPolicy cb \<and>
     expBackoff cb' = expBackoff cb \<and> backoff cb' = backoff cb \<and>
     defaultTimeout cb' = defaultTimeout cb \<and> retryAfterMax cb' = retryAfterMax cb \<and>
     tokenInterval cb' = tokenInterval cb \<and> tokensPerTick cb' = tokensPerTick cb \<and>
     (sem cb' = None) = (sem cb = None) \<and> (tokens cb' = None) = (tokens cb = None) \<and>
     (state cb' = None) = (state cb = None)"

lemma same_config_refl [simp]: "same_config cb cb"
  by (simp add: same_config_def)

lemma same_config_trans: "same_config a b \<Longrightarrow> same_config b c \<Longrightarrow> same_config a c"
  by (simp add: same_config_def)

definition can_replay :: "call \<Rightarrow> bool" where
  "can_replay c \<longleftrightarrow> \<not> has_Body (c_req c) \<or> has_GetBody (c_req c)"

definition retryable :: "circuitBreaker \<Rightarrow> go_error \<Rightarrow> policy_verdict" where
  "retryable cb = (case retryPolicy cb of None \<Rightarrow> Verdict \<circ> isRetryable | Some p \<Rightarrow> p)"

text \<open>The attempt a waiting call is about to make.\<close>

fun waits_at :: "pc \<Rightarrow> (int \<times> gotime) option" where
  "waits_at (AtGate a s) = Some (a, s)"
| "waits_at (AtGateSleep a s _) = Some (a, s)"
| "waits_at (AtToken a s) = Some (a, s)"
| "waits_at (AtTokenWait a s) = Some (a, s)"
| "waits_at _ = None"

fun wait_stage :: "pc \<Rightarrow> nat" where
  "wait_stage (AtGateSleep _ _ _) = 1"
| "wait_stage (AtToken _ _) = 2"
| "wait_stage (AtTokenWait _ _) = 3"
| "wait_stage _ = 0"

definition log_all :: "call_event list \<Rightarrow> call \<Rightarrow> call" where
  "log_all es c = c\<lparr>c_log := c_log c @ es\<rparr>"

section \<open>Control flow\<close>

inductive control :: "circuitBreaker \<Rightarrow> call \<Rightarrow> call \<Rightarrow> bool" for cb where
  admitted: "c_pc c = AtAllow \<Longrightarrow> state cb \<noteq> None \<Longrightarrow> control cb c (goto AtSem (c\<lparr>c_ticket := Some t\<rparr>))"
| unguarded: "c_pc c = AtAllow \<Longrightarrow> state cb = None \<Longrightarrow> control cb c (goto AtSem c)"
| rejected: "c_pc c = AtAllow \<Longrightarrow> state cb \<noteq> None \<Longrightarrow> control cb c (return_with None (Some ErrCircuitOpen) c)"
| slot: "c_pc c = AtSem \<Longrightarrow> sem cb \<noteq> None \<Longrightarrow> control cb c (goto (AtLoop 0) (c\<lparr>c_slot := True\<rparr>))"
| unbounded: "c_pc c = AtSem \<Longrightarrow> sem cb = None \<Longrightarrow> control cb c (goto (AtLoop 0) c)"
| no_slot: "c_pc c = AtSem \<Longrightarrow> ctx_err (c_ctx c) = Some e \<Longrightarrow> control cb c (return_with None (Some e) c)"
| attempt: "c_pc c = AtLoop a \<Longrightarrow> a \<le> MaxRetries cb \<Longrightarrow> control cb c (goto (AtGate a s) c)"
| exhausted: "c_pc c = AtLoop a \<Longrightarrow> MaxRetries cb < a \<Longrightarrow>
    control cb c (return_with None (Some (RetriesExhausted (c_lastErr c))) c)"
| waiting: "waits_at (c_pc c) = Some (a, s) \<Longrightarrow> waits_at p = Some (a, s) \<Longrightarrow>
    wait_stage (c_pc c) < wait_stage p \<or> wait_stage (c_pc c) = 1 \<and> wait_stage p = 1 \<Longrightarrow> control cb c (goto p c)"
| passed: "waits_at (c_pc c) = Some (a, s) \<Longrightarrow> 2 \<le> wait_stage (c_pc c) \<Longrightarrow> control cb c (goto (AtSend a s) c)"
| wait_failed: "waits_at (c_pc c) = Some (a, s) \<Longrightarrow> e = ErrStopped \<or> ctx_err (c_ctx c) = Some e \<Longrightarrow>
    es = Recorded Failure # (if errors_Is e ErrStopped then [] else [Recorded TokenCancel]) \<Longrightarrow>
    control cb c (return_with None (Some e) (log_all es c))"
| sent: "c_pc c = AtSend a s \<Longrightarrow> \<not> (0 < a \<and> has_Body (c_req c)) \<Longrightarrow>
    control cb c (goto (AtTransport a s) (log_all [Recorded Attempt, Sent] c))"
| rewinding: "c_pc c = AtSend a s \<Longrightarrow> 0 < a \<Longrightarrow> has_Body (c_req c) \<Longrightarrow>
    control cb c (goto (AtRewind a s) (log_all [Recorded Attempt] c))"
| no_rewind: "c_pc c = AtRewind a s \<Longrightarrow> \<not> has_GetBody (c_req c) \<Longrightarrow> control cb c (panic_with m c)"
| rewind_panicked: "c_pc c = AtRewind a s \<Longrightarrow> has_GetBody (c_req c) \<Longrightarrow> control cb c (panic_with m (log_all [Raised m] c))"
| rewound: "c_pc c = AtRewind a s \<Longrightarrow> has_GetBody (c_req c) \<Longrightarrow>
    control cb c (goto (AtTransport a s) (log_all [Rewound, Sent] c))"
| rewind_failed: "c_pc c = AtRewind a s \<Longrightarrow> has_GetBody (c_req c) \<Longrightarrow>
    control cb c (return_with None (Some (LocalOp e)) (log_all [Recorded Failure] c))"
| panicked: "c_pc c = AtTransport a s \<Longrightarrow> control cb c (panic_with m (log_all [Got (TransportPanic m)] c))"
| policy_panicked: "c_pc c = AtTransport a s \<Longrightarrow> retryable cb e = PolicyPanic m \<Longrightarrow>
    control cb c (panic_with m (log_all [Got (TransportError e), Recorded Failure] (c\<lparr>c_lastErr := Some e\<rparr>)))"
| gave_up: "c_pc c = AtTransport a s \<Longrightarrow> retryable cb e = Verdict again \<Longrightarrow> \<not> again \<or> \<not> can_replay c \<Longrightarrow>
    control cb c (return_with None (Some e) (log_all [Got (TransportError e), Recorded Failure] (c\<lparr>c_lastErr := Some e\<rparr>)))"
| retried: "c_pc c = AtTransport a s \<Longrightarrow> retryable cb e = Verdict True \<Longrightarrow> can_replay c \<Longrightarrow> a < MaxRetries cb \<Longrightarrow>
    control cb c (goto (AtPause a w)
      (log_all [Got (TransportError e), Recorded Failure, Recorded Retry] (c\<lparr>c_lastErr := Some e\<rparr>)))"
| last_failed: "c_pc c = AtTransport a s \<Longrightarrow> retryable cb e = Verdict True \<Longrightarrow> can_replay c \<Longrightarrow> MaxRetries cb \<le> a \<Longrightarrow>
    control cb c (goto (AtLoop (a + 1))
      (log_all [Got (TransportError e), Recorded Failure] (c\<lparr>c_lastErr := Some e\<rparr>)))"
| answered: "c_pc c = AtTransport a s \<Longrightarrow>
    \<not> (0 < retryAfterMax cb \<and> retryAfterStatus (StatusCode r)) \<Longrightarrow> k = Success \<or> k = Failure \<Longrightarrow>
    control cb c (return_with (Some r) None (log_all [Got (Answer r), Recorded k] c))"
| pushed_back: "c_pc c = AtTransport a s \<Longrightarrow> 0 < retryAfterMax cb \<Longrightarrow> k = Success \<or> k = Failure \<Longrightarrow>
    control cb c (goto (AtRetryAfter a s r) (log_all [Got (Answer r), Recorded k] c))"
| handed_over: "c_pc c = AtRetryAfter a s r \<Longrightarrow> control cb c (return_with (Some r) None c)"
| drained: "c_pc c = AtRetryAfter a s r \<Longrightarrow> a < MaxRetries cb \<Longrightarrow> can_replay c \<Longrightarrow>
    control cb c (goto (AtPause a w)
      (log_all [Drained, Recorded Retry] (c\<lparr>c_ctx := drainAndClose (Some r) (c_ctx c)\<rparr>)))"
| interrupted: "c_pc c = AtPause a w \<Longrightarrow> ctx_err (c_ctx c) = Some e \<Longrightarrow> control cb c (return_with None (Some e) c)"
| woken: "c_pc c = AtPause a w \<Longrightarrow> control cb c (goto (AtLoop (a + 1)) c)"
| released: "c_pc c = AtRelease res \<Longrightarrow> control cb c (goto (AtReport res) (c\<lparr>c_slot := False\<rparr>))"
| reported: "c_pc c = AtReport res \<Longrightarrow> control cb c (goto (AtCancel res) (c\<lparr>c_ticket := None\<rparr>))"
| finished: "c_pc c = AtCancel res \<Longrightarrow> control cb c (step_cancel res c)"

lemmas call_fun_defs = goto_def log_event_def return_with_def panic_with_def

text \<open>The breaker after a metrics record of the call.\<close>

definition marked :: "metric_kind \<Rightarrow> gotime \<Rightarrow> env \<Rightarrow> circuitBreaker \<Rightarrow> call \<Rightarrow> circuitBreaker" where
  "marked k start env cb c =
     cb\<lparr>metrics := the (record_kind k (Host (c_url c)) (call_endpoint c) start (clock env) (metrics cb))\<rparr>"

lemma recorded_ok:
  assumes "metrics_ok (metrics cb)"
  shows "recorded k start env f (cb, c) = f (marked k start env cb c, log_event (Recorded k) c)"
    and "metrics_ok (metrics (marked k start env cb c))"
proof -
  obtain m where "record_kind k (Host (c_url c)) (call_endpoint c) start (clock env) (metrics cb) = Some m" "metrics_ok m"
    using record_kind_effect [OF assms] by blast
  then show "recorded k start env f (cb, c) = f (marked k start env cb c, log_event (Recorded k) c)"
    and "metrics_ok (metrics (marked k start env cb c))"
    by (simp_all add: recorded_def marked_def)
qed

lemma marked_frame [simp]:
  "MaxRetries (marked k s env cb c) = MaxRetries cb" "retryPolicy (marked k s env cb c) = retryPolicy cb"
  "same_config cb' (marked k s env cb c) = same_config cb' cb"
  "retryAfterMax (marked k s env cb c) = retryAfterMax cb"
  by (simp_all add: marked_def same_config_def)

text \<open>What a step may do to the breaker besides: the configuration stays, the books stay in order.\<close>

definition keeps :: "circuitBreaker \<Rightarrow> circuitBreaker \<Rightarrow> bool" where
  "keeps cb cb' \<longleftrightarrow> same_config cb cb' \<and> metrics_ok (metrics cb')"


lemma allow_error: "allow t b = (Inl e, b') \<Longrightarrow> e = ErrCircuitOpen"
  by (auto simp: allow_def allow_half_open_def Let_def split: BreakerState.splits if_splits)

text \<open>Each piece follows the control flow and keeps the books.\<close>

lemma step_allow_control:
  assumes "c_pc c = AtAllow" and "metrics_ok (metrics cb)" and "step_allow env cb c = (cb', c')"
  shows "control cb c c' \<and> keeps cb cb'"
proof (cases "state cb")
  case None
  with assms show ?thesis by (auto simp: step_allow_def keeps_def intro: control.unguarded)
next
  case (Some b)
  obtain r b' where r: "allow (clock env) b = (r, b')" by fastforce
  show ?thesis
  proof (cases r)
    case (Inl e)
    with r have "e = ErrCircuitOpen" using allow_error by blast
    with assms Some r Inl show ?thesis
      by (auto simp: step_allow_def keeps_def same_config_def intro: control.rejected)
  next
    case (Inr t)
    with assms Some r show ?thesis
      by (auto simp: step_allow_def keeps_def same_config_def intro: control.admitted)
  qed
qed

lemma step_sem_control:
  assumes "c_pc c = AtSem" and "metrics_ok (metrics cb)" and "step_sem i cb c = Some (cb', c')"
  shows "control cb c c' \<and> keeps cb cb'"
  using assms
  by (auto simp: step_sem_def keeps_def same_config_def split: option.splits if_splits
      intro: control.slot control.unbounded control.no_slot)

lemma step_loop_control:
  assumes "c_pc c = AtLoop a" and "metrics_ok (metrics cb)" and "step_loop env a cb c = (cb', c')"
  shows "control cb c c' \<and> keeps cb cb'"
  using assms
  by (auto simp: step_loop_def retries_exhausted_def keeps_def split: if_splits intro: control.attempt control.exhausted)

lemma wait_failed_control:
  assumes "waits_at (c_pc c) = Some (a, s)" and "e = ErrStopped \<or> ctx_err (c_ctx c) = Some e"
    and "metrics_ok (metrics cb)" and "wait_failed env s e cb c = (cb', c')"
  shows "control cb c c' \<and> keeps cb cb'"
proof -
  define es where "es = Recorded Failure # (if errors_Is e ErrStopped then [] else [Recorded TokenCancel])"
  have "c' = return_with None (Some e) (log_all es c)" "keeps cb cb'"
    using assms(3,4)
    by (auto simp: wait_failed_def recorded_ok es_def keeps_def call_fun_defs log_all_def split: if_splits)
  then show ?thesis using control.wait_failed [OF assms(1,2) es_def] by simp
qed

lemma gate_fail_cases:
  "waitRetryAfterGate now cb \<noteq> GateFail e" "waitRetryAfterGate now cb \<noteq> GateBlock"
  "waitRetryAfterGate_select arm ctx w now cb = GateFail e \<Longrightarrow> e = ErrStopped \<or> ctx_err ctx = Some e"
  by (auto simp: waitRetryAfterGate_def waitRetryAfterGate_select_def Let_def
      split: select_arm.splits option.splits if_splits)

lemma gate_outcome_control:
  assumes "waits_at (c_pc c) = Some (a, s)" and "wait_stage (c_pc c) \<le> 1" and "\<And>e. g = GateFail e \<Longrightarrow> e = ErrStopped \<or> ctx_err (c_ctx c) = Some e"
    and "metrics_ok (metrics cb)" and "gate_outcome env a s g cb c = Some (cb', c')"
  shows "control cb c c' \<and> keeps cb cb'"
proof (cases g)
  case (GateFail e)
  with assms(5) have "wait_failed env s e cb c = (cb', c')" by (simp add: gate_outcome_def)
  then show ?thesis by (rule wait_failed_control [OF assms(1) assms(3) [OF GateFail] assms(4)])
qed (use assms in \<open>auto simp: gate_outcome_def keeps_def intro: control.waiting [where a = a and s = s]\<close>)

lemma token_fail_cases:
  "waitForToken ctx cb = Fail e \<Longrightarrow> ctx_err ctx = Some e"
  "waitForToken_select arm ctx cb = Fail e \<Longrightarrow> e = ErrStopped \<or> ctx_err ctx = Some e"
  "waitForToken ctx cb = Pass cb' \<Longrightarrow> same_config cb cb' \<and> metrics cb' = metrics cb"
  "waitForToken_select arm ctx cb = Pass cb' \<Longrightarrow> same_config cb cb' \<and> metrics cb' = metrics cb"
  by (auto simp: waitForToken_def waitForToken_select_def same_config_def
      split: select_arm.splits option.splits if_splits)

lemma token_outcome_control:
  assumes "waits_at (c_pc c) = Some (a, s)" and "2 \<le> wait_stage (c_pc c)" and "\<And>e. w = Fail e \<Longrightarrow> e = ErrStopped \<or> ctx_err (c_ctx c) = Some e"
    and "\<And>cb'. w = Pass cb' \<Longrightarrow> same_config cb cb' \<and> metrics cb' = metrics cb"
    and "metrics_ok (metrics cb)" and "token_outcome env a s w c cb = Some (cb', c')"
  shows "control cb c c' \<and> keeps cb cb'"
proof (cases w)
  case (Fail e)
  with assms(6) have "wait_failed env s e cb c = (cb', c')" by (simp add: token_outcome_def)
  then show ?thesis by (rule wait_failed_control [OF assms(1) assms(3) [OF Fail] assms(5)])
qed (use assms in \<open>auto simp: token_outcome_def keeps_def intro: control.passed [where a = a and s = s]\<close>)

lemma step_token_control:
  assumes "c_pc c = AtToken a s" and "metrics_ok (metrics cb)" and "step_token env a s cb c = (cb', c')"
  shows "control cb c c' \<and> keeps cb cb'"
proof (cases "token_outcome env a s (waitForToken (c_ctx c) cb) c cb")
  case None
  with assms show ?thesis
    by (auto simp: step_token_def keeps_def intro: control.waiting [where a = a and s = s])
next
  case (Some r)
  with assms(3) have "token_outcome env a s (waitForToken (c_ctx c) cb) c cb = Some (cb', c')"
    by (simp add: step_token_def)
  then show ?thesis
    using assms(1,2) token_fail_cases by (intro token_outcome_control) auto
qed

lemma step_send_control:
  assumes "c_pc c = AtSend a s" and "metrics_ok (metrics cb)" and "step_send env a s cb c = (cb', c')"
  shows "control cb c c' \<and> keeps cb cb'"
proof -
  have "keeps cb cb'"
    "c' = (if 0 < a \<and> has_Body (c_req c) then goto (AtRewind a s) (log_all [Recorded Attempt] c)
           else goto (AtTransport a s) (log_all [Recorded Attempt, Sent] c))"
    using assms(2,3) by (auto simp: step_send_def recorded_ok keeps_def log_event_def log_all_def)
  then show ?thesis
    using assms(1) by (auto intro: control.sent control.rewinding)
qed

lemma step_rewind_control:
  assumes "c_pc c = AtRewind a s" and "metrics_ok (metrics cb)" and "step_rewind env a s r cb c = (cb', c')"
  shows "control cb c c' \<and> keeps cb cb'"
proof (cases "has_GetBody (c_req c)")
  case False
  with assms show ?thesis by (auto simp: step_rewind_def keeps_def intro: control.no_rewind)
next
  case True
  have "log_event Sent (log_event Rewound c) = log_all [Rewound, Sent] c"
    "log_event (Recorded Failure) c = log_all [Recorded Failure] c"
    "log_event (Raised m) c = log_all [Raised m] c" for m
    by (simp_all add: log_event_def log_all_def)
  with True assms show ?thesis
    by (auto simp: step_rewind_def recorded_ok keeps_def split: rewind_result.splits
        intro: control.rewound control.rewind_failed control.rewind_panicked)
qed

lemma transport_answered_control:
  assumes "c_pc c = AtTransport a s" and "metrics_ok (metrics cb)"
    and "transport_answered env a s r cb (log_event (Got (Answer r)) c) = (cb', c')"
  shows "control cb c c' \<and> keeps cb cb'"
proof -
  define k where "k = (if 0 < statusFailMin cb \<and> statusFailMin cb \<le> StatusCode r then Failure else Success)"
  have k: "k = Success \<or> k = Failure" by (simp add: k_def)
  have "log_event (Recorded k) (log_event (Got (Answer r)) c) = log_all [Got (Answer r), Recorded k] c"
    by (simp add: log_event_def log_all_def)
  with assms show ?thesis
    using k unfolding transport_answered_def k_def [symmetric]
    by (auto simp: recorded_ok keeps_def split: if_splits intro: control.answered control.pushed_back)
qed

lemma transport_failed_control:
  assumes "c_pc c = AtTransport a s" and "metrics_ok (metrics cb)"
    and "transport_failed env a s e cb (log_event (Got (TransportError e)) c) = (cb', c')"
  shows "control cb c c' \<and> keeps cb cb'"
proof -
  define c1 where "c1 = log_all [Got (TransportError e), Recorded Failure] (c\<lparr>c_lastErr := Some e\<rparr>)"
  define c2 where "c2 = log_all [Got (TransportError e), Recorded Failure, Recorded Retry] (c\<lparr>c_lastErr := Some e\<rparr>)"
  have c1: "log_event (Recorded Failure) (log_event (Got (TransportError e)) c\<lparr>c_lastErr := Some e\<rparr>) = c1"
    by (simp add: log_event_def log_all_def c1_def)
  have c2: "log_event (Recorded Retry) c1 = c2" by (simp add: log_event_def log_all_def c1_def c2_def)
  have req: "c_req c1 = c_req c" by (simp add: c1_def log_all_def)
  consider again where "retryable cb e = Verdict again" "\<not> again \<or> \<not> can_replay c"
    | "retryable cb e = Verdict True" "can_replay c" "a < MaxRetries cb"
    | "retryable cb e = Verdict True" "can_replay c" "MaxRetries cb \<le> a"
    | m where "retryable cb e = PolicyPanic m"
    by (cases "retryable cb e") (auto, linarith)
  then show ?thesis
  proof cases
    case (4 m)
    with assms(2,3) have "c' = panic_with m c1" "keeps cb cb'"
      by (auto simp: transport_failed_def recorded_ok c1 Let_def retryable_def keeps_def split: if_splits)
    with 4 assms(1) show ?thesis unfolding c1_def by (auto intro: control.policy_panicked)
  next
    case 1
    with assms(2,3) have "c' = return_with None (Some e) c1" "keeps cb cb'"
      by (auto simp: transport_failed_def recorded_ok c1 req Let_def retryable_def can_replay_def keeps_def split: if_splits)
    with 1 assms(1) show ?thesis unfolding c1_def by (auto intro: control.gave_up)
  next
    case 2
    with assms(2,3) have "(\<exists>w. c' = goto (AtPause a w) c2) \<and> keeps cb cb'"
      by (auto simp: transport_failed_def recorded_ok c1 c2 req Let_def retryable_def can_replay_def keeps_def)
    with 2 assms(1) show ?thesis unfolding c2_def by (auto intro: control.retried)
  next
    case 3
    with assms(2,3) have "c' = goto (AtLoop (a + 1)) c1" "keeps cb cb'"
      by (auto simp: transport_failed_def recorded_ok c1 req Let_def retryable_def can_replay_def keeps_def)
    with 3 assms(1) show ?thesis unfolding c1_def by (auto intro: control.last_failed)
  qed
qed

lemma step_transport_control:
  assumes "c_pc c = AtTransport a s" and "metrics_ok (metrics cb)" and "step_transport env a s r cb c = (cb', c')"
  shows "control cb c c' \<and> keeps cb cb'"
proof (cases r)
  case (TransportPanic m)
  have "log_event (Got (TransportPanic m)) c = log_all [Got (TransportPanic m)] c"
    by (simp add: log_event_def log_all_def)
  with TransportPanic assms show ?thesis
    by (auto simp: step_transport_def keeps_def intro: control.panicked)
qed (use assms transport_answered_control transport_failed_control in \<open>auto simp: step_transport_def\<close>)

lemma step_retry_after_control:
  assumes "c_pc c = AtRetryAfter a s r" and "metrics_ok (metrics cb)" and "step_retry_after env a s r cb c = (cb', c')"
  shows "control cb c c' \<and> keeps cb cb'"
proof (cases "parseRetryAfter (zone_offset env) (Header_RetryAfter r) (clock env)")
  case None
  with assms show ?thesis by (auto simp: step_retry_after_def keeps_def intro: control.handed_over)
next
  case (Some d)
  define until where "until = time_add (clock env) (if retryAfterMax cb < d then retryAfterMax cb else d)"
  define cb1 where "cb1 = extendRetryAfterGate until cb"
  define c1 where "c1 = log_all [Drained, Recorded Retry] (c\<lparr>c_ctx := drainAndClose (Some r) (c_ctx c)\<rparr>)"
  have cb1: "metrics_ok (metrics cb1)" "MaxRetries cb1 = MaxRetries cb" "same_config cb cb1"
    using assms(2) by (simp_all add: cb1_def frame_simps)
      (simp add: same_config_def extendRetryAfterGate_def Let_def)
  have c1: "log_event (Recorded Retry) (log_event Drained (c\<lparr>c_ctx := drainAndClose (Some r) (c_ctx c)\<rparr>)) = c1"
    by (simp add: log_event_def log_all_def c1_def)
  show ?thesis
  proof (cases "a < MaxRetries cb \<and> can_replay c")
    case True
    with assms(3) Some cb1 have "(\<exists>w. c' = goto (AtPause a w) c1) \<and> keeps cb cb'"
      by (auto simp: step_retry_after_def Let_def can_replay_def until_def [symmetric] cb1_def [symmetric]
          recorded_ok c1 keeps_def)
    with True assms(1) show ?thesis unfolding c1_def by (auto intro: control.drained)
  next
    case False
    with assms(3) Some cb1(2) have "cb' = cb1" "c' = return_with (Some r) None c"
      by (auto simp: step_retry_after_def Let_def can_replay_def until_def [symmetric] cb1_def [symmetric] split: if_splits)
    with assms(1) cb1 show ?thesis by (auto simp: keeps_def intro: control.handed_over)
  qed
qed

lemma step_pause_control:
  assumes "c_pc c = AtPause a w" and "metrics_ok (metrics cb)" and "step_pause env a w arm cb c = Some (cb', c')"
  shows "control cb c c' \<and> keeps cb cb'"
  using assms by (auto simp: step_pause_def keeps_def split: select_arm.splits if_splits
      intro: control.interrupted control.woken)

lemma slot_released: "\<not> c_slot c \<Longrightarrow> c\<lparr>c_slot := False\<rparr> = c" "c_ticket c = None \<Longrightarrow> c\<lparr>c_ticket := None\<rparr> = c"
  by (cases c; simp)+

lemma step_release_control:
  assumes "c_pc c = AtRelease res" and "metrics_ok (metrics cb)" and "step_release res cb c = Some (cb', c')"
  shows "control cb c c' \<and> keeps cb cb'"
  using assms control.released [OF assms(1), of cb]
  by (auto simp: step_release_def keeps_def same_config_def slot_released split: option.splits if_splits)

lemma step_report_control:
  assumes "c_pc c = AtReport res" and "metrics_ok (metrics cb)" and "step_report env res cb c = (cb', c')"
  shows "control cb c c' \<and> keeps cb cb'"
  using assms control.reported [OF assms(1), of cb]
  by (auto simp: step_report_def keeps_def same_config_def slot_released split: option.splits prod.splits)

lemmas step_controls = step_allow_control step_sem_control step_loop_control step_token_control step_send_control
  step_rewind_control step_transport_control step_retry_after_control step_pause_control step_release_control
  step_report_control

text \<open>A step is the piece of source the program counter names, on an input that fits it.\<close>

lemma do_step_cases:
  assumes "do_step env i cb c = Some (cb', c')"
  obtains (allow) "c_pc c = AtAllow" "i = Run" "step_allow env cb c = (cb', c')"
  | (sem) "c_pc c = AtSem" "step_sem i cb c = Some (cb', c')"
  | (loop) a where "c_pc c = AtLoop a" "i = Run" "step_loop env a cb c = (cb', c')"
  | (gate) a s where "c_pc c = AtGate a s" "i = Run"
      "gate_outcome env a s (waitRetryAfterGate (clock env) cb) cb c = Some (cb', c')"
  | (gate_sleep) a s w arm where "c_pc c = AtGateSleep a s w" "i = Arm arm"
      "gate_outcome env a s (waitRetryAfterGate_select arm (c_ctx c) w (clock env) cb) cb c = Some (cb', c')"
  | (token) a s where "c_pc c = AtToken a s" "i = Run" "step_token env a s cb c = (cb', c')"
  | (token_wait) a s arm where "c_pc c = AtTokenWait a s" "i = Arm arm"
      "token_outcome env a s (waitForToken_select arm (c_ctx c) cb) c cb = Some (cb', c')"
  | (send) a s where "c_pc c = AtSend a s" "i = Run" "step_send env a s cb c = (cb', c')"
  | (rewind) a s r where "c_pc c = AtRewind a s" "i = Rewind r" "step_rewind env a s r cb c = (cb', c')"
  | (transport) a s r where "c_pc c = AtTransport a s" "i = Reply r" "step_transport env a s r cb c = (cb', c')"
  | (retry_after) a s r where "c_pc c = AtRetryAfter a s r" "i = Run" "step_retry_after env a s r cb c = (cb', c')"
  | (pause) a w arm where "c_pc c = AtPause a w" "i = Arm arm" "step_pause env a w arm cb c = Some (cb', c')"
  | (release) res where "c_pc c = AtRelease res" "i = Run" "step_release res cb c = Some (cb', c')"
  | (report) res where "c_pc c = AtReport res" "i = Run" "step_report env res cb c = (cb', c')"
  | (cancel) res where "c_pc c = AtCancel res" "i = Run" "cb' = cb" "c' = step_cancel res c"
  using assms by (cases "c_pc c"; cases i) (simp_all add: do_step_def)

text \<open>Every step of the machine follows the control flow.\<close>

theorem do_step_control:
  assumes "do_step env i cb c = Some (cb', c')" and "metrics_ok (metrics cb)"
  shows "control cb c c' \<and> keeps cb cb'"
  using assms(1)
proof (cases rule: do_step_cases)
  case (gate a s)
  with assms(2) gate_fail_cases show ?thesis by (intro gate_outcome_control [OF _ _ _ _ gate(3)]) auto
next
  case (gate_sleep a s w arm)
  with assms(2) gate_fail_cases show ?thesis by (intro gate_outcome_control [OF _ _ _ _ gate_sleep(3)]) auto
next
  case (token_wait a s arm)
  with assms(2) token_fail_cases show ?thesis by (intro token_outcome_control [OF _ _ _ _ _ token_wait(3)]) auto
next
  case (cancel res)
  with assms(2) show ?thesis by (auto simp: keeps_def intro: control.finished)
qed (erule step_controls [OF _ assms(2)]; assumption)+

section \<open>Reachable calls\<close>

text \<open>
  A call with the breaker it runs on. Between its own steps the other goroutines may do to the
  shared fields whatever leaves the configuration alone and keeps the books, and the context may
  be cancelled or expire.
\<close>

inductive reach :: "circuitBreaker \<Rightarrow> call \<Rightarrow> bool" where
  enter: "Do_enter env cb rq cl = Inr c \<Longrightarrow> metrics_ok (metrics cb) \<Longrightarrow> reach cb c"
| own: "reach cb c \<Longrightarrow> do_step env i cb c = Some (cb', c') \<Longrightarrow> reach cb' c'"
| others: "reach cb c \<Longrightarrow> keeps cb cb' \<Longrightarrow> reach cb' c"
| context_done: "reach cb c \<Longrightarrow> reach cb (c\<lparr>c_ctx := ctx_finish e (c_ctx c)\<rparr>)"

lemma reach_books: "reach cb c \<Longrightarrow> metrics_ok (metrics cb)"
  by (induction rule: reach.induct) (auto dest: do_step_control simp: keeps_def)

text \<open>The steps of one call, in a row.\<close>

fun exec :: "(env \<times> input) list \<Rightarrow> circuitBreaker \<times> call \<Rightarrow> (circuitBreaker \<times> call) option" where
  "exec [] s = Some s"
| "exec ((env, i) # es) s =
     (case do_step env i (fst s) (snd s) of None \<Rightarrow> None | Some s' \<Rightarrow> exec es s')"

lemma exec_reach: "exec es (cb, c) = Some (cb', c') \<Longrightarrow> reach cb c \<Longrightarrow> reach cb' c'"
proof (induction es arbitrary: cb c)
  case (Cons e es)
  then show ?case
    by (cases e) (auto split: option.splits intro: reach.own)
qed simp

text \<open>
  The contract of a law of calls: it holds when a call enters, and the control flow and the end of
  the context keep it; it may depend on the configuration only.
\<close>

locale call_law =
  fixes law :: "circuitBreaker \<Rightarrow> call \<Rightarrow> bool"
  assumes law_enter: "Do_enter env cb rq cl = Inr c \<Longrightarrow> law cb c"
    and law_step: "law cb c \<Longrightarrow> control cb c c' \<Longrightarrow> law cb c'"
    and law_ctx: "law cb c \<Longrightarrow> law cb (c\<lparr>c_ctx := ctx_finish e (c_ctx c)\<rparr>)"
    and law_config: "law cb c \<Longrightarrow> same_config cb cb' \<Longrightarrow> law cb' c"
begin

lemma holds: "reach cb c \<Longrightarrow> law cb c"
proof (induction rule: reach.induct)
  case (own cb c env i cb' c')
  with do_step_control reach_books have "control cb c c'" "keeps cb cb'" by blast+
  with own.IH show ?case using law_step law_config keeps_def by blast
qed (use law_enter law_ctx law_config keeps_def in blast)+

end

section \<open>Counting\<close>

text \<open>How often a call has sent, rewound and recorded.\<close>

definition n_sent :: "call \<Rightarrow> int" where "n_sent c = int (count_list (c_log c) Sent)"
definition n_rewound :: "call \<Rightarrow> int" where "n_rewound c = int (count_list (c_log c) Rewound)"
definition n_recorded :: "metric_kind \<Rightarrow> call \<Rightarrow> int" where
  "n_recorded k c = int (count_list (c_log c) (Recorded k))"

text \<open>Sends, rewinds, attempts, settled attempts, retries and cancelled waits, all at once.\<close>

definition counts :: "call \<Rightarrow> int list" where
  "counts c = [n_sent c, n_rewound c, n_recorded Attempt c, n_recorded Success c + n_recorded Failure c,
     n_recorded Retry c, n_recorded TokenCancel c]"

lemma counts_simps [simp]:
  "counts (goto p c) = counts c" "counts (return_with r e c) = counts c" "counts (panic_with m c) = counts c"
  "counts (c\<lparr>c_lastErr := l\<rparr>) = counts c" "counts (c\<lparr>c_ticket := t\<rparr>) = counts c"
  "counts (c\<lparr>c_slot := b\<rparr>) = counts c" "counts (c\<lparr>c_ctx := x\<rparr>) = counts c"
  by (simp_all add: counts_def n_sent_def n_rewound_def n_recorded_def call_fun_defs)

lemma counts_log_all:
  "counts (log_all es c) = map2 (+) (counts c)
     [int (count_list es Sent), int (count_list es Rewound), int (count_list es (Recorded Attempt)),
      int (count_list es (Recorded Success)) + int (count_list es (Recorded Failure)),
      int (count_list es (Recorded Retry)), int (count_list es (Recorded TokenCancel))]"
  by (simp add: counts_def n_sent_def n_rewound_def n_recorded_def log_all_def)

text \<open>What every update of the control flow leaves alone, and where it goes.\<close>

lemma call_frame [simp]:
  "c_req (goto p c) = c_req c" "c_req (return_with r e c) = c_req c" "c_req (panic_with m c) = c_req c"
  "c_req (log_all es c) = c_req c"
  "c_pc (goto p c) = p" "c_pc (return_with r e c) = AtRelease (Returned r e)" "c_pc (panic_with m c) = AtRelease (Panicked m)"
  "c_lastErr (goto p c) = c_lastErr c" "c_lastErr (return_with r e c) = c_lastErr c"
  "c_lastErr (panic_with m c) = c_lastErr c" "c_lastErr (log_all es c) = c_lastErr c"
  "c_ctx (goto p c) = c_ctx c" "c_ctx (return_with r e c) = c_ctx c" "c_ctx (panic_with m c) = c_ctx c"
  "c_ctx (log_all es c) = c_ctx c"
  "c_log (goto p c) = c_log c" "c_log (return_with r e c) = c_log c" "c_log (panic_with m c) = c_log c"
  "c_log (log_all es c) = c_log c @ es"
  by (simp_all add: call_fun_defs log_all_def)

lemma can_replay_frame [simp]:
  "can_replay (goto p c) = can_replay c" "can_replay (return_with r e c) = can_replay c"
  "can_replay (panic_with m c) = can_replay c" "can_replay (log_all es c) = can_replay c"
  "can_replay (c\<lparr>c_lastErr := l\<rparr>) = can_replay c" "can_replay (c\<lparr>c_ticket := t\<rparr>) = can_replay c"
  "can_replay (c\<lparr>c_slot := b\<rparr>) = can_replay c" "can_replay (c\<lparr>c_ctx := x\<rparr>) = can_replay c"
  by (simp_all add: can_replay_def)

definition rewinds :: "call \<Rightarrow> int \<Rightarrow> int" where
  "rewinds c k = (if has_Body (c_req c) then max 0 (k - 1) else 0)"

lemma rewinds_frame [simp]:
  "rewinds (goto p c) = rewinds c" "rewinds (return_with r e c) = rewinds c"
  "rewinds (panic_with m c) = rewinds c" "rewinds (log_all es c) = rewinds c"
  "rewinds (c\<lparr>c_lastErr := l\<rparr>) = rewinds c" "rewinds (c\<lparr>c_ticket := t\<rparr>) = rewinds c"
  "rewinds (c\<lparr>c_slot := b\<rparr>) = rewinds c" "rewinds (c\<lparr>c_ctx := x\<rparr>) = rewinds c"
  by (simp_all add: rewinds_def fun_eq_iff)

definition before :: "int \<Rightarrow> call \<Rightarrow> int \<Rightarrow> bool" where
  "before n c a \<longleftrightarrow> 0 \<le> a \<and> (0 < a \<longrightarrow> a \<le> n + 1 \<and> can_replay c) \<and>
     counts c = [a, rewinds c a, a, a, min a (max n 0), 0]"

definition in_flight :: "int \<Rightarrow> call \<Rightarrow> int \<Rightarrow> int \<Rightarrow> int \<Rightarrow> bool" where
  "in_flight n c a settled retries \<longleftrightarrow> 0 \<le> a \<and> a \<le> n \<and> (0 < a \<longrightarrow> can_replay c) \<and>
     counts c = [a + 1, rewinds c (a + 1), a + 1, settled, retries, 0]"

text \<open>How the counts of a call that ends with a result fit together.\<close>

definition settled :: "call \<Rightarrow> do_result \<Rightarrow> bool" where
  "settled c res \<longleftrightarrow>
     (case res of
        Panicked _ \<Rightarrow>
          (n_recorded Success c + n_recorded Failure c + 1 = n_recorded Attempt c \<or>
           n_recorded Success c + n_recorded Failure c = n_recorded Attempt c) \<and> n_recorded TokenCancel c = 0
      | Returned r e \<Rightarrow>
          n_recorded Success c + n_recorded Failure c = n_recorded Attempt c \<and> n_recorded TokenCancel c = 0 \<or>
          n_recorded Success c + n_recorded Failure c = n_recorded Attempt c + 1 \<and> r = None \<and>
          (\<exists>err. e = Some err \<and> n_recorded TokenCancel c = (if errors_Is err ErrStopped then 0 else 1)))"

definition ended :: "int \<Rightarrow> call \<Rightarrow> do_result \<Rightarrow> bool" where
  "ended n c res \<longleftrightarrow> 0 \<le> n_sent c \<and> n_sent c \<le> max 0 (n + 1) \<and> (1 < n_sent c \<longrightarrow> can_replay c) \<and>
     n_rewound c = rewinds c (n_sent c) \<and>
     n_sent c \<le> n_recorded Attempt c \<and> n_recorded Attempt c \<le> n_recorded Retry c + 1 \<and>
     n_recorded Retry c \<le> max 0 n \<and> n_recorded Retry c \<le> n_recorded Attempt c \<and> settled c res"

fun attempts_at :: "int \<Rightarrow> call \<Rightarrow> pc \<Rightarrow> bool" where
  "attempts_at n c (AtLoop a) = before n c a"
| "attempts_at n c (AtGate a _) = (before n c a \<and> a \<le> n)"
| "attempts_at n c (AtGateSleep a _ _) = (before n c a \<and> a \<le> n)"
| "attempts_at n c (AtToken a _) = (before n c a \<and> a \<le> n)"
| "attempts_at n c (AtTokenWait a _) = (before n c a \<and> a \<le> n)"
| "attempts_at n c (AtSend a _) = (before n c a \<and> a \<le> n)"
| "attempts_at n c (AtRewind a _) = (0 < a \<and> a \<le> n \<and> can_replay c \<and> has_Body (c_req c) \<and>
     counts c = [a, rewinds c a, a + 1, a, a, 0])"
| "attempts_at n c (AtTransport a _) = in_flight n c a a a"
| "attempts_at n c (AtRetryAfter a _ _) = in_flight n c a (a + 1) a"
| "attempts_at n c (AtPause a _) = (in_flight n c a (a + 1) (a + 1) \<and> a < n \<and> can_replay c)"
| "attempts_at n c (AtRelease res) = ended n c res"
| "attempts_at n c (AtReport res) = ended n c res"
| "attempts_at n c (AtCancel res) = ended n c res"
| "attempts_at n c (Done res) = ended n c res"
| "attempts_at n c _ = (c_log c = [])"

definition attempts_law :: "circuitBreaker \<Rightarrow> call \<Rightarrow> bool" where
  "attempts_law cb c \<longleftrightarrow> attempts_at (MaxRetries cb) c (c_pc c)"


lemma n_simps [simp]:
  "n_sent (goto p c) = n_sent c" "n_sent (return_with r e c) = n_sent c" "n_sent (panic_with m c) = n_sent c"
  "n_sent (c\<lparr>c_lastErr := l\<rparr>) = n_sent c" "n_sent (c\<lparr>c_ticket := t\<rparr>) = n_sent c"
  "n_sent (c\<lparr>c_slot := b\<rparr>) = n_sent c" "n_sent (c\<lparr>c_ctx := x\<rparr>) = n_sent c"
  "n_rewound (goto p c) = n_rewound c" "n_rewound (return_with r e c) = n_rewound c" "n_rewound (panic_with m c) = n_rewound c"
  "n_rewound (c\<lparr>c_lastErr := l\<rparr>) = n_rewound c" "n_rewound (c\<lparr>c_ticket := t\<rparr>) = n_rewound c"
  "n_rewound (c\<lparr>c_slot := b\<rparr>) = n_rewound c" "n_rewound (c\<lparr>c_ctx := x\<rparr>) = n_rewound c"
  "n_recorded k (goto p c) = n_recorded k c" "n_recorded k (return_with r e c) = n_recorded k c"
  "n_recorded k (panic_with m c) = n_recorded k c"
  "n_recorded k (c\<lparr>c_lastErr := l\<rparr>) = n_recorded k c" "n_recorded k (c\<lparr>c_ticket := t\<rparr>) = n_recorded k c"
  "n_recorded k (c\<lparr>c_slot := b\<rparr>) = n_recorded k c" "n_recorded k (c\<lparr>c_ctx := x\<rparr>) = n_recorded k c"
  "n_sent (log_all es c) = n_sent c + int (count_list es Sent)"
  "n_rewound (log_all es c) = n_rewound c + int (count_list es Rewound)"
  "n_recorded k (log_all es c) = n_recorded k c + int (count_list es (Recorded k))"
  by (simp_all add: n_sent_def n_rewound_def n_recorded_def call_fun_defs log_all_def)

lemma counts_iff:
  "counts c = [s, w, a, d, r, t] \<longleftrightarrow> n_sent c = s \<and> n_rewound c = w \<and> n_recorded Attempt c = a \<and>
     n_recorded Success c + n_recorded Failure c = d \<and> n_recorded Retry c = r \<and> n_recorded TokenCancel c = t"
  by (simp add: counts_def)

lemma empty_counts: "c_log c = [] \<Longrightarrow> n_sent c = 0 \<and> n_rewound c = 0 \<and> n_recorded k c = 0"
  by (simp add: n_sent_def n_rewound_def n_recorded_def)

lemmas attempts_defs = before_def in_flight_def ended_def settled_def counts_iff rewinds_def

lemma waits_before:
  assumes "waits_at p = Some (a, s)"
  shows "attempts_at n c p \<longleftrightarrow> before n c a \<and> a \<le> n"
  using assms by (cases p) auto

lemma ended_frame [simp]:
  "ended n (goto p c) res = ended n c res" "ended n (c\<lparr>c_ticket := t\<rparr>) res = ended n c res"
  "ended n (c\<lparr>c_slot := b\<rparr>) res = ended n c res" "ended n (c\<lparr>c_ctx := x\<rparr>) res = ended n c res"
  by (cases res; simp add: ended_def settled_def)+

lemma ended_body: "ended n c (Returned (Some r) e) \<Longrightarrow> ended n c (Returned (Some r') e)"
  by (auto simp: ended_def settled_def)

lemma step_cancel_ended:
  "ended n c res \<Longrightarrow> attempts_at n (step_cancel res c) (c_pc (step_cancel res c))"
  using ended_body by (auto simp: step_cancel_def split: do_result.splits option.splits)

lemma attempts_step:
  assumes "attempts_law cb c" and "control cb c c'"
  shows "attempts_law cb c'"
  using assms(2)
proof cases
  case (waiting a s p)
  with assms(1) waits_before [of "c_pc c"] waits_before [of p] show ?thesis
    by (auto simp: attempts_law_def before_def counts_iff rewinds_def)
next
  case (passed a s)
  with assms(1) waits_before [of "c_pc c"] show ?thesis
    by (auto simp: attempts_law_def before_def counts_iff rewinds_def)
next
  case (wait_failed a s e es)
  with assms(1) waits_before [of "c_pc c"] show ?thesis
    by (auto simp: attempts_law_def attempts_defs)
next
  case (finished res)
  with assms(1) step_cancel_ended show ?thesis by (simp add: attempts_law_def)
next
  case (released res)
  with assms(1) show ?thesis by (simp add: attempts_law_def)
next
  case (reported res)
  with assms(1) show ?thesis by (simp add: attempts_law_def)
qed (use assms(1) in \<open>auto simp: attempts_law_def attempts_defs empty_counts can_replay_def split: if_splits\<close>)


lemma Do_enter_start:
  "Do_enter env cb rq cl = Inr c \<Longrightarrow> c_pc c = AtAllow \<and> c_log c = [] \<and> c_lastErr c = None \<and> c_ticket c = None \<and> \<not> c_slot c"
  by (auto simp: Do_enter_def Let_def split: option.splits)

lemma attempts_at_ctx [simp]: "attempts_at n (c\<lparr>c_ctx := x\<rparr>) p = attempts_at n c p"
  by (cases p) (auto simp: before_def in_flight_def can_replay_def rewinds_def)

interpretation attempts: call_law attempts_law
proof unfold_locales
  fix env cb rq cl c c' cb' e
  show "Do_enter env cb rq cl = Inr c \<Longrightarrow> attempts_law cb c"
    by (drule Do_enter_start) (simp add: attempts_law_def)
  show "attempts_law cb c \<Longrightarrow> control cb c c' \<Longrightarrow> attempts_law cb c'" by (rule attempts_step)
  show "attempts_law cb c \<Longrightarrow> attempts_law cb (c\<lparr>c_ctx := ctx_finish e (c_ctx c)\<rparr>)"
    by (simp add: attempts_law_def)
  show "attempts_law cb c \<Longrightarrow> same_config cb cb' \<Longrightarrow> attempts_law cb' c"
    by (simp add: attempts_law_def same_config_def)
qed

section \<open>The retry policy as a function\<close>

text \<open>
  What \<open>Do\<close> promises when the \<open>Retry-After\<close> option is off: the result as a function of the answers
  of the transport, of what may be retried and of the retries left.
\<close>

datatype verdict_of_answers = Undecided | Decided "response option" "go_error option" | Blown string

fun retry_spec :: "(go_error \<Rightarrow> policy_verdict) \<Rightarrow> bool \<Rightarrow> int \<Rightarrow> reply list \<Rightarrow> verdict_of_answers" where
  "retry_spec again replay n [] = Undecided"
| "retry_spec again replay n (Answer r # rs) = Decided (Some r) None"
| "retry_spec again replay n (TransportPanic m # rs) = Blown m"
| "retry_spec again replay n (TransportError e # rs) =
     (case again e of
        PolicyPanic m \<Rightarrow> Blown m
      | Verdict b \<Rightarrow>
          if \<not> b \<or> \<not> replay then Decided None (Some e)
          else if n \<le> 0 then Decided None (Some (RetriesExhausted (Some e)))
          else retry_spec again replay (n - 1) rs)"

fun answers_in :: "call_event list \<Rightarrow> reply list" where
  "answers_in [] = []"
| "answers_in (Got r # es) = r # answers_in es"
| "answers_in (e # es) = answers_in es"

definition answers :: "call \<Rightarrow> reply list" where
  "answers c = answers_in (c_log c)"

lemma answers_in_append [simp]: "answers_in (es @ fs) = answers_in es @ answers_in fs"
  by (induction es rule: answers_in.induct) auto

lemma answers_simps [simp]:
  "answers (goto p c) = answers c" "answers (return_with r e c) = answers c" "answers (panic_with m c) = answers c"
  "answers (c\<lparr>c_lastErr := l\<rparr>) = answers c" "answers (c\<lparr>c_ticket := t\<rparr>) = answers c"
  "answers (c\<lparr>c_slot := b\<rparr>) = answers c" "answers (c\<lparr>c_ctx := x\<rparr>) = answers c"
  "answers (log_all es c) = answers c @ answers_in es"
  by (simp_all add: answers_def)

text \<open>The errors so far were all retried, and the last of them is \<open>lastErr\<close>.\<close>

definition retried_so_far :: "circuitBreaker \<Rightarrow> call \<Rightarrow> int \<Rightarrow> bool" where
  "retried_so_far cb c k \<longleftrightarrow>
     (\<exists>es. answers c = map TransportError es \<and> int (length es) = k \<and> (\<forall>e \<in> set es. retryable cb e = Verdict True) \<and>
        (es \<noteq> [] \<longrightarrow> can_replay c) \<and> c_lastErr c = (if es = [] then None else Some (last es)))"

lemma retry_spec_skip:
  assumes "\<forall>e \<in> set es. again e = Verdict True" and "es \<noteq> [] \<longrightarrow> replay" and "int (length es) \<le> n"
  shows "retry_spec again replay n (map TransportError es @ rs) = retry_spec again replay (n - int (length es)) rs"
  using assms
proof (induction es arbitrary: n)
  case (Cons e es)
  then show ?case by (simp add: algebra_simps)
qed simp

lemma retry_spec_exhausted:
  assumes "\<forall>e \<in> set es. again e = Verdict True" and "replay" and "int (length es) = n + 1" and "0 \<le> n"
  shows "retry_spec again replay n (map TransportError es) = Decided None (Some (RetriesExhausted (Some (last es))))"
proof -
  obtain ds d where es: "es = ds @ [d]" using assms(3,4) by (cases es rule: rev_cases) auto
  then have "retry_spec again replay n (map TransportError ds @ [TransportError d]) =
      retry_spec again replay (n - int (length ds)) [TransportError d]"
    using assms by (intro retry_spec_skip) auto
  with es assms show ?thesis by simp
qed

text \<open>The errors \<open>Do\<close> itself can end with before the transport has decided.\<close>

definition local_end :: "call \<Rightarrow> go_error \<Rightarrow> bool" where
  "local_end c e \<longleftrightarrow> e = ErrCircuitOpen \<or> e = ErrStopped \<or> (\<exists>b. e = LocalOp b) \<or> ctx_err (c_ctx c) = Some e"

definition same_response :: "response option \<Rightarrow> response option \<Rightarrow> bool" where
  "same_response r r' \<longleftrightarrow> r' = r \<or> r' = map_option (\<lambda>x. x\<lparr>Body := map_option CancelOnClose (Body x)\<rparr>) r"

definition meets_spec ::
    "(response option \<Rightarrow> response option \<Rightarrow> bool) \<Rightarrow> circuitBreaker \<Rightarrow> call \<Rightarrow> do_result \<Rightarrow> bool" where
  "meets_spec same cb c res \<longleftrightarrow>
     (case retry_spec (retryable cb) (can_replay c) (MaxRetries cb) (answers c) of
        Undecided \<Rightarrow> (\<exists>e. res = Returned None (Some e) \<and> local_end c e) \<or>
          (\<exists>m. res = Panicked m \<and> Raised m \<in> set (c_log c))
      | Decided r e \<Rightarrow> \<exists>r'. res = Returned r' e \<and> same r r'
      | Blown m \<Rightarrow> res = Panicked m)"

fun spec_at :: "circuitBreaker \<Rightarrow> call \<Rightarrow> pc \<Rightarrow> bool" where
  "spec_at cb c (AtLoop a) = retried_so_far cb c a"
| "spec_at cb c (AtGate a _) = retried_so_far cb c a"
| "spec_at cb c (AtGateSleep a _ _) = retried_so_far cb c a"
| "spec_at cb c (AtToken a _) = retried_so_far cb c a"
| "spec_at cb c (AtTokenWait a _) = retried_so_far cb c a"
| "spec_at cb c (AtSend a _) = retried_so_far cb c a"
| "spec_at cb c (AtRewind a _) = retried_so_far cb c a"
| "spec_at cb c (AtTransport a _) = retried_so_far cb c a"
| "spec_at cb c (AtPause a _) = retried_so_far cb c (a + 1)"
| "spec_at cb c (AtRetryAfter a _ _) = False"
| "spec_at cb c (AtRelease res) = meets_spec (=) cb c res"
| "spec_at cb c (AtReport res) = meets_spec (=) cb c res"
| "spec_at cb c (AtCancel res) = meets_spec (=) cb c res"
| "spec_at cb c (Done res) = meets_spec same_response cb c res"
| "spec_at cb c _ = retried_so_far cb c 0"

definition spec_law :: "circuitBreaker \<Rightarrow> call \<Rightarrow> bool" where
  "spec_law cb c \<longleftrightarrow> attempts_law cb c \<and>
     (retryAfterMax cb \<le> 0 \<and> 0 \<le> MaxRetries cb \<longrightarrow> spec_at cb c (c_pc c))"

lemma retried_frame [simp]:
  "retried_so_far cb (goto p c) = retried_so_far cb c" "retried_so_far cb (c\<lparr>c_ticket := t\<rparr>) = retried_so_far cb c"
  "retried_so_far cb (c\<lparr>c_slot := b\<rparr>) = retried_so_far cb c" "retried_so_far cb (c\<lparr>c_ctx := x\<rparr>) = retried_so_far cb c"
  by (simp_all add: retried_so_far_def fun_eq_iff)

lemma retried_log_all [simp]:
  "answers_in es = [] \<Longrightarrow> retried_so_far cb (log_all es c) = retried_so_far cb c"
  by (simp add: retried_so_far_def fun_eq_iff)

lemma retried_next:
  assumes "retried_so_far cb c a" and "retryable cb e = Verdict True" and "can_replay c"
    and "answers_in es = [TransportError e]"
  shows "retried_so_far cb (log_all es (c\<lparr>c_lastErr := Some e\<rparr>)) (a + 1)"
proof -
  obtain ds where "answers c = map TransportError ds" "int (length ds) = a" "\<forall>e \<in> set ds. retryable cb e = Verdict True"
    using assms(1) by (auto simp: retried_so_far_def)
  with assms(2-4) show ?thesis
    by (auto simp: retried_so_far_def intro!: exI [of _ "ds @ [e]"])
qed

lemma retried_spec:
  assumes "retried_so_far cb c a" and "a \<le> MaxRetries cb"
  shows "retry_spec (retryable cb) (can_replay c) (MaxRetries cb) (answers c @ rs) =
    retry_spec (retryable cb) (can_replay c) (MaxRetries cb - a) rs"
proof -
  obtain es where "answers c = map TransportError es" "int (length es) = a" "\<forall>e \<in> set es. retryable cb e = Verdict True"
    "es \<noteq> [] \<longrightarrow> can_replay c"
    using assms(1) by (auto simp: retried_so_far_def)
  with retry_spec_skip [of es "retryable cb" "can_replay c" "MaxRetries cb" rs] assms(2)
  show ?thesis by simp
qed

lemma retried_undecided:
  "retried_so_far cb c a \<Longrightarrow> a \<le> MaxRetries cb \<Longrightarrow>
   retry_spec (retryable cb) (can_replay c) (MaxRetries cb) (answers c) = Undecided"
  using retried_spec [of cb c a "[]"] by simp

lemma retried_exhausted:
  assumes "retried_so_far cb c a" and "a = MaxRetries cb + 1" and "0 \<le> MaxRetries cb"
  shows "retry_spec (retryable cb) (can_replay c) (MaxRetries cb) (answers c) =
    Decided None (Some (RetriesExhausted (c_lastErr c)))"
proof -
  obtain es where es: "answers c = map TransportError es" "int (length es) = a" "\<forall>e \<in> set es. retryable cb e = Verdict True"
    "es \<noteq> [] \<longrightarrow> can_replay c" "c_lastErr c = (if es = [] then None else Some (last es))"
    using assms(1) by (auto simp: retried_so_far_def)
  then have "es \<noteq> []" using assms by auto
  with es assms retry_spec_exhausted [of es "retryable cb" "can_replay c" "MaxRetries cb"]
  show ?thesis by simp
qed

lemma local_end_frame [simp]:
  "local_end (goto p c) e = local_end c e" "local_end (return_with r x c) e = local_end c e"
  "local_end (log_all es c) e = local_end c e" "local_end (c\<lparr>c_ticket := t\<rparr>) e = local_end c e"
  "local_end (c\<lparr>c_slot := b\<rparr>) e = local_end c e" "local_end (c\<lparr>c_lastErr := l\<rparr>) e = local_end c e"
  by (simp_all add: local_end_def)

lemma local_end_ctx: "local_end c e \<Longrightarrow> local_end (c\<lparr>c_ctx := ctx_finish x (c_ctx c)\<rparr>) e"
  by (auto simp: local_end_def ctx_finish_err)

lemma meets_spec_frame [simp]:
  "meets_spec same cb (goto p c) = meets_spec same cb c" "meets_spec same cb (c\<lparr>c_ticket := t\<rparr>) = meets_spec same cb c"
  "meets_spec same cb (c\<lparr>c_slot := b\<rparr>) = meets_spec same cb c"
  by (simp_all add: meets_spec_def fun_eq_iff cong: verdict_of_answers.case_cong)

lemma meets_spec_ctx:
  "meets_spec same cb c res \<Longrightarrow> meets_spec same cb (c\<lparr>c_ctx := ctx_finish x (c_ctx c)\<rparr>) res"
  using local_end_ctx by (auto simp: meets_spec_def split: verdict_of_answers.splits)

lemma meets_spec_done:
  assumes "meets_spec (=) cb c res"
  shows "spec_at cb (step_cancel res c) (c_pc (step_cancel res c))"
proof -
  have same: "meets_spec same_response cb c res"
    using assms by (auto simp: meets_spec_def same_response_def split: verdict_of_answers.splits)
  then have "meets_spec same_response cb (c\<lparr>c_ctx := ctx_cancel (c_ctx c)\<rparr>) res"
    unfolding ctx_cancel_def by (rule meets_spec_ctx)
  moreover note same
  moreover have "meets_spec same_response cb c (Returned (Some (r\<lparr>Body := Some (CancelOnClose b)\<rparr>)) None)"
    if "res = Returned (Some r) None" "Body r = Some b" for r b
    using assms that by (auto simp: meets_spec_def same_response_def split: verdict_of_answers.splits)
  ultimately show ?thesis
    by (auto simp: step_cancel_def split: do_result.splits option.splits)
qed


lemma waits_spec:
  assumes "waits_at p = Some (a, s)"
  shows "spec_at cb c p \<longleftrightarrow> retried_so_far cb c a"
  using assms by (cases p) auto

lemma meets_undecided:
  assumes "retried_so_far cb c a" and "a \<le> MaxRetries cb" and "answers_in es = []" and "local_end c e"
  shows "meets_spec same cb (log_all es c) (Returned None (Some e))"
  using retried_undecided [OF assms(1,2)] assms(3,4) by (simp add: meets_spec_def)

lemma meets_decided:
  assumes "retried_so_far cb c a" and "a \<le> MaxRetries cb" and "answers_in es = [ans]"
    and "retry_spec (retryable cb) (can_replay c) (MaxRetries cb - a) [ans] = v"
    and "v = Decided r x \<and> res = Returned r x \<or> (\<exists>m. v = Blown m \<and> res = Panicked m)"
  shows "meets_spec (=) cb (log_all es c) res"
  using retried_spec [OF assms(1,2), of "[ans]"] assms(3-5) by (auto simp: meets_spec_def)

lemma meets_return [simp]:
  "meets_spec same cb (return_with r e c) = meets_spec same cb c" "meets_spec same cb (panic_with m c) = meets_spec same cb c"
  by (simp_all add: return_with_def panic_with_def)

lemma log_nothing [simp]: "log_all [] c = c"
  by (simp add: log_all_def)

text \<open>The answers of the transport.\<close>

lemma spec_transport:
  assumes law: "attempts_law cb c" and off: "retryAfterMax cb \<le> 0"
    and spec: "spec_at cb c (c_pc c)" and "control cb c c'" and pc: "c_pc c = AtTransport a s"
  shows "spec_at cb c' (c_pc c')"
  using assms(4)
proof cases
  case (policy_panicked a s e m)
  with law spec retried_spec [of cb c a "[TransportError e]"]
  have "retry_spec (retryable cb) (can_replay c) (MaxRetries cb) (answers c @ [TransportError e]) = Blown m"
    by (auto simp: attempts_law_def in_flight_def)
  with policy_panicked show ?thesis by (simp add: meets_spec_def)
next
  case (panicked a s m)
  with law spec meets_decided [of cb c a "[Got (TransportPanic m)]"] show ?thesis
    by (auto simp: attempts_law_def in_flight_def)
next
  case (gave_up a s e again)
  with law spec retried_spec [of cb c a "[TransportError e]"]
  have "retry_spec (retryable cb) (can_replay c) (MaxRetries cb) (answers c @ [TransportError e]) = Decided None (Some e)"
    by (auto simp: attempts_law_def in_flight_def)
  with gave_up show ?thesis by (simp add: meets_spec_def)
next
  case (retried a s e w)
  with spec retried_next [of cb c a e] show ?thesis by simp
next
  case (last_failed a s e)
  with spec retried_next [of cb c a e] show ?thesis by simp
next
  case (answered a s r k)
  with law spec meets_decided [of cb c a "[Got (Answer r), Recorded k]"] show ?thesis
    by (auto simp: attempts_law_def in_flight_def)
qed (use off pc in auto)

lemma spec_step:
  assumes law: "attempts_law cb c" and off: "retryAfterMax cb \<le> 0" and n: "0 \<le> MaxRetries cb"
    and spec: "spec_at cb c (c_pc c)" and con: "control cb c c'"
  shows "spec_at cb c' (c_pc c')"
  using con
proof cases
  case rejected
  with spec n meets_undecided [of cb c 0 "[]"] show ?thesis by (simp add: local_end_def)
next
  case (no_slot e)
  with spec n meets_undecided [of cb c 0 "[]"] show ?thesis by (simp add: local_end_def)
next
  case (exhausted a)
  with law n have "a = MaxRetries cb + 1" by (auto simp: attempts_law_def before_def)
  with exhausted spec retried_exhausted [of cb c a] n show ?thesis by (simp add: meets_spec_def)
next
  case (waiting a s p)
  with spec waits_spec [of "c_pc c"] waits_spec [of p] show ?thesis by simp
next
  case (passed a s)
  with spec waits_spec [of "c_pc c"] show ?thesis by simp
next
  case (wait_failed a s e es)
  then have "retried_so_far cb c a" "a \<le> MaxRetries cb"
    using spec law waits_spec [of "c_pc c"] waits_before [of "c_pc c"] by (auto simp: attempts_law_def)
  with wait_failed meets_undecided [of cb c a es e] show ?thesis by (auto simp: local_end_def)
next
  case (no_rewind a s m)
  with law show ?thesis by (auto simp: attempts_law_def can_replay_def)
next
  case (rewind_panicked a s m)
  with law spec retried_undecided [of cb c a] show ?thesis by (auto simp: attempts_law_def meets_spec_def)
next
  case (rewind_failed a s e)
  with law spec meets_undecided [of cb c a "[Recorded Failure]" "LocalOp e"] show ?thesis
    by (auto simp: attempts_law_def local_end_def)
next
  case (interrupted a w e)
  with law spec meets_undecided [of cb c "a + 1" "[]" e] show ?thesis by (auto simp: attempts_law_def local_end_def)
next
  case (finished res)
  with spec meets_spec_done show ?thesis by simp
qed (use spec off spec_transport [OF law off spec con] in auto)

lemma spec_at_ctx: "spec_at cb c p \<Longrightarrow> spec_at cb (c\<lparr>c_ctx := ctx_finish e (c_ctx c)\<rparr>) p"
  by (cases p) (simp_all add: meets_spec_ctx)

lemma spec_at_config:
  assumes "same_config cb cb'" and "spec_at cb c p"
  shows "spec_at cb' c p"
proof -
  have "retryable cb' = retryable cb" "MaxRetries cb' = MaxRetries cb"
    using assms(1) by (simp_all add: same_config_def retryable_def)
  then have "retried_so_far cb' = retried_so_far cb" "meets_spec same cb' = meets_spec same cb" for same
    by (intro ext; simp add: retried_so_far_def meets_spec_def)+
  with assms(2) show ?thesis by (cases p) simp_all
qed

interpretation spec: call_law spec_law
proof unfold_locales
  fix env cb rq cl c c' cb' e
  show "spec_law cb c" if "Do_enter env cb rq cl = Inr c"
    using Do_enter_start [OF that] attempts.law_enter [OF that]
    by (simp add: spec_law_def retried_so_far_def answers_def)
  show "spec_law cb c \<Longrightarrow> control cb c c' \<Longrightarrow> spec_law cb c'"
    using attempts_step spec_step by (auto simp: spec_law_def)
  show "spec_law cb c \<Longrightarrow> spec_law cb (c\<lparr>c_ctx := ctx_finish e (c_ctx c)\<rparr>)"
    using attempts.law_ctx spec_at_ctx by (auto simp: spec_law_def)
  show "spec_law cb c \<Longrightarrow> same_config cb cb' \<Longrightarrow> spec_law cb' c"
    using attempts.law_config spec_at_config
    by (fastforce simp: spec_law_def same_config_def)
qed


section \<open>Resources\<close>

text \<open>
  What a call holds at each point, and the shape of its result: a response or an error, never both
  and never neither.
\<close>

fun one_of :: "do_result \<Rightarrow> bool" where
  "one_of (Returned r e) \<longleftrightarrow> (r = None) \<noteq> (e = None)"
| "one_of (Panicked _) \<longleftrightarrow> True"

definition holds_all :: "circuitBreaker \<Rightarrow> call \<Rightarrow> bool" where
  "holds_all cb c \<longleftrightarrow> (c_ticket c = None) = (state cb = None) \<and> c_slot c = (sem cb \<noteq> None)"

fun resources_at :: "circuitBreaker \<Rightarrow> call \<Rightarrow> pc \<Rightarrow> bool" where
  "resources_at cb c AtAllow = (c_ticket c = None \<and> \<not> c_slot c)"
| "resources_at cb c AtSem = ((c_ticket c = None) = (state cb = None) \<and> \<not> c_slot c)"
| "resources_at cb c (AtRelease res) =
     (one_of res \<and> (c_slot c \<longrightarrow> sem cb \<noteq> None) \<and> (c_ticket c \<noteq> None \<longrightarrow> state cb \<noteq> None))"
| "resources_at cb c (AtReport res) = (one_of res \<and> \<not> c_slot c \<and> (c_ticket c \<noteq> None \<longrightarrow> state cb \<noteq> None))"
| "resources_at cb c (AtCancel res) = (one_of res \<and> \<not> c_slot c \<and> c_ticket c = None)"
| "resources_at cb c (Done res) = (one_of res \<and> \<not> c_slot c \<and> c_ticket c = None)"
| "resources_at cb c _ = holds_all cb c"

definition resource_law :: "circuitBreaker \<Rightarrow> call \<Rightarrow> bool" where
  "resource_law cb c \<longleftrightarrow> resources_at cb c (c_pc c)"

lemma resource_frame [simp]:
  "c_ticket (goto p c) = c_ticket c" "c_ticket (return_with r e c) = c_ticket c" "c_ticket (panic_with m c) = c_ticket c"
  "c_ticket (log_all es c) = c_ticket c"
  "c_slot (goto p c) = c_slot c" "c_slot (return_with r e c) = c_slot c" "c_slot (panic_with m c) = c_slot c"
  "c_slot (log_all es c) = c_slot c"
  by (simp_all add: call_fun_defs log_all_def)

lemma waits_resources:
  assumes "waits_at p = Some (a, s)"
  shows "resources_at cb c p \<longleftrightarrow> holds_all cb c"
  using assms by (cases p) auto

lemma resources_step:
  assumes "resource_law cb c" and "control cb c c'"
  shows "resource_law cb c'"
  using assms(2)
proof cases
  case (waiting a s p)
  with assms(1) waits_resources [of "c_pc c"] waits_resources [of p] show ?thesis
    by (simp add: resource_law_def holds_all_def)
next
  case (passed a s)
  with assms(1) waits_resources [of "c_pc c"] show ?thesis by (simp add: resource_law_def holds_all_def)
next
  case (wait_failed a s e es)
  with assms(1) waits_resources [of "c_pc c"] show ?thesis by (simp add: resource_law_def holds_all_def)
next
  case (finished res)
  with assms(1) show ?thesis
    by (auto simp: resource_law_def step_cancel_def split: do_result.splits option.splits)
qed (use assms(1) in \<open>auto simp: resource_law_def holds_all_def\<close>)

interpretation resources: call_law resource_law
proof unfold_locales
  fix env cb rq cl c c' cb' e
  show "resource_law cb c" if "Do_enter env cb rq cl = Inr c"
    using Do_enter_start [OF that] by (simp add: resource_law_def)
  show "resource_law cb c \<Longrightarrow> control cb c c' \<Longrightarrow> resource_law cb c'" by (rule resources_step)
  show "resource_law cb c \<Longrightarrow> resource_law cb (c\<lparr>c_ctx := ctx_finish e (c_ctx c)\<rparr>)"
    by (cases "c_pc c") (simp_all add: resource_law_def holds_all_def)
  show "resource_law cb c \<Longrightarrow> same_config cb cb' \<Longrightarrow> resource_law cb' c"
    by (cases "c_pc c") (auto simp: resource_law_def holds_all_def same_config_def)
qed

section \<open>Panics\<close>

text \<open>A call panics only when its transport, its \<open>GetBody\<close> or its retry policy did, with the same value.\<close>

definition panicked_below :: "circuitBreaker \<Rightarrow> call \<Rightarrow> string \<Rightarrow> bool" where
  "panicked_below cb c m \<longleftrightarrow>
     Got (TransportPanic m) \<in> set (c_log c) \<or> Raised m \<in> set (c_log c) \<or>
     (\<exists>e. Got (TransportError e) \<in> set (c_log c) \<and> retryable cb e = PolicyPanic m)"

fun panics_at :: "circuitBreaker \<Rightarrow> call \<Rightarrow> pc \<Rightarrow> bool" where
  "panics_at cb c (AtRelease (Panicked m)) = panicked_below cb c m"
| "panics_at cb c (AtReport (Panicked m)) = panicked_below cb c m"
| "panics_at cb c (AtCancel (Panicked m)) = panicked_below cb c m"
| "panics_at cb c (Done (Panicked m)) = panicked_below cb c m"
| "panics_at cb c _ = True"

definition panic_law :: "circuitBreaker \<Rightarrow> call \<Rightarrow> bool" where
  "panic_law cb c \<longleftrightarrow> attempts_law cb c \<and> panics_at cb c (c_pc c)"

lemma waits_panics: "waits_at p = Some (a, s) \<Longrightarrow> panics_at cb c p"
  by (cases p) auto

lemma panics_at_log:
  assumes "c_log c' = c_log c" and "same_config cb cb'"
  shows "panics_at cb' c' p = panics_at cb c p"
proof -
  have "panicked_below cb' c' = panicked_below cb c"
    using assms by (simp add: panicked_below_def same_config_def retryable_def fun_eq_iff)
  then have "panics_at cb' c' (AtRelease r) = panics_at cb c (AtRelease r)" "panics_at cb' c' (AtReport r) = panics_at cb c (AtReport r)"
    "panics_at cb' c' (AtCancel r) = panics_at cb c (AtCancel r)" "panics_at cb' c' (Done r) = panics_at cb c (Done r)" for r
    by (cases r; simp)+
  then show ?thesis by (cases p) simp_all
qed

lemma panics_step:
  assumes "attempts_law cb c" and "panics_at cb c (c_pc c)" and "control cb c c'"
  shows "panics_at cb c' (c_pc c')"
  using assms(3)
proof cases
  case (waiting a s p)
  then show ?thesis using waits_panics by simp
next
  case (no_rewind a s m)
  with assms(1) show ?thesis by (auto simp: attempts_law_def can_replay_def)
next
  case (released res)
  with assms(2) show ?thesis by (cases res) (simp_all add: panicked_below_def)
next
  case (reported res)
  with assms(2) show ?thesis by (cases res) (simp_all add: panicked_below_def)
next
  case (finished res)
  with assms(2) show ?thesis
    by (auto simp: step_cancel_def panicked_below_def split: do_result.splits option.splits)
qed (auto simp: panicked_below_def)

interpretation panics: call_law panic_law
proof unfold_locales
  fix env cb rq cl c c' cb' e
  show "panic_law cb c" if "Do_enter env cb rq cl = Inr c"
    using Do_enter_start [OF that] attempts.law_enter [OF that] by (simp add: panic_law_def)
  show "panic_law cb c \<Longrightarrow> control cb c c' \<Longrightarrow> panic_law cb c'"
    using attempts_step panics_step by (auto simp: panic_law_def)
  show "panic_law cb c \<Longrightarrow> panic_law cb (c\<lparr>c_ctx := ctx_finish e (c_ctx c)\<rparr>)"
    using attempts.law_ctx panics_at_log [of "c\<lparr>c_ctx := ctx_finish e (c_ctx c)\<rparr>" c cb cb] by (simp add: panic_law_def)
  show "panic_law cb c \<Longrightarrow> same_config cb cb' \<Longrightarrow> panic_law cb' c"
    using attempts.law_config panics_at_log [of c c cb cb'] by (auto simp: panic_law_def)
qed

section \<open>Termination\<close>

text \<open>
  How many steps of its own a call has left, at most, when its sleeps at the gate are not
  prolonged: eight for each attempt and five to leave.
\<close>

fun rank :: "int \<Rightarrow> pc \<Rightarrow> nat" where
  "rank n AtAllow = 10 * nat (n + 1) + 7"
| "rank n AtSem = 10 * nat (n + 1) + 6"
| "rank n (AtLoop a) = 10 * nat (n + 1 - a) + 5"
| "rank n (AtGate a _) = 10 * nat (n - a) + 14"
| "rank n (AtGateSleep a _ _) = 10 * nat (n - a) + 13"
| "rank n (AtToken a _) = 10 * nat (n - a) + 12"
| "rank n (AtTokenWait a _) = 10 * nat (n - a) + 11"
| "rank n (AtSend a _) = 10 * nat (n - a) + 10"
| "rank n (AtRewind a _) = 10 * nat (n - a) + 9"
| "rank n (AtTransport a _) = 10 * nat (n - a) + 8"
| "rank n (AtRetryAfter a _ _) = 10 * nat (n - a) + 7"
| "rank n (AtPause a _) = 10 * nat (n - a) + 6"
| "rank n (AtRelease _) = 4"
| "rank n (AtReport _) = 3"
| "rank n (AtCancel _) = 2"
| "rank n (Done _) = 0"

lemma waits_rank:
  assumes "waits_at p = Some (a, s)"
  shows "rank n p = 10 * nat (n - a) + 14 - wait_stage p" and "wait_stage p \<le> 3"
  using assms by (cases p; simp)+

lemma rank_step:
  assumes "control cb c c'"
  shows "rank (MaxRetries cb) (c_pc c') < rank (MaxRetries cb) (c_pc c) \<or>
    wait_stage (c_pc c) = 1 \<and> wait_stage (c_pc c') = 1"
  using assms
proof cases
  case (waiting a s p)
  with waits_rank(1) [of "c_pc c" a s "MaxRetries cb"] waits_rank(1) [of p a s "MaxRetries cb"] waits_rank(2) [of p a s] show ?thesis by auto
next
  case (passed a s)
  with waits_rank(1) [of "c_pc c" a s "MaxRetries cb"] waits_rank(2) [of "c_pc c" a s] show ?thesis by auto
next
  case (wait_failed a s e es)
  with waits_rank(1) [of "c_pc c" a s "MaxRetries cb"] waits_rank(2) [of "c_pc c" a s] show ?thesis by auto
next
  case (finished res)
  then show ?thesis by (auto simp: step_cancel_def split: do_result.splits option.splits)
qed auto

end
