(* ===== verification/Do_Properties.thy ===== *)
theory Do_Properties
  imports Call_Laws
begin

text \<open>
  The properties of \<open>Do\<close>, each drawn from a law of Call\_Laws. A concrete call, run step by step,
  shows that the hypotheses can hold.
\<close>

section \<open>A sample call\<close>

definition sample_env :: env where
  "sample_env = \<lparr>clock = 1000000000, rand_N = (\<lambda>_. 0), zone_offset = (\<lambda>_ _. 0)\<rparr>"

definition sample_request :: request where
  "sample_request = \<lparr>URL = Some \<lparr>Host = ''api'', Path = ''''\<rparr>, has_Body = True, has_GetBody = True, Ctx = background\<rparr>"

definition sample_breaker :: circuitBreaker where
  "sample_breaker = NewCircuitBreakerWithOptions ''b'' 1 0 0 1 [Some (WithBreaker 3 10 1)]"

text \<open>One retry, then a success: the transport times out once and answers the second attempt.\<close>

definition sample_timeout :: go_error where
  "sample_timeout = UrlError ''Get'' ''http://api'' (NetErr ''timeout'' True False None)"

definition sample_answer :: response where
  "sample_answer = \<lparr>StatusCode = 200, Header_RetryAfter = '''', Body = Some NetBody\<rparr>"

definition later_env :: env where
  "later_env = sample_env\<lparr>clock := 3000000000\<rparr>"

definition sample_script :: "(env \<times> input) list" where
  "sample_script =
     [(sample_env, Run), (sample_env, Arm ArmSlot), (sample_env, Run), (sample_env, Run),
      (sample_env, Run), (sample_env, Run), (sample_env, Reply (TransportError sample_timeout)),
      (later_env, Arm ArmTimer), (later_env, Run), (later_env, Run), (later_env, Run), (later_env, Run),
      (later_env, Rewind FreshBody), (later_env, Reply (Answer sample_answer)),
      (later_env, Run), (later_env, Run), (later_env, Run)]"

definition sample_start :: call where
  "sample_start = \<lparr>c_req = sample_request, c_url = \<lparr>Host = ''api'', Path = ''''\<rparr>, c_ctx = background,
     c_cancel = False, c_lastErr = None, c_ticket = None, c_slot = False, c_pc = AtAllow, c_log = []\<rparr>"

lemma sample_enters: "Do_enter sample_env sample_breaker (Some sample_request) None = Inr sample_start"
  by (simp add: Do_enter_def sample_request_def sample_breaker_def sample_start_def Let_def background_def
      http_DefaultClient_def NewCircuitBreakerWithOptions_def newCircuitBreaker_def WithBreaker_def frame_simps)

lemma marked_fields [simp]:
  "sem (marked k s env cb c) = sem cb" "state (marked k s env cb c) = state cb"
  "tokens (marked k s env cb c) = tokens cb" "statusFailMin (marked k s env cb c) = statusFailMin cb"
  "expBackoff (marked k s env cb c) = expBackoff cb" "backoff (marked k s env cb c) = backoff cb"
  by (simp_all add: marked_def)

lemma sample_fields [simp]:
  "MaxRetries sample_breaker = 1" "retryPolicy sample_breaker = None" "retryAfterMax sample_breaker = 0"
  "statusFailMin sample_breaker = 0" "tokens sample_breaker = None" "expBackoff sample_breaker = None"
  "backoff sample_breaker = 500 * millisecond" "sem sample_breaker = Some \<lparr>ch_len = 0, ch_cap = 1\<rparr>"
  "state sample_breaker = Some (newBreakerState 3 10 1)" "metrics_ok (metrics sample_breaker)"
  by (simp_all add: sample_breaker_def NewCircuitBreakerWithOptions_def newCircuitBreaker_def WithBreaker_def
      frame_simps initTokenBucket_def make_chan_def metrics_ok_empty)

lemmas step_defs = do_step_def step_allow_def step_sem_def step_loop_def gate_outcome_def waitRetryAfterGate_def
  step_token_def token_outcome_def waitForToken_def step_send_def step_rewind_def step_transport_def
  transport_answered_def transport_failed_def step_pause_def step_release_def step_report_def step_cancel_def
  call_fun_defs recorded_ok

lemma sample_run:
  "\<exists>cb c. exec sample_script (sample_breaker, sample_start) = Some (cb, c) \<and>
     c_pc c = Done (Returned (Some sample_answer) None)"
  by (simp add: sample_script_def sample_env_def later_env_def sample_start_def sample_request_def
      step_defs allow_def newBreakerState_def try_send_def try_recv_def Let_def sample_timeout_def
      backoffFor_def time_add_def sample_answer_def can_replay_def)


lemma exec_config: "exec es (cb, c) = Some (cb', c') \<Longrightarrow> reach cb c \<Longrightarrow> same_config cb cb'"
proof (induction es arbitrary: cb c)
  case (Cons e es)
  obtain env i where e: "e = (env, i)" by fastforce
  with Cons.prems obtain cb1 c1 where s: "do_step env i cb c = Some (cb1, c1)" "exec es (cb1, c1) = Some (cb', c')"
    by (auto split: option.splits)
  with Cons.prems(2) have "same_config cb cb1" "reach cb1 c1"
    using do_step_control reach_books by (auto simp: keeps_def intro: reach.own)
  with Cons.IH [OF s(2)] show ?case using same_config_trans by blast
qed simp

lemma sample_end:
  obtains cb c where "exec sample_script (sample_breaker, sample_start) = Some (cb, c)"
    "c_pc c = Done (Returned (Some sample_answer) None)" "reach cb c" "same_config sample_breaker cb"
    "c_log c = [Recorded Attempt, Sent, Got (TransportError sample_timeout), Recorded Failure, Recorded Retry,
       Recorded Attempt, Rewound, Sent, Got (Answer sample_answer), Recorded Success]"
    "c_req c = sample_request"
proof -
  have "\<exists>cb c. exec sample_script (sample_breaker, sample_start) = Some (cb, c) \<and>
     c_pc c = Done (Returned (Some sample_answer) None) \<and>
     c_log c = [Recorded Attempt, Sent, Got (TransportError sample_timeout), Recorded Failure, Recorded Retry,
       Recorded Attempt, Rewound, Sent, Got (Answer sample_answer), Recorded Success] \<and> c_req c = sample_request"
    by (simp add: sample_script_def sample_env_def later_env_def sample_start_def sample_request_def
        step_defs allow_def newBreakerState_def try_send_def try_recv_def Let_def sample_timeout_def
        backoffFor_def time_add_def sample_answer_def can_replay_def)
  moreover have "reach sample_breaker sample_start"
    using sample_enters by (rule reach.enter) simp
  ultimately show ?thesis using exec_reach exec_config that by blast
qed

section \<open>Properties\<close>

text \<open>C1: With the \<open>Retry-After\<close> option off, the result of a call is the function \<open>retry_spec\<close> of the
  answers its transport gave: a response ends it, an error that may not be retried (by the policy,
  or because the body cannot be replayed) ends it with that error, and after the last retry it
  ends with the exhaustion error around the last failure. When the answers decide nothing yet, it
  can only end with an error of its own (circuit open, stopped, a failed \<open>GetBody\<close>, or the error of
  its context) or with the panic of \<open>GetBody\<close>. This holds under any interference of other calls.\<close>

theorem do_meets_retry_spec:
  assumes "reach cb c" and "c_pc c = Done res" and "retryAfterMax cb \<le> 0" and "0 \<le> MaxRetries cb"
  shows "meets_spec same_response cb c res"
  using spec.holds [OF assms(1)] assms(2-4) by (simp add: spec_law_def)

theorem do_meets_retry_spec_witness:
  "\<exists>cb c. reach cb c \<and> c_pc c = Done (Returned (Some sample_answer) None) \<and>
     answers c = [TransportError sample_timeout, Answer sample_answer] \<and>
     meets_spec same_response cb c (Returned (Some sample_answer) None)"
proof -
  obtain cb c where c: "c_pc c = Done (Returned (Some sample_answer) None)" "reach cb c" "same_config sample_breaker cb"
    "answers c = [TransportError sample_timeout, Answer sample_answer]"
    by (rule sample_end) (simp add: answers_def)
  with do_meets_retry_spec [OF c(2,1)] show ?thesis by (auto simp: same_config_def)
qed

text \<open>C7: A call never sends more than \<open>MaxRetries + 1\<close> requests, sends more than one only if it has no
  body or a body that can be rewound, and rewinds the body exactly once before each resend.\<close>

theorem attempts_bounded:
  assumes "reach cb c" and "c_pc c = Done res"
  shows "0 \<le> n_sent c \<and> n_sent c \<le> max 0 (MaxRetries cb + 1) \<and>
    (1 < n_sent c \<longrightarrow> \<not> has_Body (c_req c) \<or> has_GetBody (c_req c)) \<and>
    n_rewound c = (if has_Body (c_req c) then max 0 (n_sent c - 1) else 0)"
  using attempts.holds [OF assms(1)] assms(2)
  by (simp add: attempts_law_def ended_def can_replay_def rewinds_def)

theorem attempts_bounded_witness:
  "\<exists>cb c. reach cb c \<and> MaxRetries cb = 1 \<and> n_sent c = 2 \<and> n_rewound c = 1"
proof -
  obtain cb c where c: "c_pc c = Done (Returned (Some sample_answer) None)" "reach cb c" "same_config sample_breaker cb"
    "n_sent c = 2" "has_Body (c_req c)"
    by (rule sample_end) (simp add: n_sent_def sample_request_def)
  with attempts_bounded [OF c(2,1)] show ?thesis by (auto simp: same_config_def)
qed

text \<open>C27: The metrics of a finished call add up: successes and failures match the attempts, except
  that a wait that failed counts one failure without an attempt, which is also counted as a
  cancelled wait unless the breaker was stopped, and that a panic may leave one attempt unsettled.
  Every attempt but the first is announced by a retry, and there are at most \<open>MaxRetries\<close> of them.\<close>

theorem call_accounting:
  assumes "reach cb c" and "c_pc c = Done res"
  shows "settled c res \<and> n_recorded Attempt c \<le> n_recorded Retry c + 1 \<and>
    n_recorded Retry c \<le> n_recorded Attempt c \<and> n_recorded Retry c \<le> max 0 (MaxRetries cb)"
  using attempts.holds [OF assms(1)] assms(2) by (simp add: attempts_law_def ended_def)

theorem call_accounting_witness:
  "\<exists>cb c. reach cb c \<and> n_recorded Attempt c = 2 \<and> n_recorded Failure c = 1 \<and> n_recorded Success c = 1 \<and>
     settled c (Returned (Some sample_answer) None)"
proof -
  obtain cb c where c: "c_pc c = Done (Returned (Some sample_answer) None)" "reach cb c"
    "n_recorded Attempt c = 2" "n_recorded Failure c = 1" "n_recorded Success c = 1"
    by (rule sample_end) (simp add: n_recorded_def)
  with call_accounting [OF c(2,1)] show ?thesis by blast
qed

text \<open>C11: However a call ends, by a result, an error or a panic, it has given its slot back and
  reported to the state machine, and a result is a response or an error, never both and never
  neither.\<close>

theorem resources_returned:
  assumes "reach cb c" and "c_pc c = Done res"
  shows "\<not> c_slot c \<and> c_ticket c = None \<and> one_of res"
  using resources.holds [OF assms(1)] assms(2) by (simp add: resource_law_def)

theorem resources_returned_witness:
  "\<exists>cb c. reach cb c \<and> \<not> c_slot c \<and> c_ticket c = None \<and> one_of (Returned (Some sample_answer) None)"
proof -
  obtain cb c where c: "c_pc c = Done (Returned (Some sample_answer) None)" "reach cb c"
    by (rule sample_end) simp
  with resources_returned [OF c(2,1)] show ?thesis by blast
qed


text \<open>The steps of a run that prolong a sleep at the gate.\<close>

fun resleeps :: "(env \<times> input) list \<Rightarrow> circuitBreaker \<times> call \<Rightarrow> nat" where
  "resleeps [] s = 0"
| "resleeps ((env, i) # es) s =
     (case do_step env i (fst s) (snd s) of
        None \<Rightarrow> 0
      | Some s' \<Rightarrow>
          (if wait_stage (c_pc (snd s)) = 1 \<and> wait_stage (c_pc (snd s')) = 1 then 1 else 0) + resleeps es s')"

lemma exec_rank:
  "exec es (cb, c) = Some (cb', c') \<Longrightarrow> metrics_ok (metrics cb) \<Longrightarrow>
   length es + rank (MaxRetries cb) (c_pc c') \<le> rank (MaxRetries cb) (c_pc c) + resleeps es (cb, c)"
proof (induction es arbitrary: cb c)
  case (Cons e es)
  obtain env i where e: "e = (env, i)" by fastforce
  with Cons.prems obtain cb1 c1 where s: "do_step env i cb c = Some (cb1, c1)" "exec es (cb1, c1) = Some (cb', c')"
    by (auto split: option.splits)
  with Cons.prems(2) have k: "control cb c c1" "MaxRetries cb1 = MaxRetries cb" "metrics_ok (metrics cb1)"
    using do_step_control by (auto simp: keeps_def same_config_def)
  have same: "rank n p = rank n p'" if "wait_stage p = 1 \<and> wait_stage p' = 1" "waits_at p = waits_at p'" for n p p'
    using that by (cases p; cases p') auto
  have "waits_at (c_pc c1) = waits_at (c_pc c)" if "wait_stage (c_pc c) = 1 \<and> wait_stage (c_pc c1) = 1"
    using k(1) that by (auto elim!: control.cases simp: step_cancel_def split: do_result.splits option.splits)
  with rank_step [OF k(1)] same [of "c_pc c" "c_pc c1"] Cons.IH [OF s(2) k(3)] k(2) s(1) e show ?case
    by (auto split: if_splits)
qed simp

text \<open>C13: A call terminates: a run of its own steps is at most ten steps for each of its
  \<open>MaxRetries + 1\<close> attempts and seven more, besides the wake-ups at the gate that find it moved
  further into the future. So whenever the transport, the timers and the channels it waits for
  answer, it comes to an end.\<close>

theorem call_terminates:
  assumes "Do_enter env cb rq cl = Inr c" and "metrics_ok (metrics cb)" and "exec es (cb, c) = Some (cb', c')"
  shows "length es \<le> 10 * nat (MaxRetries cb + 1) + 7 + resleeps es (cb, c)"
  using exec_rank [OF assms(3,2)] Do_enter_start [OF assms(1)] by simp

theorem call_terminates_witness:
  "length sample_script = 17 \<and> length sample_script \<le> 10 * nat (MaxRetries sample_breaker + 1) + 7 +
     resleeps sample_script (sample_breaker, sample_start)"
proof -
  obtain cb c where "exec sample_script (sample_breaker, sample_start) = Some (cb, c)"
    by (rule sample_end)
  from call_terminates [OF sample_enters _ this] show ?thesis by (simp add: sample_script_def)
qed

text \<open>A call rejected by the state machine touches nothing: it comes back with the circuit-open
  error after running its deferred functions, having sent nothing and recorded nothing, and the
  breaker (slots, tokens, gate, metrics, state machine) is as it was.\<close>

theorem fast_fail_untouched:
  assumes "state cb = Some b" and "bs_inv b" and "allow (clock env) b = (Inl e, b')"
    and "c_pc c = AtAllow" and "\<not> c_slot c" and "c_ticket c = None"
  shows "\<exists>c'. exec (replicate 4 (env, Run)) (cb, c) = Some (cb, c') \<and>
    c_pc c' = Done (Returned None (Some ErrCircuitOpen)) \<and> c_log c' = c_log c"
proof -
  have "e = ErrCircuitOpen" "b' = b"
    using allow_error [OF assms(3)] adm.admit_reject [OF assms(2,3)] by simp_all
  moreover have "cb\<lparr>state := Some b\<rparr> = cb"
    using assms(1) by (cases cb) simp
  ultimately show ?thesis
    using assms by (simp add: numeral_eq_Suc step_defs)
qed

theorem fast_fail_untouched_witness:
  "\<exists>c'. exec (replicate 4 (sample_env, Run))
      (sample_breaker\<lparr>state := Some (sample_machine\<lparr>cur := StateOpen, openedAt := 999999999\<rparr>)\<rparr>, sample_start) =
      Some (sample_breaker\<lparr>state := Some (sample_machine\<lparr>cur := StateOpen, openedAt := 999999999\<rparr>)\<rparr>, c') \<and>
    c_pc c' = Done (Returned None (Some ErrCircuitOpen)) \<and> c_log c' = []"
proof -
  let ?b = "sample_machine\<lparr>cur := StateOpen, openedAt := 999999999\<rparr>"
  have "allow (clock sample_env) ?b = (Inl ErrCircuitOpen, ?b)"
    by (simp add: allow_def sample_env_def sample_machine_def newBreakerState_def time_sub_def sat64_def)
  from fast_fail_untouched [where cb = "sample_breaker\<lparr>state := Some ?b\<rparr>" and c = sample_start, OF _ _ this]
  show ?thesis
    by (simp add: sample_start_def bs_inv_def sample_machine_def newBreakerState_def)
qed

text \<open>The default timeout is applied exactly when the option is on and neither the client nor the
  request has a limit of its own. Its context is cancelled as soon as the call fails or ends
  without a body; with a body it stays alive when the call returns, and closing that body cancels
  it.\<close>

theorem default_timeout_context:
  assumes "Do_enter env cb (Some rq) cl = Inr c" and "ctx_err (Ctx rq) = None"
  shows "c_cancel c = (0 < defaultTimeout cb \<and> ctx_deadline (Ctx rq) = None \<and>
      (case cl of None \<Rightarrow> True | Some x \<Rightarrow> client_Timeout x = 0)) \<and>
    ctx_deadline (c_ctx c) = (if c_cancel c then Some (clock env + defaultTimeout cb) else ctx_deadline (Ctx rq)) \<and>
    (c_cancel c \<longrightarrow>
      ctx_err (c_ctx (step_cancel (Returned r (Some e)) c)) = Some CtxCanceled \<and>
      ctx_err (c_ctx (step_cancel (Panicked m) c)) = Some CtxCanceled \<and>
      (let d = step_cancel (Returned (Some resp) None) c
       in case Body resp of
            None \<Rightarrow> ctx_err (c_ctx d) = Some CtxCanceled
          | Some b \<Rightarrow> ctx_err (c_ctx d) = None \<and>
              c_pc d = Done (Returned (Some (resp\<lparr>Body := Some (CancelOnClose b)\<rparr>)) None) \<and>
              ctx_err (body_Close (CancelOnClose b) (c_ctx d)) \<noteq> None))"
  using assms
  by (auto simp: Do_enter_def Let_def http_DefaultClient_def with_timeout_def time_add_def step_cancel_def
      call_fun_defs ctx_cancel_def ctx_finish_err split: option.splits if_splits)

theorem default_timeout_context_witness:
  "\<exists>c. Do_enter sample_env (WithDefaultTimeout 5 sample_breaker) (Some sample_request) None = Inr c \<and>
     c_cancel c \<and> ctx_deadline (c_ctx c) = Some 1000000005 \<and>
     ctx_err (c_ctx (step_cancel (Returned (Some sample_answer) None) c)) = None"
proof -
  obtain c where c: "Do_enter sample_env (WithDefaultTimeout 5 sample_breaker) (Some sample_request) None = Inr c"
    by (simp add: Do_enter_def sample_request_def Let_def)
  show ?thesis
    using c default_timeout_context [OF c, where resp = sample_answer]
    by (simp add: WithDefaultTimeout_def sample_request_def background_def sample_answer_def sample_env_def Let_def)
qed

text \<open>What a call reports to the state machine: a panic is a failure; a deadline that passes while
  the call waits is neutral, unless the transport has failed before, when it is a failure; an
  explicit cancellation is neutral in any case, also inside the error of the transport; the end
  by \<open>Stop\<close> is neutral; running out of retries is a failure.\<close>

theorem call_outcome_table:
  "call_outcome (Panicked m) lastErr min_code = outcomeFailure \<and>
   call_outcome (Returned None (Some CtxDeadlineExceeded)) lastErr min_code =
     (if lastErr = None then outcomeNeutral else outcomeFailure) \<and>
   call_outcome (Returned None (Some CtxCanceled)) lastErr min_code = outcomeNeutral \<and>
   call_outcome (Returned None (Some (UrlError op u CtxCanceled))) lastErr min_code = outcomeNeutral \<and>
   call_outcome (Returned None (Some ErrStopped)) lastErr min_code = outcomeNeutral \<and>
   call_outcome (Returned None (Some (RetriesExhausted None))) lastErr min_code = outcomeFailure \<and>
   call_outcome (Returned None (Some (RetriesExhausted (Some (UrlError op u (NetErr t x y None)))))) lastErr min_code = outcomeFailure"
  by (simp add: call_outcome_def classifyOutcome_def errors_Is_def errors_As_def Let_def)

text \<open>A local error is not always neutral: when \<open>GetBody\<close> fails with an error that wraps
  \<open>context.DeadlineExceeded\<close> after a failed attempt, the call reports a failure.\<close>

theorem local_deadline_escalated:
  "call_outcome (Returned None (Some (LocalOp (Wrapped m CtxDeadlineExceeded)))) (Some e) min_code = outcomeFailure \<and>
   classifyOutcome None (Some (LocalOp (Wrapped m CtxDeadlineExceeded))) min_code = outcomeNeutral"
  by (simp add: call_outcome_def classifyOutcome_def errors_Is_def errors_As_def Let_def)

text \<open>With a negative number of retries a call sends nothing: the loop is left at once with the
  exhaustion error, which has no cause, and the call is reported to the state machine as a
  failure.\<close>

theorem negative_retries_send_nothing:
  assumes "MaxRetries cb < 0" and "c_pc c = AtLoop 0" and "c_lastErr c = None"
  shows "do_step env Run cb c = Some (cb, return_with None (Some ErrRetriesExhausted) c) \<and>
    call_outcome (Returned None (Some ErrRetriesExhausted)) (c_lastErr c) (statusFailMin cb) = outcomeFailure"
  using assms
  by (simp add: do_step_def step_loop_def retries_exhausted_def ErrRetriesExhausted_def call_outcome_def classifyOutcome_def
      errors_Is_def errors_As_def Let_def)

theorem negative_retries_send_nothing_witness:
  "do_step sample_env Run (newCircuitBreaker ''n'' 0 0 0 (-1)) (sample_start\<lparr>c_pc := AtLoop 0\<rparr>) =
     Some (newCircuitBreaker ''n'' 0 0 0 (-1),
       return_with None (Some ErrRetriesExhausted) (sample_start\<lparr>c_pc := AtLoop 0\<rparr>))"
  using negative_retries_send_nothing [of "newCircuitBreaker ''n'' 0 0 0 (-1)" "sample_start\<lparr>c_pc := AtLoop 0\<rparr>" sample_env]
  by (simp add: newCircuitBreaker_def sample_start_def)


lemma sample_panic:
  "\<exists>cb c. exec (take 6 sample_script @ (sample_env, Reply (TransportPanic ''boom'')) # replicate 3 (sample_env, Run))
     (sample_breaker, sample_start) = Some (cb, c) \<and> c_pc c = Done (Panicked ''boom'')"
  by (simp add: sample_script_def sample_env_def later_env_def sample_start_def sample_request_def numeral_eq_Suc
      step_defs allow_def newBreakerState_def try_send_def try_recv_def Let_def)


text \<open>C38: The gate is checked before the token, and not again after it: a call that already waits for a
  token when another response arms the gate is let through by the next token, and sends its
  request while the gate is still closed.\<close>

theorem token_waiters_skip_gate:
  assumes "waitRetryAfterGate (clock env) cb = GateSleep d" and "c_pc c = AtTokenWait 0 start"
    and "tokens cb = Some ch" and "0 < ch_len ch" and "metrics_ok (metrics cb)"
  shows "\<exists>cb' c'. exec [(env, Arm ArmToken), (env, Run)] (cb, c) = Some (cb', c') \<and>
    c_pc c' = AtTransport 0 start \<and> c_log c' = c_log c @ [Recorded Attempt, Sent] \<and>
    waitRetryAfterGate (clock env) cb' = GateSleep d"
proof -
  have gate: "waitRetryAfterGate t (marked k st env cb1 c1) = waitRetryAfterGate t cb1" for t k st env cb1 c1
    by (simp add: waitRetryAfterGate_def marked_def)
  have "waitRetryAfterGate t (cb\<lparr>tokens := x\<rparr>) = waitRetryAfterGate t cb" for t x
    by (simp add: waitRetryAfterGate_def)
  with assms gate show ?thesis
    by (simp add: step_defs [unfolded waitRetryAfterGate_def] waitForToken_select_def try_recv_def)
qed

theorem token_waiters_skip_gate_witness:
  "\<exists>cb' c'. exec [(sample_env, Arm ArmToken), (sample_env, Run)]
      (sample_breaker\<lparr>retryAfterMax := 60, retryAfterUntil := 1000000050, tokens := Some \<lparr>ch_len = 1, ch_cap = 1\<rparr>\<rparr>,
       sample_start\<lparr>c_pc := AtTokenWait 0 0\<rparr>) = Some (cb', c') \<and>
    c_pc c' = AtTransport 0 0 \<and> waitRetryAfterGate (clock sample_env) cb' = GateSleep 50"
proof -
  let ?cb = "sample_breaker\<lparr>retryAfterMax := 60, retryAfterUntil := 1000000050, tokens := Some \<lparr>ch_len = 1, ch_cap = 1\<rparr>\<rparr>"
  have "waitRetryAfterGate (clock sample_env) ?cb = GateSleep 50"
    by (simp add: waitRetryAfterGate_def sample_env_def time_until_def time_sub_def sat64_def time_unix_0_def)
  from token_waiters_skip_gate [OF this, of "sample_start\<lparr>c_pc := AtTokenWait 0 0\<rparr>" 0 "\<lparr>ch_len = 1, ch_cap = 1\<rparr>"]
  show ?thesis by auto
qed

end
