(* ===== verification/Effects.thy ===== *)
theory Effects
  imports Do_Properties
begin

text \<open>
  What one step of a call does to the shared breaker: to the semaphore, to the state machine, to the
  bucket and to the metrics. \<open>System\<close> rests on these facts alone.
\<close>

section \<open>Metrics\<close>

text \<open>What the log of a call adds to the aggregate of a host.\<close>

fun event_tally :: "call_event \<Rightarrow> tally" where
  "event_tally (Recorded k) = kind_tally k"
| "event_tally _ = 0"

definition log_tally :: "call \<Rightarrow> string \<Rightarrow> call_event list \<Rightarrow> tally" where
  "log_tally c h es = (if Host (c_url c) = h then \<Sum>e \<leftarrow> es. event_tally e else 0)"

lemma log_tally_simps [simp]:
  "log_tally c h [] = 0" "log_tally c h (es @ fs) = log_tally c h es + log_tally c h fs"
  "log_tally (c\<lparr>c_lastErr := l\<rparr>) = log_tally c" "log_tally (c\<lparr>c_ctx := x\<rparr>) = log_tally c"
  "log_tally (goto p c) = log_tally c" "log_tally (log_event e c) = log_tally c"
  by (simp_all add: log_tally_def fun_eq_iff goto_def log_event_def)

lemma log_tally_Cons: "log_tally c h (e # es) = log_tally c h [e] + log_tally c h es"
  by (simp add: log_tally_def)

text \<open>
  A step that neither takes nor returns a slot or a ticket, and books in the metrics exactly what
  it logs.
\<close>

definition quiet :: "circuitBreaker \<times> call \<Rightarrow> circuitBreaker \<times> call \<Rightarrow> bool" where
  "quiet s s' \<longleftrightarrow>
     sem (fst s') = sem (fst s) \<and> state (fst s') = state (fst s) \<and>
     refilling (fst s') = refilling (fst s) \<and> tokenStop (fst s') = tokenStop (fst s) \<and>
     c_slot (snd s') = c_slot (snd s) \<and> c_ticket (snd s') = c_ticket (snd s) \<and>
     (tokens (fst s') = tokens (fst s) \<or>
       (\<exists>d. tokens (fst s) \<noteq> None \<and> try_recv (the (tokens (fst s))) = Some d \<and> tokens (fst s') = Some d))"

definition booked :: "circuitBreaker \<times> call \<Rightarrow> circuitBreaker \<times> call \<Rightarrow> bool" where
  "booked s s' \<longleftrightarrow> metrics_ok (metrics (fst s')) \<and> c_url (snd s') = c_url (snd s) \<and>
     (\<exists>es. c_log (snd s') = c_log (snd s) @ es \<and>
       (\<forall>h. tally_at (metrics (fst s')) h root_key = tally_at (metrics (fst s)) h root_key + log_tally (snd s) h es))"

lemma booked_refl:
  "metrics_ok (metrics cb) \<Longrightarrow> metrics cb' = metrics cb \<Longrightarrow> c_log c' = c_log c \<Longrightarrow> c_url c' = c_url c \<Longrightarrow> booked (cb, c) (cb', c')"
  by (auto simp: booked_def intro!: exI [of _ "[]"])

lemma log_tally_url: "c_url c' = c_url c \<Longrightarrow> log_tally c' = log_tally c"
  by (simp add: log_tally_def fun_eq_iff)

lemma booked_trans: "booked s s' \<Longrightarrow> booked s' s'' \<Longrightarrow> booked s s''"
  unfolding booked_def
  using log_tally_url [of "snd s'" "snd s"] by (fastforce simp: add.assoc intro: exI [of _ "_ @ _"])

lemma booked_marked:
  assumes "metrics_ok (metrics cb)"
  shows "booked (cb, c) (marked k s env cb c, log_event (Recorded k) c)"
proof -
  obtain m where m: "record_kind k (Host (c_url c)) (call_endpoint c) s (clock env) (metrics cb) = Some m"
    "metrics_ok m"
    "\<forall>h e. tally_at m h e = tally_at (metrics cb) h e +
       (if h = Host (c_url c) \<and> (e = root_key \<or> e = target_key (metrics cb) (Host (c_url c)) (call_endpoint c))
        then kind_tally k else 0)"
    using record_kind_effect [OF assms] by blast
  then have "metrics (marked k s env cb c) = m" by (simp add: marked_def)
  with m show ?thesis
    by (auto simp: booked_def log_event_def log_tally_def)
qed

lemma quiet_marked [simp]: "quiet s (marked k st env cb c, log_event e c') = quiet s (cb, c')"
  by (simp add: quiet_def marked_def log_event_def)


lemma booked_simps [simp]:
  "booked s (cb, goto p c) = booked s (cb, c)" "booked s (cb, return_with r x c) = booked s (cb, c)"
  "booked s (cb, panic_with m c) = booked s (cb, c)"
  "booked s (cb, c\<lparr>c_lastErr := l\<rparr>) = booked s (cb, c)" "booked s (cb, c\<lparr>c_ctx := y\<rparr>) = booked s (cb, c)"
  "booked s (cb, c\<lparr>c_slot := b\<rparr>) = booked s (cb, c)" "booked s (cb, c\<lparr>c_ticket := t\<rparr>) = booked s (cb, c)"
  "booked s (cb\<lparr>sem := ch\<rparr>, c) = booked s (cb, c)" "booked s (cb\<lparr>tokens := ch\<rparr>, c) = booked s (cb, c)"
  "booked s (cb\<lparr>state := st\<rparr>, c) = booked s (cb, c)"
  by (simp_all add: booked_def call_fun_defs)

lemma booked_gate [simp]: "booked s (extendRetryAfterGate until cb, c) = booked s (cb, c)"
  by (simp add: booked_def frame_simps)

lemma booked_self: "metrics_ok (metrics cb) \<Longrightarrow> booked (cb, c) (cb, c)"
  by (simp add: booked_refl)

lemma booked_log: "booked s (cb, c) \<Longrightarrow> event_tally e = 0 \<Longrightarrow> booked s (cb, log_event e c)"
proof -
  assume b: "booked s (cb, c)" and e: "event_tally e = 0"
  obtain es where "c_log c = c_log (snd s) @ es"
    "\<forall>h. tally_at (metrics cb) h root_key = tally_at (metrics (fst s)) h root_key + log_tally (snd s) h es"
    using b by (auto simp: booked_def)
  with b e show ?thesis
    by (auto simp: booked_def log_event_def log_tally_def intro!: exI [of _ "es @ [e]"])
qed

lemma booked_mark: "booked s (cb, c) \<Longrightarrow> booked s (marked k st env cb c, log_event (Recorded k) c)"
  using booked_trans booked_marked booked_def by (metis fst_conv)

lemma booked_ok: "booked s (cb, c) \<Longrightarrow> metrics_ok (metrics cb)"
  by (simp add: booked_def)

lemma recorded_booked:
  assumes "booked s (cb, c)" and "\<And>cb' c'. booked s (cb', c') \<Longrightarrow> booked s (f (cb', c'))"
  shows "booked s (recorded k st env f (cb, c))"
  using assms booked_mark recorded_ok(1) booked_ok by metis

lemmas booked_rules = recorded_booked booked_log booked_self

lemma wait_failed_booked: "metrics_ok (metrics cb) \<Longrightarrow> booked (cb, c) (wait_failed env st e cb c)"
  unfolding wait_failed_def by (auto intro!: booked_rules)

lemma gate_outcome_booked:
  "metrics_ok (metrics cb) \<Longrightarrow> gate_outcome env a st g cb c = Some r \<Longrightarrow> booked (cb, c) r"
  using wait_failed_booked [of cb c env st] booked_self [of cb c] by (cases g) (auto simp: gate_outcome_def)

lemma token_outcome_booked:
  assumes "metrics_ok (metrics cb)" and "token_outcome env a st w c cb = Some r"
    and "\<And>cb'. w = Pass cb' \<Longrightarrow> metrics cb' = metrics cb"
  shows "booked (cb, c) r"
  using assms wait_failed_booked [of cb c env st] booked_refl [of cb]
  by (cases w) (auto simp: token_outcome_def)

lemma step_token_booked:
  assumes "metrics_ok (metrics cb)"
  shows "booked (cb, c) (step_token env a st cb c)"
    and "token_outcome env a st (waitForToken_select arm (c_ctx c) cb) c cb = Some r \<Longrightarrow> booked (cb, c) r"
    and "gate_outcome env a st g cb c = Some r \<Longrightarrow> booked (cb, c) r"
proof -
  show "booked (cb, c) (step_token env a st cb c)"
    using token_outcome_booked [OF assms, of env a st "waitForToken (c_ctx c) cb" c] token_fail_cases(3) booked_self [OF assms, of c]
    by (auto simp: step_token_def split: option.splits)
qed (use token_outcome_booked [OF assms] token_fail_cases(4) gate_outcome_booked [OF assms] in blast)+

lemma step_send_booked: "metrics_ok (metrics cb) \<Longrightarrow> booked (cb, c) (step_send env a st cb c)"
  unfolding step_send_def by (auto intro!: booked_rules split: if_splits)

lemma step_rewind_booked: "metrics_ok (metrics cb) \<Longrightarrow> booked (cb, c) (step_rewind env a st r cb c)"
  unfolding step_rewind_def by (cases r) (auto intro!: booked_rules)

lemma step_transport_booked: "metrics_ok (metrics cb) \<Longrightarrow> booked (cb, c) (step_transport env a st r cb c)"
  unfolding step_transport_def transport_answered_def transport_failed_def Let_def
  by (cases r) (auto intro!: booked_rules split: policy_verdict.splits if_splits)

lemma step_retry_after_booked: "metrics_ok (metrics cb) \<Longrightarrow> booked (cb, c) (step_retry_after env a st r cb c)"
  unfolding step_retry_after_def Let_def
  by (auto intro!: booked_rules split: option.splits if_splits)

lemma step_ends_booked:
  assumes "metrics_ok (metrics cb)"
  shows "booked (cb, c) (step_allow env cb c)" "booked (cb, c) (step_loop env a cb c)"
    "step_sem i cb c = Some r \<Longrightarrow> booked (cb, c) r" "step_pause env a w arm cb c = Some r \<Longrightarrow> booked (cb, c) r"
    "step_release res cb c = Some r \<Longrightarrow> booked (cb, c) r" "booked (cb, c) (step_report env res cb c)"
    "booked (cb, c) (cb, step_cancel res c)"
  using booked_self [OF assms, of c]
  by (auto simp: step_allow_def step_loop_def retries_exhausted_def step_sem_def step_pause_def step_release_def step_report_def step_cancel_def
      split: option.splits sum.splits prod.splits select_arm.splits if_splits do_result.splits)

text \<open>Every step books in the metrics of its host exactly the records it logs.\<close>

lemma do_step_booked:
  assumes "do_step env i cb c = Some r" and "metrics_ok (metrics cb)"
  shows "booked (cb, c) r"
  using assms(1) step_token_booked [OF assms(2)] step_send_booked [OF assms(2)] step_rewind_booked [OF assms(2)]
    step_transport_booked [OF assms(2)] step_retry_after_booked [OF assms(2)] step_ends_booked [OF assms(2)]
  by (cases "c_pc c"; cases i) (auto simp: do_step_def)


section \<open>Slots, tickets and tokens\<close>

lemma quiet_simps [simp]:
  "quiet s (cb, goto p c) = quiet s (cb, c)" "quiet s (cb, return_with r x c) = quiet s (cb, c)"
  "quiet s (cb, panic_with m c) = quiet s (cb, c)" "quiet s (cb, log_event e c) = quiet s (cb, c)"
  "quiet s (cb, c\<lparr>c_lastErr := l\<rparr>) = quiet s (cb, c)" "quiet s (cb, c\<lparr>c_ctx := y\<rparr>) = quiet s (cb, c)"
  "quiet s (cb\<lparr>metrics := mm\<rparr>, c) = quiet s (cb, c)"
  by (simp_all add: quiet_def call_fun_defs)

lemma quiet_gate [simp]: "quiet s (extendRetryAfterGate until cb, c) = quiet s (cb, c)"
  by (simp add: quiet_def extendRetryAfterGate_def Let_def)

lemma quiet_self [simp]: "quiet (cb, c) (cb, c)"
  by (simp add: quiet_def)

lemma recorded_quiet:
  assumes "quiet s (cb, c)" and "\<And>cb' c'. quiet s (cb', c') \<Longrightarrow> quiet s (f (cb', c'))"
  shows "quiet s (recorded k st env f (cb, c))"
  using assms by (auto simp: recorded_def split: option.splits)

lemma wait_failed_quiet: "quiet (cb, c) (wait_failed env st e cb c)"
  unfolding wait_failed_def by (auto intro!: recorded_quiet)

lemma token_pass_quiet:
  "waitForToken ctx cb = Pass cb' \<Longrightarrow> quiet (cb, c) (cb', c)"
  "waitForToken_select arm ctx cb = Pass cb' \<Longrightarrow> quiet (cb, c) (cb', c)"
  by (auto simp: waitForToken_def waitForToken_select_def quiet_def split: option.splits select_arm.splits if_splits)

lemma gate_outcome_quiet: "gate_outcome env a st g cb c = Some r \<Longrightarrow> quiet (cb, c) r"
  using wait_failed_quiet [of cb c env st] by (cases g) (auto simp: gate_outcome_def)

lemma token_outcome_quiet:
  assumes "token_outcome env a st w c cb = Some r" and "\<And>cb'. w = Pass cb' \<Longrightarrow> quiet (cb, c) (cb', c)"
  shows "quiet (cb, c) r"
  using assms wait_failed_quiet [of cb c env st] by (cases w) (auto simp: token_outcome_def)

lemma step_quiet:
  "quiet (cb, c) (step_token env a st cb c)"
  "token_outcome env a st (waitForToken_select arm (c_ctx c) cb) c cb = Some r \<Longrightarrow> quiet (cb, c) r"
  "quiet (cb, c) (step_loop env a cb c)"
  "quiet (cb, c) (step_send env a st cb c)"
  "quiet (cb, c) (step_rewind env a st rw cb c)"
  "quiet (cb, c) (step_transport env a st rp cb c)"
  "quiet (cb, c) (step_retry_after env a st resp cb c)"
  "step_pause env a w arm cb c = Some r \<Longrightarrow> quiet (cb, c) r"
  "quiet (cb, c) (cb, step_cancel res c)"
proof -
  show "quiet (cb, c) (step_token env a st cb c)"
    using token_outcome_quiet [of env a st "waitForToken (c_ctx c) cb" c cb] token_pass_quiet(1)
    by (auto simp: step_token_def split: option.splits)
  show "token_outcome env a st (waitForToken_select arm (c_ctx c) cb) c cb = Some r \<Longrightarrow> quiet (cb, c) r"
    using token_outcome_quiet token_pass_quiet(2) by blast
  show "quiet (cb, c) (step_send env a st cb c)"
    unfolding step_send_def by (auto intro!: recorded_quiet split: if_splits)
  show "quiet (cb, c) (step_rewind env a st rw cb c)"
    unfolding step_rewind_def by (cases rw) (auto intro!: recorded_quiet)
  show "quiet (cb, c) (step_transport env a st rp cb c)"
    unfolding step_transport_def transport_answered_def transport_failed_def Let_def
    by (cases rp) (auto intro!: recorded_quiet split: policy_verdict.splits if_splits)
  show "quiet (cb, c) (step_retry_after env a st resp cb c)"
    unfolding step_retry_after_def Let_def
    by (auto intro!: recorded_quiet split: option.splits if_splits)
  show "quiet (cb, c) (cb, step_cancel res c)"
    by (auto simp: step_cancel_def split: do_result.splits option.splits)
qed (auto simp: step_loop_def retries_exhausted_def step_pause_def split: select_arm.splits if_splits)

text \<open>
  The effect of a step on the slots and the tickets: none, or one of the four exchanges.
\<close>

inductive exchange :: "circuitBreaker \<times> call \<Rightarrow> circuitBreaker \<times> call \<Rightarrow> bool" where
  quiet: "quiet s s' \<Longrightarrow> exchange s s'"
| acquire: "sem cb = Some ch \<Longrightarrow> try_send ch = Some ch' \<Longrightarrow> c_pc c = AtSem \<Longrightarrow> c_slot c' \<Longrightarrow> c_ticket c' = c_ticket c \<Longrightarrow>
    exchange (cb, c) (cb\<lparr>sem := Some ch'\<rparr>, c')"
| give_back: "sem cb = Some ch \<Longrightarrow> try_recv ch = Some ch' \<Longrightarrow> c_slot c \<Longrightarrow> \<not> c_slot c' \<Longrightarrow> c_ticket c' = c_ticket c \<Longrightarrow>
    exchange (cb, c) (cb\<lparr>sem := Some ch'\<rparr>, c')"
| admit: "state cb = Some b \<Longrightarrow> allow t b = (r, b') \<Longrightarrow> c_pc c = AtAllow \<Longrightarrow> c_slot c' = c_slot c \<Longrightarrow>
    c_ticket c' = (case r of Inl e \<Rightarrow> c_ticket c | Inr k \<Rightarrow> Some k) \<Longrightarrow>
    exchange (cb, c) (cb\<lparr>state := Some b'\<rparr>, c')"
| settle: "c_ticket c = Some k \<Longrightarrow> c_ticket c' = None \<Longrightarrow> c_slot c' = c_slot c \<Longrightarrow>
    exchange (cb, c) (cb\<lparr>state := map_option (settle_report t k out) (state cb)\<rparr>, c')"

lemma step_exchange:
  "c_pc c = AtAllow \<Longrightarrow> exchange (cb, c) (step_allow env cb c)"
  "c_pc c = AtSem \<Longrightarrow> step_sem i cb c = Some r \<Longrightarrow> exchange (cb, c) r"
  "step_release res cb c = Some r \<Longrightarrow> exchange (cb, c) r"
  "exchange (cb, c) (step_report env res cb c)"
proof -
  show "exchange (cb, c) (step_allow env cb c)" if pc: "c_pc c = AtAllow"
  proof (cases "state cb")
    case None
    then show ?thesis by (auto simp: step_allow_def intro: exchange.quiet)
  next
    case (Some b)
    then show ?thesis
      by (auto simp: step_allow_def split: prod.splits sum.splits intro!: exchange.admit [OF Some _ pc])
  qed
  show "c_pc c = AtSem \<Longrightarrow> step_sem i cb c = Some r \<Longrightarrow> exchange (cb, c) r"
    by (auto simp: step_sem_def split: option.splits if_splits intro: exchange.quiet exchange.acquire)
  show "step_release res cb c = Some r \<Longrightarrow> exchange (cb, c) r"
    by (auto simp: step_release_def split: option.splits if_splits intro: exchange.quiet exchange.give_back)
  show "exchange (cb, c) (step_report env res cb c)"
  proof (cases "c_ticket c")
    case None
    then show ?thesis by (auto simp: step_report_def intro: exchange.quiet)
  next
    case (Some k)
    have "report t (fst k) (snd k) out = settle_report t k out" for t out
      by (simp add: settle_report_def fun_eq_iff)
    with Some show ?thesis
      by (auto simp: step_report_def split: prod.splits intro!: exchange.settle)
  qed
qed

lemma do_step_exchange:
  assumes "do_step env i cb c = Some r"
  shows "exchange (cb, c) r"
  using assms step_exchange exchange.quiet [OF step_quiet(1)] exchange.quiet [OF step_quiet(2)]
    exchange.quiet [OF step_quiet(3)] exchange.quiet [OF step_quiet(4)] exchange.quiet [OF step_quiet(5)]
    exchange.quiet [OF step_quiet(6)] exchange.quiet [OF step_quiet(7)] exchange.quiet [OF step_quiet(8)]
    exchange.quiet [OF step_quiet(9)] exchange.quiet [OF gate_outcome_quiet]
  by (cases "c_pc c"; cases i) (auto simp: do_step_def)

end
