(* ===== verification/Go_Ticker.thy ===== *)
theory Go_Ticker
  imports Go_Time
begin

text \<open>
  Go's \<open>time.Ticker\<close>: a channel for one tick, filled at each multiple of the period. It drops the
  ticks a slow receiver misses, and skips those the runtime is late for. The lemmas bound the
  ticks a receiver can have taken by the time that has passed.
\<close>

record ticker =
  tk_period :: duration
  tk_due :: gotime
  tk_ready :: bool

definition NewTicker :: "duration \<Rightarrow> gotime \<Rightarrow> ticker" where
  "NewTicker d t = \<lparr>tk_period = d, tk_due = t + d, tk_ready = False\<rparr>"

text \<open>The runtime delivers the tick that is due at \<open>t\<close>.\<close>

definition ticker_fires :: "gotime \<Rightarrow> ticker \<Rightarrow> ticker option" where
  "ticker_fires t tk =
     (if tk_due tk \<le> t
      then Some (tk\<lparr>tk_due := tk_due tk + tk_period tk * (1 + (t - tk_due tk) div tk_period tk), tk_ready := True\<rparr>)
      else None)"

text \<open>The receiver takes the tick.\<close>

definition ticker_recv :: "ticker \<Rightarrow> ticker option" where
  "ticker_recv tk = (if tk_ready tk then Some (tk\<lparr>tk_ready := False\<rparr>) else None)"

definition tick_held :: "ticker \<Rightarrow> int" where
  "tick_held tk = (if tk_ready tk then 1 else 0)"

lemma fires_next:
  assumes "ticker_fires t tk = Some tk'" and "0 < tk_period tk"
  shows "tk_period tk' = tk_period tk" and "tk_ready tk'" and "t < tk_due tk'" and "tk_due tk' \<le> t + tk_period tk"
    and "tk_due tk + tk_period tk \<le> tk_due tk'"
proof -
  let ?p = "tk_period tk" and ?x = "t - tk_due tk"
  have due: "0 \<le> ?x" and tk': "tk' = tk\<lparr>tk_due := tk_due tk + ?p * (1 + ?x div ?p), tk_ready := True\<rparr>"
    using assms(1) by (auto simp: ticker_fires_def split: if_splits)
  have split: "?p * (?x div ?p) + ?x mod ?p = ?x" by (rule mult_div_mod_eq)
  have m: "0 \<le> ?x mod ?p" "?x mod ?p < ?p" using assms(2) by simp_all
  have "0 \<le> ?x div ?p" using due assms(2) by (simp add: pos_imp_zdiv_nonneg_iff)
  then have "0 \<le> ?p * (?x div ?p)" using assms(2) by simp
  moreover have "tk_due tk' = tk_due tk + ?p + ?p * (?x div ?p)" by (simp add: tk' distrib_left)
  ultimately show "t < tk_due tk'" "tk_due tk' \<le> t + ?p" "tk_due tk + ?p \<le> tk_due tk'" using split m by linarith+
  show "tk_period tk' = ?p" "tk_ready tk'" by (simp_all add: tk')
qed

section \<open>Since the ticker was made\<close>

text \<open>A ticker of period \<open>d\<close> made at \<open>t0\<close>, at time \<open>t\<close> after \<open>k\<close> ticks were taken from it.\<close>

definition ticker_ok :: "duration \<Rightarrow> gotime \<Rightarrow> gotime \<Rightarrow> nat \<Rightarrow> ticker \<Rightarrow> bool" where
  "ticker_ok d t0 t k tk \<longleftrightarrow> tk_period tk = d \<and> tk_due tk - d \<le> t \<and> (int k + tick_held tk) * d \<le> tk_due tk - d - t0"

lemma ticker_ok_new: "0 < d \<Longrightarrow> ticker_ok d t t 0 (NewTicker d t)"
  by (simp add: ticker_ok_def NewTicker_def tick_held_def)

lemma ticker_ok_time: "ticker_ok d t0 t k tk \<Longrightarrow> t \<le> u \<Longrightarrow> ticker_ok d t0 u k tk"
  by (simp add: ticker_ok_def)

lemma ticker_ok_recv: "ticker_ok d t0 t k tk \<Longrightarrow> ticker_recv tk = Some tk' \<Longrightarrow> ticker_ok d t0 t (Suc k) tk'"
  by (auto simp: ticker_ok_def ticker_recv_def tick_held_def add.commute split: if_splits)

lemma ticker_ok_fires:
  assumes "ticker_ok d t0 t k tk" and "0 < d" and "ticker_fires t tk = Some tk'"
  shows "ticker_ok d t0 t k tk'"
proof -
  have p: "tk_period tk = d" "0 < tk_period tk" using assms(1,2) by (simp_all add: ticker_ok_def)
  note n = fires_next [OF assms(3) p(2)]
  have "int k * d \<le> (int k + tick_held tk) * d" using assms(2) by (intro mult_right_mono) (simp_all add: tick_held_def)
  then have "(int k + 1) * d \<le> tk_due tk - t0" using assms(1) by (simp add: ticker_ok_def distrib_right)
  with n p show ?thesis by (simp add: ticker_ok_def tick_held_def)
qed

lemma ticker_ok_bound:
  assumes "ticker_ok d t0 t k tk" and "0 < d"
  shows "int k * d \<le> t - t0"
proof -
  have "int k * d \<le> (int k + tick_held tk) * d" using assms(2) by (intro mult_right_mono) (simp_all add: tick_held_def)
  with assms(1) show ?thesis by (simp add: ticker_ok_def)
qed

section \<open>Over a window\<close>

text \<open>\<open>k\<close> ticks were taken since the time \<open>t1\<close>, when the ticker was \<open>tk1\<close>.\<close>

definition ticker_since :: "ticker \<Rightarrow> gotime \<Rightarrow> nat \<Rightarrow> ticker \<Rightarrow> bool" where
  "ticker_since tk1 t1 k tk \<longleftrightarrow> tk_period tk = tk_period tk1 \<and>
     (tk_due tk = tk_due tk1 \<and> int k + tick_held tk \<le> tick_held tk1 \<or>
      t1 < tk_due tk \<and> (int k + tick_held tk - tick_held tk1 - 1) * tk_period tk1 < tk_due tk - t1)"

lemma ticker_since_refl: "ticker_since tk t 0 tk"
  by (simp add: ticker_since_def)

lemma ticker_since_recv: "ticker_since tk1 t1 k tk \<Longrightarrow> ticker_recv tk = Some tk' \<Longrightarrow> ticker_since tk1 t1 (Suc k) tk'"
  by (auto simp: ticker_since_def ticker_recv_def tick_held_def algebra_simps split: if_splits)

lemma ticker_since_fires:
  assumes "ticker_since tk1 t1 k tk" and "0 < tk_period tk1" and "ticker_fires t tk = Some tk'" and "t1 \<le> t"
  shows "ticker_since tk1 t1 k tk'"
proof -
  have p: "tk_period tk = tk_period tk1" "0 < tk_period tk" using assms(1,2) by (simp_all add: ticker_since_def)
  note n = fires_next [OF assms(3) p(2)]
  have h: "tick_held tk' = 1" "0 \<le> tick_held tk" using n(2) by (simp_all add: tick_held_def)
  have "(int k - tick_held tk1) * tk_period tk1 < tk_due tk' - t1"
  proof (cases "tk_due tk = tk_due tk1 \<and> int k + tick_held tk \<le> tick_held tk1")
    case True
    then have "int k - tick_held tk1 \<le> 0" using h by simp
    then have "(int k - tick_held tk1) * tk_period tk1 \<le> 0 * tk_period tk1" using assms(2) by (intro mult_right_mono) simp_all
    with n(3) assms(4) show ?thesis by simp
  next
    case False
    then have "(int k + tick_held tk - tick_held tk1 - 1) * tk_period tk1 < tk_due tk - t1" using assms(1) by (auto simp: ticker_since_def)
    moreover have "(int k - tick_held tk1 - 1) * tk_period tk1 \<le> (int k + tick_held tk - tick_held tk1 - 1) * tk_period tk1"
      using assms(2) h(2) by (intro mult_right_mono) simp_all
    moreover have "(int k - tick_held tk1) * tk_period tk1 = (int k - tick_held tk1 - 1) * tk_period tk1 + tk_period tk1"
      by (simp add: algebra_simps)
    ultimately show ?thesis using n(5) p(1) by linarith
  qed
  with n(1,3) p(1) h(1) assms(4) show ?thesis by (simp add: ticker_since_def)
qed

text \<open>At most one tick per period, besides one that was held, one that was late and the one at the end.\<close>

lemma ticker_since_bound:
  assumes "ticker_since tk1 t1 k tk" and "ticker_ok d t0 t j tk" and "0 < d" and "t1 \<le> t"
  shows "(int k - 3) * d < t - t1"
proof -
  have p: "tk_period tk1 = d" "tk_due tk - d \<le> t" using assms(1,2) by (auto simp: ticker_since_def ticker_ok_def)
  have h: "0 \<le> tick_held tk" "tick_held tk1 \<le> 1" by (simp_all add: tick_held_def)
  from assms(1) consider "int k + tick_held tk \<le> tick_held tk1" | "(int k + tick_held tk - tick_held tk1 - 1) * d < tk_due tk - t1"
    using p(1) by (auto simp: ticker_since_def)
  then show ?thesis
  proof cases
    case 1
    then have "int k - 3 \<le> - 1" using h by simp
    then have "(int k - 3) * d \<le> - 1 * d" using assms(3) by (intro mult_right_mono) simp_all
    with assms(3,4) show ?thesis by simp
  next
    case 2
    have "(int k - 2) * d \<le> (int k + tick_held tk - tick_held tk1 - 1) * d" using h assms(3) by (intro mult_right_mono) simp_all
    moreover have "(int k - 2) * d = (int k - 3) * d + d" by (simp add: algebra_simps)
    ultimately show ?thesis using 2 p(2) by linarith
  qed
qed

end
