(* ===== verification/System.thy ===== *)
theory System
  imports Effects Go_Ticker
begin

text \<open>
  Many calls on one breaker: a transition system whose steps are the steps of the calls, the ticks
  of the refiller, \<open>Stop\<close>, the passing of time and the ends of contexts, in any order. The
  invariant ties the semaphore, the state machine and the metrics to what the calls hold and have
  logged.
\<close>

section \<open>Sums over calls\<close>

lemma sum_list_update_add:
  fixes f :: "'a \<Rightarrow> 'b :: comm_monoid_add"
  assumes "i < length xs" and "f y = f (xs ! i) + d"
  shows "sum_list (map f (xs[i := y])) = sum_list (map f xs) + d"
  using assms
proof (induction xs arbitrary: i)
  case (Cons x xs)
  then show ?case by (cases i) (simp_all add: ac_simps)
qed simp

lemma sum_list_update_cong:
  fixes f :: "'a \<Rightarrow> 'b :: comm_monoid_add"
  assumes "i < length xs" and "f y = f (xs ! i)"
  shows "sum_list (map f (xs[i := y])) = sum_list (map f xs)"
  using sum_list_update_add [of i xs f y 0] assms by simp

section \<open>The system\<close>

text \<open>
  The breaker, its calls, the clock and the refiller: its ticker, and the sends it has left of the
  present tick. \<open>n_ticks\<close> counts the ticks it has taken so far, for the statements about them.
\<close>

record system =
  brk :: circuitBreaker
  calls :: "call list"
  now :: gotime
  tick_at :: ticker
  refill_left :: nat
  n_ticks :: nat

definition new_system :: "circuitBreaker \<Rightarrow> gotime \<Rightarrow> system" where
  "new_system cb t =
     \<lparr>brk = cb, calls = [], now = t, tick_at = NewTicker (tokenInterval cb) t, refill_left = 0, n_ticks = 0\<rparr>"

lemma new_system_fields [simp]:
  "brk (new_system cb t) = cb" "calls (new_system cb t) = []" "now (new_system cb t) = t"
  "tick_at (new_system cb t) = NewTicker (tokenInterval cb) t" "refill_left (new_system cb t) = 0" "n_ticks (new_system cb t) = 0"
  by (simp_all add: new_system_def)

text \<open>The options of the package, the only ones a client can pass.\<close>

inductive package_option :: "(circuitBreaker \<Rightarrow> circuitBreaker) \<Rightarrow> bool" where
  "int64 open_for \<Longrightarrow> package_option (WithBreaker fails open_for half_open_probes)"
| "package_option (WithStatusCodeFailure min_code)"
| "package_option (WithRetryPolicy policy)"
| "package_option (WithExponentialBackoff base max_wait jitter)"
| "package_option (WithBurst n)"
| "package_option (WithRetryAfter max_wait)"
| "package_option (WithDefaultTimeout d)"

definition refiller_exit :: "circuitBreaker \<Rightarrow> circuitBreaker" where
  "refiller_exit cb = (if tokenStop cb = Some True then cb\<lparr>refilling := False\<rparr> else cb)"

definition with_call :: "nat \<Rightarrow> (call \<Rightarrow> call) \<Rightarrow> system \<Rightarrow> system" where
  "with_call i f s = s\<lparr>calls := (calls s)[i := f (calls s ! i)]\<rparr>"

inductive sys_step :: "system \<Rightarrow> system \<Rightarrow> bool" where
  enter: "clock env = now s \<Longrightarrow> Do_enter env (brk s) rq cl = Inr c \<Longrightarrow>
    sys_step s (s\<lparr>calls := calls s @ [c]\<rparr>)"
| call_step: "i < length (calls s) \<Longrightarrow> clock env = now s \<Longrightarrow> do_step env inp (brk s) (calls s ! i) = Some (cb, c) \<Longrightarrow>
    sys_step s (s\<lparr>brk := cb, calls := (calls s)[i := c]\<rparr>)"
| fired: "refilling (brk s) \<Longrightarrow> ticker_fires (now s) (tick_at s) = Some tk \<Longrightarrow> sys_step s (s\<lparr>tick_at := tk\<rparr>)"
| ticked: "refilling (brk s) \<Longrightarrow> refill_left s = 0 \<Longrightarrow> ticker_recv (tick_at s) = Some tk \<Longrightarrow>
    sys_step s (s\<lparr>tick_at := tk, refill_left := nat (tokensPerTick (brk s)), n_ticks := Suc (n_ticks s)\<rparr>)"
| refilled: "refill_one (refill_left s) (brk s) = Some (n, cb) \<Longrightarrow> sys_step s (s\<lparr>brk := cb, refill_left := n\<rparr>)"
| exited: "refill_left s = 0 \<Longrightarrow> sys_step s (s\<lparr>brk := refiller_exit (brk s)\<rparr>)"
| stopped: "sys_step s (s\<lparr>brk := Stop (brk s)\<rparr>)"
| expired: "i < length (calls s) \<Longrightarrow> ctx_deadline (c_ctx (calls s ! i)) = Some t \<Longrightarrow> t \<le> now s \<Longrightarrow>
    sys_step s (with_call i (\<lambda>c. c\<lparr>c_ctx := ctx_finish CtxDeadlineExceeded (c_ctx c)\<rparr>) s)"
| cancelled: "i < length (calls s) \<Longrightarrow>
    sys_step s (with_call i (\<lambda>c. c\<lparr>c_ctx := ctx_finish CtxCanceled (c_ctx c)\<rparr>) s)"
| time_passes: "now s \<le> t \<Longrightarrow> sys_step s (s\<lparr>now := t\<rparr>)"

text \<open>The steps the calls and the refiller make by themselves, without clients, contexts and the clock.\<close>

inductive inner_step :: "system \<Rightarrow> system \<Rightarrow> bool" where
  call: "i < length (calls s) \<Longrightarrow> clock env = now s \<Longrightarrow> do_step env inp (brk s) (calls s ! i) = Some (cb, c) \<Longrightarrow>
    inner_step s (s\<lparr>brk := cb, calls := (calls s)[i := c]\<rparr>)"
| fires: "refilling (brk s) \<Longrightarrow> ticker_fires (now s) (tick_at s) = Some tk \<Longrightarrow> inner_step s (s\<lparr>tick_at := tk\<rparr>)"
| ticks: "refilling (brk s) \<Longrightarrow> refill_left s = 0 \<Longrightarrow> ticker_recv (tick_at s) = Some tk \<Longrightarrow>
    inner_step s (s\<lparr>tick_at := tk, refill_left := nat (tokensPerTick (brk s)), n_ticks := Suc (n_ticks s)\<rparr>)"
| refills: "refill_one (refill_left s) (brk s) = Some (n, cb) \<Longrightarrow> inner_step s (s\<lparr>brk := cb, refill_left := n\<rparr>)"
| exits: "refill_left s = 0 \<Longrightarrow> inner_step s (s\<lparr>brk := refiller_exit (brk s)\<rparr>)"

lemma inner_sys: "inner_step s s' \<Longrightarrow> sys_step s s' \<and> now s' = now s \<and> length (calls s') = length (calls s)"
  by (induction rule: inner_step.induct) (simp_all add: sys_step.intros)

lemma inner_steps_sys: "inner_step\<^sup>*\<^sup>* s s' \<Longrightarrow> sys_step\<^sup>*\<^sup>* s s'"
  by (erule rtranclp_mono [THEN predicate2D, rotated]) (auto dest: inner_sys)

text \<open>The states after \<open>k\<close> steps from a new breaker without calls.\<close>

inductive sys_run :: "nat \<Rightarrow> system \<Rightarrow> bool" where
  start: "\<forall>opt \<in> set opts. opt = None \<or> (\<exists>f. opt = Some f \<and> package_option f) \<Longrightarrow>
    sys_run 0 (new_system (NewCircuitBreakerWithOptions name max_concurrent max_requests window_seconds max_retries opts) t)"
| step: "sys_run k s \<Longrightarrow> sys_step s s' \<Longrightarrow> sys_run (Suc k) s'"

inductive_cases sys_stepE: "sys_step s s'"

section \<open>The invariant\<close>

definition tickets :: "call list \<Rightarrow> (bool \<times> 64 word) multiset" where
  "tickets cs = (\<Sum>c \<leftarrow> cs. case c_ticket c of None \<Rightarrow> {#} | Some k \<Rightarrow> {#k#})"

definition slots :: "call list \<Rightarrow> nat" where
  "slots cs = (\<Sum>c \<leftarrow> cs. if c_slot c then 1 else 0)"

definition sem_ok :: "circuitBreaker \<Rightarrow> call list \<Rightarrow> bool" where
  "sem_ok cb cs \<longleftrightarrow> (sem cb = None) = (MaxConcurrent cb \<le> 0) \<and>
     (\<forall>ch. sem cb = Some ch \<longrightarrow> ch_len ch = slots cs \<and> ch_cap ch = nat (MaxConcurrent cb) \<and> chan_ok ch)"

definition machine_ok :: "nat \<Rightarrow> circuitBreaker \<Rightarrow> call list \<Rightarrow> bool" where
  "machine_ok k cb cs \<longleftrightarrow>
     (\<forall>b. state cb = Some b \<longrightarrow> bs_inv b \<and> generation b \<le> k \<and> adm.ledger b (tickets cs))"

definition bucket_ok :: "circuitBreaker \<Rightarrow> bool" where
  "bucket_ok cb \<longleftrightarrow> (\<forall>ch. tokens cb = Some ch \<longrightarrow> chan_ok ch)"

definition books_ok :: "circuitBreaker \<Rightarrow> call list \<Rightarrow> bool" where
  "books_ok cb cs \<longleftrightarrow> metrics_ok (metrics cb) \<and>
     (\<forall>h. tally_at (metrics cb) h root_key = (\<Sum>c \<leftarrow> cs. log_tally c h (c_log c)))"

text \<open>All but the state machine, whose books hold as long as its generations do not wrap around.\<close>

definition sys_inv :: "system \<Rightarrow> bool" where
  "sys_inv s \<longleftrightarrow> (\<forall>c \<in> set (calls s). reach (brk s) c) \<and> sem_ok (brk s) (calls s) \<and>
     bucket_ok (brk s) \<and> books_ok (brk s) (calls s)"

section \<open>It holds at the start\<close>

definition fresh :: "circuitBreaker \<Rightarrow> bool" where
  "fresh cb \<longleftrightarrow> metrics cb = [] \<and> sem cb = (if 0 < MaxConcurrent cb then Some (make_chan (nat (MaxConcurrent cb))) else None) \<and>
     tokens cb = None \<and> (\<forall>b. state cb = Some b \<longrightarrow> (\<exists>n d m. d \<le> max_int64 \<and> b = newBreakerState n d m))"

lemma fresh_new: "fresh (newCircuitBreaker name mc mr w n)"
  by (simp add: fresh_def newCircuitBreaker_def)

lemma fresh_option: "package_option f \<Longrightarrow> fresh cb \<Longrightarrow> fresh (f cb)"
  by (induction rule: package_option.induct)
    (auto simp: fresh_def WithBreaker_def WithStatusCodeFailure_def WithRetryPolicy_def
      WithExponentialBackoff_def WithBurst_def WithRetryAfter_def WithDefaultTimeout_def Let_def int64_def)

lemma fresh_options:
  "\<forall>opt \<in> set opts. opt = None \<or> (\<exists>f. opt = Some f \<and> package_option f) \<Longrightarrow> fresh cb \<Longrightarrow> fresh (apply_options opts cb)"
proof (induction opts cb rule: apply_options.induct)
  case (2 opt opts cb)
  then have "fresh (case opt of None \<Rightarrow> cb | Some f \<Rightarrow> f cb)"
    by (auto intro: fresh_option)
  with 2 show ?case by simp
qed simp

lemma newBreakerState_start: "d \<le> max_int64 \<Longrightarrow> bs_inv (newBreakerState n d m) \<and> generation (newBreakerState n d m) = 0 \<and> \<not> half_open (newBreakerState n d m)"
  by (auto simp: bs_inv_def newBreakerState_def generation_def half_open_def Let_def)

lemma sys_inv_start:
  assumes "\<forall>opt \<in> set opts. opt = None \<or> (\<exists>f. opt = Some f \<and> package_option f)"
  shows "sys_inv (new_system (NewCircuitBreakerWithOptions name mc mr w n opts) t) \<and>
    machine_ok 0 (NewCircuitBreakerWithOptions name mc mr w n opts) []"
proof -
  define cb where "cb = apply_options opts (newCircuitBreaker name mc mr w n)"
  have f: "fresh cb" unfolding cb_def by (rule fresh_options [OF assms fresh_new])
  have "bucket_ok (initTokenBucket cb)"
  proof (cases "0 < maxRequests cb \<and> 0 < windowSeconds cb")
    case True
    then show ?thesis using initTokenBucket_on(1) [of cb] by (simp add: bucket_ok_def chan_ok_def)
  next
    case False
    then show ?thesis using f initTokenBucket_off [of cb] by (auto simp: bucket_ok_def fresh_def)
  qed
  moreover have "machine_ok 0 (initTokenBucket cb) []"
    using f newBreakerState_start adm.ledger_start
    by (fastforce simp: machine_ok_def frame_simps fresh_def tickets_def)
  ultimately show ?thesis
    using f by (auto simp: sys_inv_def NewCircuitBreakerWithOptions_def cb_def [symmetric] sem_ok_def books_ok_def frame_simps
        fresh_def slots_def make_chan_def chan_ok_def metrics_ok_empty tally_at_def)
qed


section \<open>Every step keeps it\<close>

text \<open>A call exchanged a slot or a ticket with the breaker.\<close>

lemma slots_update:
  assumes "i < length cs"
  shows "slots (cs[i := c]) + (if c_slot (cs ! i) then 1 else 0) = slots cs + (if c_slot c then 1 else 0)"
proof -
  let ?cs = "cs[i := c]"
  have "slots (?cs[i := cs ! i]) = slots cs" by simp
  consider "c_slot c = c_slot (cs ! i)" | "c_slot c" "\<not> c_slot (cs ! i)" | "\<not> c_slot c" "c_slot (cs ! i)" by blast
  then show ?thesis
  proof cases
    case 1
    then show ?thesis using sum_list_update_cong [OF assms, of "\<lambda>c. if c_slot c then 1 else (0 :: nat)" c] by (simp add: slots_def)
  next
    case 2
    then show ?thesis using sum_list_update_add [OF assms, of "\<lambda>c. if c_slot c then 1 else (0 :: nat)" c 1] by (simp add: slots_def)
  next
    case 3
    then show ?thesis using sum_list_update_add [of i ?cs "\<lambda>c. if c_slot c then 1 else (0 :: nat)" "cs ! i" 1] assms by (simp add: slots_def)
  qed
qed

lemma tickets_update:
  assumes "i < length cs"
  shows "c_ticket c = c_ticket (cs ! i) \<Longrightarrow> tickets (cs[i := c]) = tickets cs"
    and "c_ticket (cs ! i) = None \<Longrightarrow> c_ticket c = Some k \<Longrightarrow> tickets (cs[i := c]) = add_mset k (tickets cs)"
    and "c_ticket (cs ! i) = Some k \<Longrightarrow> c_ticket c = None \<Longrightarrow> tickets cs = add_mset k (tickets (cs[i := c]))"
proof -
  let ?f = "\<lambda>c. case c_ticket c of None \<Rightarrow> {#} | Some k \<Rightarrow> {#k#}"
  show "c_ticket c = c_ticket (cs ! i) \<Longrightarrow> tickets (cs[i := c]) = tickets cs"
    using sum_list_update_cong [OF assms, of ?f c] by (simp add: tickets_def)
  show "c_ticket (cs ! i) = None \<Longrightarrow> c_ticket c = Some k \<Longrightarrow> tickets (cs[i := c]) = add_mset k (tickets cs)"
    using sum_list_update_add [OF assms, of ?f c "{#k#}"] by (simp add: tickets_def)
  show "c_ticket (cs ! i) = Some k \<Longrightarrow> c_ticket c = None \<Longrightarrow> tickets cs = add_mset k (tickets (cs[i := c]))"
    using sum_list_update_add [of i "cs[i := c]" ?f "cs ! i" "{#k#}"] assms by (simp add: tickets_def)
qed

lemma exchange_sem:
  assumes "exchange (cb, c) (cb', c')" and "i < length cs" and "cs ! i = c" and "resource_law cb c" and "sem_ok cb cs"
    and "same_config cb cb'"
  shows "sem_ok cb' (cs[i := c'])"
  using assms(1)
proof cases
  case quiet
  with assms slots_update [OF assms(2), of c'] show ?thesis
    by (simp add: quiet_def sem_ok_def same_config_def)
next
  case (acquire ch ch')
  have "\<not> c_slot c" using assms(4) acquire by (simp add: resource_law_def)
  with acquire assms slots_update [OF assms(2), of c'] ch.send_Some [OF acquire(3)] ch.send_ok [OF _ acquire(3)] show ?thesis
    by (auto simp: sem_ok_def)
next
  case (give_back ch ch')
  with assms slots_update [OF assms(2), of c'] ch.recv_Some [OF give_back(3)] ch.recv_ok [OF _ give_back(3)] show ?thesis
    by (auto simp: sem_ok_def)
next
  case (admit b t r b')
  with assms slots_update [OF assms(2), of c'] show ?thesis by (simp add: sem_ok_def)
next
  case (settle k t out)
  with assms slots_update [OF assms(2), of c'] show ?thesis by (simp add: sem_ok_def)
qed

lemma allow_machine:
  assumes "bs_inv b" and "generation b \<le> k" and "k < max_generation" and "allow t b = (r, b')" and "adm.ledger b T"
  shows "bs_inv b' \<and> generation b' \<le> Suc k \<and> adm.ledger b' (case r of Inl e \<Rightarrow> T | Inr key \<Rightarrow> add_mset key T)"
proof -
  have "bs_inv b'" using adm.ok_admit [OF assms(1), of t] assms(4) by simp
  moreover have "generation b' \<le> Suc k \<and> adm.ledger b' (case r of Inl e \<Rightarrow> T | Inr key \<Rightarrow> add_mset key T)"
  proof (cases r)
    case (Inl e)
    with adm.admit_reject [OF assms(1)] assms show ?thesis by fastforce
  next
    case (Inr key)
    have room: "generation b < max_generation" using assms by simp
    have a: "allow t b = (Inr key, b')" using Inr assms(4) by simp
    have "generation b' \<le> Suc k"
    proof (cases "fst key")
      case True
      then have "generation b' = generation b \<or> generation b' = Suc (generation b)"
        using adm.admit_probe [OF assms(1) room a] by blast
      then show ?thesis using assms(2) by auto
    next
      case False
      then have "b' = b" using adm.admit_plain [OF assms(1) a] by blast
      then show ?thesis using assms(2) by simp
    qed
    with adm.ledger_admit [OF assms(1) room assms(5) a] Inr show ?thesis by simp
  qed
  ultimately show ?thesis by blast
qed

lemma exchange_machine:
  assumes "exchange (cb, c) (cb', c')" and "i < length cs" and "cs ! i = c" and "resource_law cb c"
    and "machine_ok k cb cs" and "k < max_generation"
  shows "machine_ok (Suc k) cb' (cs[i := c'])"
  using assms(1)
proof cases
  case quiet
  with assms tickets_update(1) [OF assms(2), of c'] show ?thesis
    by (auto simp: quiet_def machine_ok_def le_SucI)
next
  case (acquire ch ch')
  with assms tickets_update(1) [OF assms(2), of c'] show ?thesis by (auto simp: machine_ok_def le_SucI)
next
  case (give_back ch ch')
  with assms tickets_update(1) [OF assms(2), of c'] show ?thesis by (auto simp: machine_ok_def le_SucI)
next
  case (admit b t r b')
  have "c_ticket c = None" using assms(4) admit by (simp add: resource_law_def)
  then have "tickets (cs[i := c']) = (case r of Inl e \<Rightarrow> tickets cs | Inr key \<Rightarrow> add_mset key (tickets cs))"
    using tickets_update(1) [OF assms(2), of c'] tickets_update(2) [OF assms(2), where c = c'] admit(6) assms(3)
    by (cases r) simp_all
  with allow_machine [OF _ _ assms(6) admit(3)] assms(5) admit show ?thesis
    by (auto simp: machine_ok_def)
next
  case (settle key t out)
  have T: "tickets cs = add_mset key (tickets (cs[i := c']))"
    using tickets_update(3) [OF assms(2)] settle assms(3) by simp
  show ?thesis
    unfolding machine_ok_def
  proof (intro allI impI)
    fix b' assume "state cb' = Some b'"
    with settle obtain b where b: "state cb = Some b" "b' = settle_report t key out b" by auto
    with assms(5) have old: "bs_inv b" "generation b \<le> k" "adm.ledger b (tickets cs)" by (auto simp: machine_ok_def)
    from adm.ledger_settle [OF old(3), of key t out] T b(2) have "adm.ledger b' (tickets (cs[i := c']))" by simp
    with old b(2) adm.ok_settle [OF old(1)] adm.settle_epoch show "bs_inv b' \<and> generation b' \<le> Suc k \<and> adm.ledger b' (tickets (cs[i := c']))"
      by simp
  qed
qed


lemma exchange_bucket: "exchange (cb, c) (cb', c') \<Longrightarrow> bucket_ok cb \<Longrightarrow> bucket_ok cb'"
  using ch.recv_ok by (elim exchange.cases) (fastforce simp: quiet_def bucket_ok_def)+

lemma booked_books:
  assumes "booked (cb, c) (cb', c')" and "i < length cs" and "cs ! i = c" and "books_ok cb cs"
  shows "books_ok cb' (cs[i := c'])"
proof -
  obtain es where es: "metrics_ok (metrics cb')" "c_url c' = c_url c" "c_log c' = c_log c @ es"
    "\<forall>h. tally_at (metrics cb') h root_key = tally_at (metrics cb) h root_key + log_tally c h es"
    using assms(1) by (auto simp: booked_def)
  then have "log_tally c' h (c_log c') = log_tally (cs ! i) h (c_log (cs ! i)) + log_tally c h es" for h
    using assms(3) log_tally_url [OF es(2)] by simp
  then have "(\<Sum>c \<leftarrow> cs[i := c']. log_tally c h (c_log c)) = (\<Sum>c \<leftarrow> cs. log_tally c h (c_log c)) + log_tally c h es" for h
    by (rule sum_list_update_add [OF assms(2)])
  with es assms(4) show ?thesis by (simp add: books_ok_def)
qed

lemma reach_step_all:
  assumes "\<forall>c \<in> set cs. reach cb c" and "i < length cs" and "do_step env inp cb (cs ! i) = Some (cb', c')"
  shows "\<forall>c \<in> set (cs[i := c']). reach cb' c" and "keeps cb cb'"
proof -
  have r: "reach cb (cs ! i)" using assms by simp
  show k: "keeps cb cb'" using do_step_control [OF assms(3) reach_books [OF r]] by blast
  have "reach cb' c'" using r assms(3) by (rule reach.own)
  moreover have "reach cb' c" if "c \<in> set cs" for c
    using assms(1) that k by (auto intro: reach.others)
  ultimately show "\<forall>c \<in> set (cs[i := c']). reach cb' c"
    using set_update_subset_insert [of cs i c'] by blast
qed

text \<open>The other steps touch neither the slots nor the tickets nor the books.\<close>

lemma tick_keeps: "metrics_ok (metrics cb) \<Longrightarrow> refill_one n cb = Some (m, cb') \<Longrightarrow> keeps cb cb'"
  "metrics_ok (metrics cb) \<Longrightarrow> keeps cb (Stop cb)" "metrics_ok (metrics cb) \<Longrightarrow> keeps cb (refiller_exit cb)"
proof -
  show "keeps cb cb'" if "metrics_ok (metrics cb)" "refill_one n cb = Some (m, cb')"
    using that(2,1) by (cases rule: refill_one_cases) (simp_all add: keeps_def same_config_def)
qed (auto simp: keeps_def same_config_def Stop_def refiller_exit_def split: option.splits)

lemma other_frame [simp]:
  "sem (Stop cb) = sem cb" "state (Stop cb) = state cb" "metrics (Stop cb) = metrics cb" "MaxConcurrent (Stop cb) = MaxConcurrent cb"
  "tokens (Stop cb) = tokens cb" "tokens (refiller_exit cb) = tokens cb"
  "sem (refiller_exit cb) = sem cb" "state (refiller_exit cb) = state cb" "metrics (refiller_exit cb) = metrics cb"
  "MaxConcurrent (refiller_exit cb) = MaxConcurrent cb"
  by (auto simp: Stop_def refiller_exit_def split: option.splits)

lemma refill_one_same:
  assumes "refill_one n cb = Some (m, cb')"
  shows "sem cb' = sem cb" "state cb' = state cb" "metrics cb' = metrics cb" "MaxConcurrent cb' = MaxConcurrent cb"
    "tokensPerTick cb' = tokensPerTick cb" "tokenInterval cb' = tokenInterval cb" "(tokens cb' = None) = (tokens cb = None)"
    "retryAfterUntil cb' = retryAfterUntil cb" "retryAfterMax cb' = retryAfterMax cb"
    "refilling cb' = refilling cb" "tokenStop cb' = tokenStop cb" "stopOnce cb' = stopOnce cb"
  using assms by (cases rule: refill_one_cases; simp)+

lemma refill_one_bucket: "refill_one n cb = Some (m, cb') \<Longrightarrow> bucket_ok cb \<Longrightarrow> bucket_ok cb'"
  by (erule refill_one_cases) (auto simp: bucket_ok_def dest: ch.send_ok)

lemma sys_inv_breaker:
  assumes "sys_inv s" and "keeps (brk s) cb" and "sem cb = sem (brk s)" and "metrics cb = metrics (brk s)" and "bucket_ok cb"
  shows "sys_inv (s\<lparr>brk := cb\<rparr>)"
  using assms by (auto simp: sys_inv_def sem_ok_def books_ok_def keeps_def same_config_def intro: reach.others)

lemma sys_inv_context:
  assumes "sys_inv s" and "i < length (calls s)"
  shows "sys_inv (with_call i (\<lambda>c. c\<lparr>c_ctx := ctx_finish e (c_ctx c)\<rparr>) s)"
proof -
  let ?c = "(calls s ! i)\<lparr>c_ctx := ctx_finish e (c_ctx (calls s ! i))\<rparr>"
  have "reach (brk s) ?c" using assms by (auto simp: sys_inv_def intro: reach.context_done)
  moreover have "slots ((calls s)[i := ?c]) = slots (calls s)"
    using slots_update [OF assms(2), of ?c] by (simp split: if_splits)
  moreover have "(\<Sum>c \<leftarrow> (calls s)[i := ?c]. log_tally c h (c_log c)) = (\<Sum>c \<leftarrow> calls s. log_tally c h (c_log c))" for h
    using assms(2) by (intro sum_list_update_cong) simp_all
  ultimately show ?thesis
    using assms(1) set_update_subset_insert [of "calls s" i ?c]
    by (auto simp: sys_inv_def with_call_def sem_ok_def books_ok_def)
qed

lemma sys_inv_step:
  assumes "sys_inv s" and "sys_step s s'"
  shows "sys_inv s'"
proof -
  have ok: "metrics_ok (metrics (brk s))" "bucket_ok (brk s)" using assms(1) by (simp_all add: sys_inv_def books_ok_def)
  from assms(2) show ?thesis
  proof cases
    case (enter env rq cl c)
    have "metrics_ok (metrics (brk s))" using assms(1) by (simp add: sys_inv_def books_ok_def)
    with enter have "reach (brk s) c" by (auto intro: reach.enter)
    with enter assms(1) Do_enter_start [OF enter(3)] show ?thesis
      by (simp add: sys_inv_def sem_ok_def slots_def books_ok_def)
  next
    case (call_step i env inp cb c)
    have all: "\<forall>c \<in> set (calls s). reach (brk s) c" using assms(1) by (simp add: sys_inv_def)
    then have r: "reach (brk s) (calls s ! i)" using call_step by simp
    note x = do_step_exchange [OF call_step(4)] do_step_booked [OF call_step(4) reach_books [OF r]]
      reach_step_all [OF all call_step(2,4)]
    show ?thesis
      using x assms(1) exchange_sem [OF x(1) call_step(2) refl resources.holds [OF r]] exchange_bucket [OF x(1)]
        booked_books [OF x(2) call_step(2) refl] call_step(1)
      by (simp add: sys_inv_def keeps_def)
  next
    case (fired tk)
    with assms(1) show ?thesis by (simp add: sys_inv_def)
  next
    case (ticked tk)
    with assms(1) show ?thesis by (simp add: sys_inv_def)
  next
    case (refilled n cb)
    have k: "keeps (brk s) cb" "bucket_ok cb" using tick_keeps(1) [OF ok(1) refilled(2)] refill_one_bucket [OF refilled(2) ok(2)] .
    from sys_inv_breaker [OF assms(1) k(1) _ _ k(2)] refill_one_same(1,3) [OF refilled(2)] refilled(1) show ?thesis
      by (simp add: sys_inv_def)
  next
    case exited
    with sys_inv_breaker [OF assms(1) tick_keeps(3)] ok show ?thesis by (simp add: bucket_ok_def)
  next
    case stopped
    with sys_inv_breaker [OF assms(1) tick_keeps(2)] ok show ?thesis by (simp add: bucket_ok_def)
  next
    case (expired i t)
    with assms(1) show ?thesis by (simp add: sys_inv_context)
  next
    case (cancelled i)
    with assms(1) show ?thesis by (simp add: sys_inv_context)
  next
    case (time_passes t)
    with assms(1) show ?thesis by (simp add: sys_inv_def)
  qed
qed

lemma run_inv: "sys_run k s \<Longrightarrow> sys_inv s"
  by (induction rule: sys_run.induct) (use sys_inv_start sys_inv_step in blast)+


lemma machine_ok_mono: "machine_ok k cb cs \<Longrightarrow> state cb' = state cb \<Longrightarrow> tickets cs' = tickets cs \<Longrightarrow> machine_ok (Suc k) cb' cs'"
  by (auto simp: machine_ok_def le_SucI)

lemma machine_step:
  assumes "machine_ok k (brk s) (calls s)" and "k < max_generation" and "sys_inv s" and "sys_step s s'"
  shows "machine_ok (Suc k) (brk s') (calls s')"
  using assms(4)
proof cases
  case (enter env rq cl c)
  with Do_enter_start [OF enter(3)] show ?thesis
    by (auto intro!: machine_ok_mono [OF assms(1)] simp: tickets_def)
next
  case (call_step i env inp cb c)
  have "resource_law (brk s) (calls s ! i)"
    using assms(3) call_step(2) resources.holds by (simp add: sys_inv_def)
  then show ?thesis
    using exchange_machine [OF do_step_exchange [OF call_step(4)] call_step(2) refl _ assms(1,2)] call_step(1) by simp
next
  case (expired i t)
  with tickets_update(1) [OF expired(2)] show ?thesis
    by (auto intro!: machine_ok_mono [OF assms(1)] simp: with_call_def)
next
  case (cancelled i)
  with tickets_update(1) [OF cancelled(2)] show ?thesis
    by (auto intro!: machine_ok_mono [OF assms(1)] simp: with_call_def)
next
  case (refilled n cb)
  with refill_one_same(2) [OF refilled(2)] show ?thesis by (auto intro!: machine_ok_mono [OF assms(1)])
qed (auto intro!: machine_ok_mono [OF assms(1)])

lemma run_machine: "sys_run k s \<Longrightarrow> k \<le> max_generation \<Longrightarrow> machine_ok k (brk s) (calls s)"
proof (induction rule: sys_run.induct)
  case start
  then show ?case using sys_inv_start by simp
next
  case (step k s s')
  then show ?case using machine_step run_inv by simp
qed

section \<open>Tokens taken\<close>

text \<open>The tokens a call has taken: one for each recorded attempt, and the one in its hand.\<close>

fun token_in_hand :: "pc \<Rightarrow> int" where
  "token_in_hand (AtSend _ _) = 1"
| "token_in_hand _ = 0"

definition taken :: "call \<Rightarrow> int" where
  "taken c = n_recorded Attempt c + token_in_hand (c_pc c)"

lemma waits_no_token: "waits_at p = Some (a, s) \<Longrightarrow> token_in_hand p = 0"
  by (cases p) auto

lemma step_cancel_done: "\<exists>res'. c_pc (step_cancel res c) = Done res' \<and> c_log (step_cancel res c) = c_log c"
  by (auto simp: step_cancel_def split: do_result.splits option.splits)

text \<open>Only passing the bucket adds to what a call has taken.\<close>

lemma control_taken:
  assumes "control cb c c'"
  shows "taken c' = taken c \<or> taken c' = taken c + 1 \<and> 2 \<le> wait_stage (c_pc c) \<and> (\<exists>a s. c_pc c' = AtSend a s)"
  using assms
proof cases
  case (waiting a s p)
  then show ?thesis using waits_no_token [of "c_pc c"] waits_no_token [of p] by (simp add: taken_def)
next
  case (passed a s)
  then show ?thesis using waits_no_token [of "c_pc c"] by (simp add: taken_def)
next
  case (wait_failed a s e es)
  then show ?thesis using waits_no_token [of "c_pc c"] by (simp add: taken_def)
next
  case (finished res)
  obtain res' where "c_pc (step_cancel res c) = Done res'" "c_log (step_cancel res c) = c_log c"
    using step_cancel_done by blast
  with finished show ?thesis by (simp add: taken_def n_recorded_def)
qed (auto simp: taken_def)

definition level_falls :: "int \<Rightarrow> circuitBreaker \<Rightarrow> circuitBreaker \<Rightarrow> bool" where
  "level_falls n cb cb' \<longleftrightarrow>
     (\<forall>ch. tokens cb = Some ch \<longrightarrow>
        (\<exists>d. tokens cb' = Some d \<and> ch_cap d = ch_cap ch \<and> int (ch_len d) + n \<le> int (ch_len ch)))"

lemma exchange_level: "exchange (cb, c) (cb', c') \<Longrightarrow> level_falls 0 cb cb'"
  by (elim exchange.cases) (auto simp: level_falls_def quiet_def dest: ch.recv_Some)

lemma token_pass_level:
  "waitForToken ctx cb = Pass cb' \<Longrightarrow> level_falls 1 cb cb'"
  "waitForToken_select arm ctx cb = Pass cb' \<Longrightarrow> level_falls 1 cb cb'"
  by (auto simp: waitForToken_def waitForToken_select_def level_falls_def
      split: option.splits select_arm.splits if_splits dest: ch.recv_Some)

lemma wait_failed_leaves: "\<exists>res. c_pc (snd (wait_failed env s e cb c)) = AtRelease res"
  by (auto simp: wait_failed_def recorded_def call_fun_defs split: option.splits)

lemma token_outcome_level:
  assumes "token_outcome env a s w c cb = Some (cb', c')" and "c_pc c' = AtSend b t"
    and "\<And>cb1. w = Pass cb1 \<Longrightarrow> level_falls 1 cb cb1"
  shows "level_falls 1 cb cb'"
proof (cases w)
  case (Fail e)
  with assms(1) have "wait_failed env s e cb c = (cb', c')" by (simp add: token_outcome_def)
  with wait_failed_leaves [of env s e cb c] assms(2) show ?thesis by auto
qed (use assms in \<open>auto simp: token_outcome_def\<close>)

lemma do_step_level:
  assumes "do_step env i cb c = Some (cb', c')" and "metrics_ok (metrics cb)"
  shows "level_falls (taken c' - taken c) cb cb'"
proof -
  have "level_falls 1 cb cb'" if "2 \<le> wait_stage (c_pc c)" "c_pc c' = AtSend a s" for a s
    using assms(1)
  proof (cases rule: do_step_cases)
    case (token b t)
    with that(2) have "token_outcome env b t (waitForToken (c_ctx c) cb) c cb = Some (cb', c')"
      by (auto simp: step_token_def split: option.splits)
    then show ?thesis using that(2) token_pass_level(1) by (rule token_outcome_level)
  next
    case (token_wait b t arm)
    from token_wait(3) that(2) token_pass_level(2) show ?thesis by (rule token_outcome_level)
  qed (use that(1) in simp_all)
  moreover have "control cb c c'" using do_step_control [OF assms] by blast
  ultimately show ?thesis
    using control_taken exchange_level [OF do_step_exchange [OF assms(1)]] by force
qed

text \<open>
  From one state to a later one, the calls take no more tokens than the bucket held and the ticks
  in between restored.
\<close>

definition all_taken :: "system \<Rightarrow> int" where
  "all_taken s = (\<Sum>c \<leftarrow> calls s. taken c)"

definition spends :: "system \<Rightarrow> system \<Rightarrow> bool" where
  "spends s s' \<longleftrightarrow>
     (\<forall>ch. tokens (brk s) = Some ch \<longrightarrow>
        (\<exists>d. tokens (brk s') = Some d \<and> ch_cap d = ch_cap ch \<and>
          tokensPerTick (brk s') = tokensPerTick (brk s) \<and> n_ticks s \<le> n_ticks s' \<and>
          all_taken s' + int (ch_len d) + int (refill_left s') \<le>
            all_taken s + int (ch_len ch) + int (refill_left s) + tokensPerTick (brk s) * (int (n_ticks s') - int (n_ticks s))))"

lemma spends_refl: "spends s s"
  by (simp add: spends_def)

lemma spends_trans:
  assumes "spends s s'" and "spends s' s''"
  shows "spends s s''"
  unfolding spends_def
proof (intro allI impI)
  fix ch assume "tokens (brk s) = Some ch"
  then obtain d where d: "tokens (brk s') = Some d" "ch_cap d = ch_cap ch"
    "tokensPerTick (brk s') = tokensPerTick (brk s)" "n_ticks s \<le> n_ticks s'"
    "all_taken s' + int (ch_len d) + int (refill_left s') \<le> all_taken s + int (ch_len ch) + int (refill_left s) + tokensPerTick (brk s) * (int (n_ticks s') - int (n_ticks s))"
    using assms(1) by (auto simp: spends_def)
  then obtain e where "tokens (brk s'') = Some e" "ch_cap e = ch_cap d"
    "tokensPerTick (brk s'') = tokensPerTick (brk s')" "n_ticks s' \<le> n_ticks s''"
    "all_taken s'' + int (ch_len e) + int (refill_left s'') \<le> all_taken s' + int (ch_len d) + int (refill_left s') + tokensPerTick (brk s') * (int (n_ticks s'') - int (n_ticks s'))"
    using assms(2) by (auto simp: spends_def)
  with d show "\<exists>d. tokens (brk s'') = Some d \<and> ch_cap d = ch_cap ch \<and>
      tokensPerTick (brk s'') = tokensPerTick (brk s) \<and> n_ticks s \<le> n_ticks s'' \<and>
      all_taken s'' + int (ch_len d) + int (refill_left s'') \<le>
        all_taken s + int (ch_len ch) + int (refill_left s) + tokensPerTick (brk s) * (int (n_ticks s'') - int (n_ticks s))"
    by (intro exI [of _ e]) (auto simp: right_diff_distrib)
qed

text \<open>The ticks add, they never take away, and they have a distance.\<close>

definition ticks_add :: "circuitBreaker \<Rightarrow> bool" where
  "ticks_add cb \<longleftrightarrow> (tokens cb \<noteq> None \<longrightarrow> 0 \<le> tokensPerTick cb \<and> 0 < tokenInterval cb)"

lemma taken_context [simp]: "taken (c\<lparr>c_ctx := x\<rparr>) = taken c"
  by (simp add: taken_def)

lemma spends_context:
  assumes "i < length (calls s)"
  shows "spends s (with_call i (\<lambda>c. c\<lparr>c_ctx := ctx_finish e (c_ctx c)\<rparr>) s)"
proof -
  have "map taken ((calls s)[i := (calls s ! i)\<lparr>c_ctx := ctx_finish e (c_ctx (calls s ! i))\<rparr>]) = map taken (calls s)"
    using assms by (simp add: map_update list_update_same_conv)
  then show ?thesis by (simp add: spends_def all_taken_def with_call_def)
qed

lemma spends_step:
  assumes "sys_inv s" and "ticks_add (brk s)" and "sys_step s s'"
  shows "spends s s'"
  using assms(3)
proof cases
  case (enter env rq cl c)
  then have "taken c = 0" using Do_enter_start [OF enter(3)] by (simp add: taken_def n_recorded_def)
  with enter show ?thesis by (simp add: spends_def all_taken_def)
next
  case (call_step i env inp cb c)
  have r: "reach (brk s) (calls s ! i)" using assms(1) call_step(2) by (simp add: sys_inv_def)
  have keep: "keeps (brk s) cb" using do_step_control [OF call_step(4) reach_books [OF r]] by blast
  have fall: "level_falls (taken c - taken (calls s ! i)) (brk s) cb"
    by (rule do_step_level [OF call_step(4) reach_books [OF r]])
  have "(\<Sum>c \<leftarrow> (calls s)[i := c]. taken c) = (\<Sum>c \<leftarrow> calls s. taken c) + (taken c - taken (calls s ! i))"
    by (rule sum_list_update_add [OF call_step(2)]) simp
  with fall keep call_step(1) show ?thesis
    by (fastforce simp: spends_def level_falls_def all_taken_def keeps_def same_config_def)
next
  case (ticked tk)
  then show ?thesis using assms(2) by (auto simp: spends_def all_taken_def ticks_add_def)
next
  case (refilled n cb)
  from refilled(2) show ?thesis
  proof (cases rule: refill_one_cases)
    case (full k ch)
    with refilled(1) show ?thesis by (auto simp: spends_def all_taken_def)
  next
    case (sent ch d)
    with refilled(1) ch.send_Some [OF sent(3)] show ?thesis by (auto simp: spends_def all_taken_def)
  qed
next
  case (expired i t)
  then show ?thesis using spends_context by simp
next
  case (cancelled i)
  then show ?thesis using spends_context by simp
qed (auto simp: spends_def all_taken_def Stop_def refiller_exit_def split: option.splits if_splits)

lemma sys_step_config:
  assumes "sys_inv s" and "sys_step s s'"
  shows "same_config (brk s) (brk s')"
  using assms(2)
proof cases
  case (call_step i env inp cb c)
  have r: "reach (brk s) (calls s ! i)" using assms(1) call_step(2) by (simp add: sys_inv_def)
  have "keeps (brk s) cb" using do_step_control [OF call_step(4) reach_books [OF r]] by blast
  with call_step(1) show ?thesis by (simp add: keeps_def)
next
  case (refilled n cb)
  from refilled(2) show ?thesis by (cases rule: refill_one_cases) (use refilled(1) in \<open>auto simp: same_config_def\<close>)
qed (auto simp: with_call_def Stop_def refiller_exit_def same_config_def split: option.splits)

lemma steps_config:
  assumes "sys_step\<^sup>*\<^sup>* s s'" and "sys_run k s"
  shows "same_config (brk s) (brk s')"
proof -
  from assms(1) have "(\<exists>k'. sys_run k' s') \<and> same_config (brk s) (brk s')"
  proof (induction rule: rtranclp_induct)
    case (step s1 s2)
    then obtain k' where k': "sys_run k' s1" by blast
    then have "sys_run (Suc k') s2" using step(2) by (rule sys_run.step)
    with step sys_step_config [OF run_inv [OF k'] step(2)] show ?case using same_config_trans by blast
  qed (use assms(2) in auto)
  then show ?thesis by simp
qed

lemma sys_step_tokens:
  assumes "sys_inv s" and "sys_step s s'"
  shows "(tokens (brk s') = None) = (tokens (brk s) = None) \<and> tokensPerTick (brk s') = tokensPerTick (brk s) \<and>
    tokenInterval (brk s') = tokenInterval (brk s)"
  using sys_step_config [OF assms] by (simp add: same_config_def)

lemma ticks_add_step: "sys_inv s \<Longrightarrow> sys_step s s' \<Longrightarrow> ticks_add (brk s) \<Longrightarrow> ticks_add (brk s')"
  using sys_step_tokens by (simp add: ticks_add_def)

text \<open>A new breaker has a full bucket.\<close>

definition full_bucket :: "circuitBreaker \<Rightarrow> bool" where
  "full_bucket cb \<longleftrightarrow> ticks_add cb \<and> (\<forall>ch. tokens cb = Some ch \<longrightarrow> ch_len ch = ch_cap ch)"

lemma full_bucket_start:
  assumes "\<forall>opt \<in> set opts. opt = None \<or> (\<exists>f. opt = Some f \<and> package_option f)"
  shows "full_bucket (NewCircuitBreakerWithOptions name mc mr w n opts)"
proof -
  define cb where "cb = apply_options opts (newCircuitBreaker name mc mr w n)"
  have f: "fresh cb" unfolding cb_def by (rule fresh_options [OF assms fresh_new])
  have "full_bucket (initTokenBucket cb)"
  proof (cases "0 < maxRequests cb \<and> 0 < windowSeconds cb")
    case True
    then show ?thesis using initTokenBucket_on(1,2,4) [of cb] by (simp add: full_bucket_def ticks_add_def minTokenInterval_def)
  next
    case False
    then have "tokens (initTokenBucket cb) = None" using f initTokenBucket_off [of cb] by (auto simp: fresh_def)
    then show ?thesis by (simp add: full_bucket_def ticks_add_def)
  qed
  then show ?thesis by (simp add: NewCircuitBreakerWithOptions_def cb_def)
qed

lemma run_ticks_add: "sys_run k s \<Longrightarrow> ticks_add (brk s)"
proof (induction rule: sys_run.induct)
  case start
  then show ?case using full_bucket_start by (simp add: full_bucket_def)
next
  case (step k s s')
  then show ?case using ticks_add_step run_inv by blast
qed

lemma run_spends: "sys_step\<^sup>*\<^sup>* s s' \<Longrightarrow> sys_run k s \<Longrightarrow> spends s s' \<and> (\<exists>k'. sys_run k' s')"
proof (induction rule: rtranclp_induct)
  case base
  then show ?case using spends_refl by blast
next
  case (step s1 s2)
  then obtain k1 where "spends s s1" "sys_run k1 s1" by blast
  with step(2) show ?case
    using spends_step [OF run_inv run_ticks_add] spends_trans sys_run.step by blast
qed

lemma sent_taken: "reach cb c \<Longrightarrow> n_sent c \<le> taken c"
proof -
  assume "reach cb c"
  then have "attempts_at (MaxRetries cb) c (c_pc c)" using attempts.holds by (simp add: attempts_law_def)
  then show "n_sent c \<le> taken c"
    by (cases "c_pc c") (auto simp: taken_def before_def in_flight_def counts_iff ended_def empty_counts)
qed

section \<open>Ticks and time\<close>

text \<open>
  The ticks the refiller has taken since the breaker was made at \<open>t0\<close>, and since an earlier state
  \<open>s0\<close>, keep to the period of its ticker.
\<close>

definition timed :: "gotime \<Rightarrow> system \<Rightarrow> bool" where
  "timed t0 s \<longleftrightarrow> (0 < tokenInterval (brk s) \<longrightarrow>
     ticker_ok (tokenInterval (brk s)) t0 (now s) (n_ticks s) (tick_at s))"

definition timed_from :: "system \<Rightarrow> system \<Rightarrow> bool" where
  "timed_from s0 s \<longleftrightarrow> now s0 \<le> now s \<and> n_ticks s0 \<le> n_ticks s \<and> tokenInterval (brk s) = tokenInterval (brk s0) \<and>
     (0 < tokenInterval (brk s0) \<longrightarrow> tk_period (tick_at s0) = tokenInterval (brk s0) \<longrightarrow>
        ticker_since (tick_at s0) (now s0) (n_ticks s - n_ticks s0) (tick_at s))"

lemma timed_step:
  assumes "sys_inv s" and "sys_step s s'" and "timed t0 s"
  shows "timed t0 s'"
  using assms(2)
proof cases
  case (fired tk)
  with assms(3) ticker_ok_fires [of "tokenInterval (brk s)" t0 "now s" "n_ticks s" "tick_at s" tk] show ?thesis by (auto simp: timed_def)
next
  case (ticked tk)
  with assms(3) ticker_ok_recv [of "tokenInterval (brk s)" t0 "now s" "n_ticks s" "tick_at s" tk] show ?thesis by (auto simp: timed_def)
next
  case (time_passes t)
  with assms(3) ticker_ok_time [of "tokenInterval (brk s)" t0 "now s" "n_ticks s" "tick_at s" t] show ?thesis by (auto simp: timed_def)
qed (use assms(3) sys_step_tokens [OF assms(1,2)] in \<open>auto simp: timed_def with_call_def\<close>)

lemma timed_from_step:
  assumes "sys_inv s" and "sys_step s s'" and "timed_from s0 s"
  shows "timed_from s0 s'"
proof -
  note same = sys_step_tokens [OF assms(1,2)]
  from assms(2) show ?thesis
  proof cases
    case (fired tk)
    with assms(3) ticker_since_fires [of "tick_at s0" "now s0" _ "tick_at s" "now s" tk] show ?thesis by (auto simp: timed_from_def)
  next
    case (ticked tk)
    with assms(3) ticker_since_recv [of "tick_at s0" "now s0" _ "tick_at s" tk] show ?thesis
      by (auto simp: timed_from_def Suc_diff_le)
  qed (use assms(3) same in \<open>auto simp: timed_from_def with_call_def\<close>)
qed

lemma timed_from_refl: "timed_from s s"
  by (simp add: timed_from_def ticker_since_refl)

lemma timed_new: "timed t (new_system cb t)"
  by (simp add: timed_def ticker_ok_new)

lemma run_timed: "sys_run k s \<Longrightarrow> \<exists>t0. timed t0 s"
proof (induction rule: sys_run.induct)
  case start
  then show ?case using timed_new by blast
next
  case (step k s s')
  then show ?case using timed_step run_inv by blast
qed

lemma steps_timed:
  assumes "sys_step\<^sup>*\<^sup>* s s'" and "sys_run k s" and "timed t0 s"
  shows "timed t0 s' \<and> timed_from s s' \<and> (\<exists>k'. sys_run k' s')"
  using assms(1)
proof (induction rule: rtranclp_induct)
  case base
  then show ?case using assms(2,3) timed_from_refl by blast
next
  case (step s1 s2)
  then show ?case using timed_step timed_from_step run_inv sys_run.step by blast
qed

text \<open>The ticks since the breaker was made, and over a window of time.\<close>

lemma ticks_since_start:
  assumes "timed t0 s" and "0 < tokenInterval (brk s)"
  shows "int (n_ticks s) \<le> (now s - t0) div tokenInterval (brk s)"
proof -
  have "int (n_ticks s) * tokenInterval (brk s) \<le> now s - t0" using assms ticker_ok_bound by (simp add: timed_def)
  then have "int (n_ticks s) * tokenInterval (brk s) div tokenInterval (brk s) \<le> (now s - t0) div tokenInterval (brk s)"
    using assms(2) by (intro zdiv_mono1)
  with assms(2) show ?thesis by simp
qed

lemma ticks_in_between:
  assumes "timed t0 s" and "timed t0 s'" and "timed_from s s'" and "0 < tokenInterval (brk s)"
  shows "(int (n_ticks s') - int (n_ticks s) - 3) * tokenInterval (brk s) < now s' - now s"
proof -
  have "tk_period (tick_at s) = tokenInterval (brk s)" using assms(1,4) by (simp add: timed_def ticker_ok_def)
  with assms have "ticker_since (tick_at s) (now s) (n_ticks s' - n_ticks s) (tick_at s')"
    "ticker_ok (tokenInterval (brk s)) t0 (now s') (n_ticks s') (tick_at s')" "now s \<le> now s'" "n_ticks s \<le> n_ticks s'"
    by (simp_all add: timed_def timed_from_def)
  from ticker_since_bound [OF this(1,2) assms(4) this(3)] this(4) show ?thesis by (simp add: of_nat_diff)
qed

text \<open>A whole tick without anything in between is the \<open>tick\<close> of the bucket.\<close>

lemma refills_all:
  "tokens (brk s) = Some ch \<Longrightarrow>
     inner_step\<^sup>*\<^sup>* (s\<lparr>refill_left := n\<rparr>) (s\<lparr>brk := (brk s)\<lparr>tokens := Some (refill n ch)\<rparr>, refill_left := 0\<rparr>)"
proof (induction n arbitrary: s ch)
  case 0
  then have "(brk s)\<lparr>tokens := Some (refill 0 ch)\<rparr> = brk s" by simp
  then show ?case by simp
next
  case (Suc n)
  show ?case
  proof (cases "try_send ch")
    case None
    then have "refill_one (Suc n) (brk s) = Some (0, brk s)" "(brk s)\<lparr>tokens := Some (refill (Suc n) ch)\<rparr> = brk s"
      using Suc.prems by (simp_all add: refill_one_def)
    with inner_step.refills [of "s\<lparr>refill_left := Suc n\<rparr>"] show ?thesis by fastforce
  next
    case (Some d)
    let ?s = "s\<lparr>brk := (brk s)\<lparr>tokens := Some d\<rparr>\<rparr>"
    have "refill_one (Suc n) (brk s) = Some (n, (brk s)\<lparr>tokens := Some d\<rparr>)"
      using Suc.prems Some by (simp add: refill_one_def)
    with inner_step.refills [of "s\<lparr>refill_left := Suc n\<rparr>"]
    have "inner_step (s\<lparr>refill_left := Suc n\<rparr>) (?s\<lparr>refill_left := n\<rparr>)" by simp
    moreover have "inner_step\<^sup>*\<^sup>* (?s\<lparr>refill_left := n\<rparr>) (?s\<lparr>brk := (brk ?s)\<lparr>tokens := Some (refill n d)\<rparr>, refill_left := 0\<rparr>)"
      by (rule Suc.IH) simp
    ultimately show ?thesis using Some by (simp add: converse_rtranclp_into_rtranclp)
  qed
qed

lemma whole_tick:
  assumes "refilling (brk s)" and "refill_left s = 0" and "ticker_recv (tick_at s) = Some tk" and "tokens (brk s) \<noteq> None"
  shows "inner_step\<^sup>*\<^sup>* s (s\<lparr>brk := tick (brk s), tick_at := tk, n_ticks := Suc (n_ticks s)\<rparr>)"
proof -
  obtain ch where ch: "tokens (brk s) = Some ch" using assms(4) by blast
  let ?s = "s\<lparr>tick_at := tk, n_ticks := Suc (n_ticks s)\<rparr>"
  have "?s\<lparr>refill_left := nat (tokensPerTick (brk s))\<rparr> =
      s\<lparr>tick_at := tk, refill_left := nat (tokensPerTick (brk s)), n_ticks := Suc (n_ticks s)\<rparr>" by simp
  with inner_step.ticks [OF assms(1-3)] have "inner_step s (?s\<lparr>refill_left := nat (tokensPerTick (brk s))\<rparr>)" by (simp only:)
  moreover have "inner_step\<^sup>*\<^sup>* (?s\<lparr>refill_left := nat (tokensPerTick (brk s))\<rparr>)
      (?s\<lparr>brk := (brk ?s)\<lparr>tokens := Some (refill (nat (tokensPerTick (brk s))) ch)\<rparr>, refill_left := 0\<rparr>)"
    by (rule refills_all) (simp add: ch)
  moreover have "?s\<lparr>brk := (brk ?s)\<lparr>tokens := Some (refill (nat (tokensPerTick (brk s))) ch)\<rparr>, refill_left := 0\<rparr> =
      s\<lparr>brk := tick (brk s), tick_at := tk, n_ticks := Suc (n_ticks s)\<rparr>"
    using ch assms(2) by (simp add: tick_def)
  ultimately show ?thesis by (metis converse_rtranclp_into_rtranclp)
qed

text \<open>The calls of a breaker since it was made.\<close>

lemma taken_since_start:
  assumes "\<forall>opt \<in> set opts. opt = None \<or> (\<exists>f. opt = Some f \<and> package_option f)"
    and "sys_step\<^sup>*\<^sup>* (new_system (NewCircuitBreakerWithOptions name mc mr w n opts) t) s" and "tokens (brk s) = Some ch"
  shows "all_taken s + int (ch_len ch) \<le>
      int (ch_cap ch) + tokensPerTick (brk s) * ((now s - t) div tokenInterval (brk s))"
proof -
  let ?s0 = "new_system (NewCircuitBreakerWithOptions name mc mr w n opts) t"
  have run: "sys_run 0 ?s0" by (rule sys_run.start [OF assms(1)])
  from steps_timed [OF assms(2) run timed_new] obtain k where s: "timed t s" "sys_run k s" by blast
  have "tokens (brk ?s0) \<noteq> None"
    using assms(2,3) run
  proof (induction arbitrary: ch rule: rtranclp_induct)
    case (step s1 s2)
    have "tokens (brk s1) \<noteq> None" using sys_step_tokens [OF run_inv step(2)] run_spends [OF step(1) run] step(4) by auto
    then show ?case using step.IH run by blast
  qed simp
  then obtain ch0 where ch0: "tokens (brk ?s0) = Some ch0" by blast
  have full: "ch_len ch0 = ch_cap ch0" using full_bucket_start [OF assms(1)] ch0 by (auto simp: full_bucket_def)
  have sp: "spends ?s0 s" using run_spends [OF assms(2) run] by blast
  have add: "ticks_add (brk s)" by (rule run_ticks_add [OF s(2)])
  then have "int (n_ticks s) \<le> (now s - t) div tokenInterval (brk s)"
    using assms(3) ticks_since_start [OF s(1)] by (simp add: ticks_add_def)
  then have "tokensPerTick (brk s) * int (n_ticks s) \<le> tokensPerTick (brk s) * ((now s - t) div tokenInterval (brk s))"
    using add assms(3) by (intro mult_left_mono) (simp_all add: ticks_add_def)
  with sp ch0 full assms(3) show ?thesis by (auto simp: spends_def all_taken_def)
qed

section \<open>Running the system\<close>

text \<open>Runs as lists of moves, for concrete histories.\<close>

datatype move = Enter "request option" "client option" | Step nat env input | Advance gotime | StopIt

fun make_move :: "move \<Rightarrow> system \<Rightarrow> system option" where
  "make_move (Enter rq cl) s =
     (case Do_enter (sample_env\<lparr>clock := now s\<rparr>) (brk s) rq cl of
        Inl _ \<Rightarrow> None | Inr c \<Rightarrow> Some (s\<lparr>calls := calls s @ [c]\<rparr>))"
| "make_move (Step i env inp) s =
     (if i < length (calls s) \<and> clock env = now s then
        map_option (\<lambda>(cb, c). s\<lparr>brk := cb, calls := (calls s)[i := c]\<rparr>) (do_step env inp (brk s) (calls s ! i))
      else None)"
| "make_move (Advance t) s = (if now s \<le> t then Some (s\<lparr>now := t\<rparr>) else None)"
| "make_move StopIt s = Some (s\<lparr>brk := Stop (brk s)\<rparr>)"

fun make_moves :: "move list \<Rightarrow> system \<Rightarrow> system option" where
  "make_moves [] s = Some s"
| "make_moves (m # ms) s = (case make_move m s of None \<Rightarrow> None | Some s' \<Rightarrow> make_moves ms s')"

lemma make_move_step: "make_move m s = Some s' \<Longrightarrow> sys_step s s'"
proof (cases m)
  case (Enter rq cl)
  moreover assume "make_move m s = Some s'"
  ultimately show ?thesis
    using sys_step.enter [of "sample_env\<lparr>clock := now s\<rparr>" s rq cl] by (auto split: sum.splits)
qed (auto split: if_splits intro: sys_step.intros)

lemma make_moves_run: "make_moves ms s = Some s' \<Longrightarrow> sys_run k s \<Longrightarrow> sys_run (k + length ms) s'"
proof (induction ms arbitrary: k s)
  case (Cons m ms)
  then obtain s1 where "make_move m s = Some s1" "make_moves ms s1 = Some s'"
    by (auto split: option.splits)
  moreover from this have "sys_run (Suc k) s1"
    using Cons.prems(2) make_move_step sys_run.step by blast
  ultimately show ?case using Cons.IH [of s1 "Suc k"] by simp
qed simp

lemma make_moves_steps: "make_moves ms s = Some s' \<Longrightarrow> sys_step\<^sup>*\<^sup>* s s'"
proof (induction ms arbitrary: s)
  case (Cons m ms)
  then obtain s1 where "make_move m s = Some s1" "make_moves ms s1 = Some s'"
    by (auto split: option.splits)
  with Cons.IH show ?case by (meson make_move_step converse_rtranclp_into_rtranclp)
qed simp

section \<open>Tallies of logs\<close>

lemma log_sum:
  "(\<Sum>e \<leftarrow> es. event_tally e) = Tally (of_nat (count_list es (Recorded Attempt))) (of_nat (count_list es (Recorded Success)))
     (of_nat (count_list es (Recorded Failure))) (of_nat (count_list es (Recorded Retry)))
     (of_nat (count_list es (Recorded TokenCancel)))"
proof (induction es)
  case (Cons e es)
  show ?case
  proof (cases e)
    case (Recorded k)
    with Cons show ?thesis by (cases k) (simp_all add: plus_tally_def)
  qed (use Cons in \<open>simp_all add: plus_tally_def zero_tally_def\<close>)
qed (simp add: zero_tally_def)

text \<open>Successes and failures together are the attempts and the cancelled waits.\<close>

definition balanced :: "tally \<Rightarrow> bool" where
  "balanced t \<longleftrightarrow> t_ok t + t_fail t = t_total t + t_cancel t"

lemma balanced_sum: "\<forall>x \<in> set xs. balanced (f x) \<Longrightarrow> balanced (\<Sum>x \<leftarrow> xs. f x)"
  by (induction xs) (auto simp: balanced_def zero_tally_def plus_tally_def algebra_simps)

text \<open>A call that came to an end of its own, neither by a panic nor by \<open>Stop\<close>.\<close>

definition ended_well :: "call \<Rightarrow> bool" where
  "ended_well c \<longleftrightarrow>
     (case c_pc c of
        Done (Returned r e) \<Rightarrow> (case e of None \<Rightarrow> True | Some x \<Rightarrow> \<not> errors_Is x ErrStopped)
      | _ \<Rightarrow> False)"

lemma ended_well_balanced:
  assumes "reach cb c" and "ended_well c"
  shows "balanced (log_tally c h (c_log c))"
proof -
  obtain r e where pc: "c_pc c = Done (Returned r e)" "\<And>x. e = Some x \<Longrightarrow> \<not> errors_Is x ErrStopped"
    using assms(2) by (auto simp: ended_well_def split: pc.splits do_result.splits option.splits)
  have "settled c (Returned r e)"
    using attempts.holds [OF assms(1)] pc by (simp add: attempts_law_def ended_def)
  with pc(2) have "n_recorded Success c + n_recorded Failure c = n_recorded Attempt c + n_recorded TokenCancel c"
    by (auto simp: settled_def)
  then have "count_list (c_log c) (Recorded Success) + count_list (c_log c) (Recorded Failure) =
      count_list (c_log c) (Recorded Attempt) + count_list (c_log c) (Recorded TokenCancel)"
    unfolding n_recorded_def by linarith
  then show ?thesis
    by (simp add: balanced_def log_tally_def log_sum zero_tally_def flip: of_nat_add)
qed

section \<open>Progress\<close>

text \<open>
  A call whose context is done always has a step to take, and so has a call that is leaving or
  waits for an answer that arrives.
\<close>

lemma call_progress:
  assumes "reach cb c" and "ctx_err (c_ctx c) = Some e" and "\<And>res. c_pc c \<noteq> Done res"
    and "\<And>ch. c_slot c \<Longrightarrow> sem cb = Some ch \<Longrightarrow> 0 < ch_len ch"
  shows "\<exists>env i cb' c'. clock env = t \<and> do_step env i cb c = Some (cb', c')"
proof -
  let ?env = "sample_env\<lparr>clock := t\<rparr>"
  let ?goal = "\<lambda>i. \<exists>cb' c'. do_step ?env i cb c = Some (cb', c')"
  have law: "resource_law cb c" using resources.holds [OF assms(1)] .
  have "?goal Run \<or> ?goal (Arm ArmCtx) \<or> ?goal (Rewind FreshBody) \<or> ?goal (Reply (TransportPanic ''''))"
  proof (cases "c_pc c")
    case AtSem
    with assms(2) show ?thesis by (cases "sem cb") (auto simp: do_step_def step_sem_def)
  next
    case (AtGate a s)
    then show ?thesis
      using gate_fail_cases(2) by (cases "waitRetryAfterGate t cb") (auto simp: do_step_def gate_outcome_def)
  next
    case (AtGateSleep a s w)
    with assms(2) show ?thesis by (auto simp: do_step_def gate_outcome_def waitRetryAfterGate_select_def)
  next
    case (AtTokenWait a s)
    with assms(2) show ?thesis by (auto simp: do_step_def token_outcome_def waitForToken_select_def)
  next
    case (AtPause a w)
    with assms(2) show ?thesis by (auto simp: do_step_def step_pause_def)
  next
    case (AtRelease res)
    show ?thesis
    proof (cases "c_slot c")
      case True
      then obtain ch where "sem cb = Some ch" using law AtRelease by (auto simp: resource_law_def)
      with True AtRelease assms(4) show ?thesis by (auto simp: do_step_def step_release_def try_recv_def)
    next
      case False
      with AtRelease show ?thesis by (simp add: do_step_def step_release_def)
    qed
  next
    case (Done res)
    with assms(3) show ?thesis by blast
  qed (auto simp: do_step_def)
  moreover have "clock ?env = t" by simp
  ultimately show ?thesis by blast
qed

section \<open>Properties\<close>

text \<open>A breaker with one slot, and a machine that opens at the first failure for ten nanoseconds.\<close>

definition small_breaker :: circuitBreaker where
  "small_breaker = NewCircuitBreakerWithOptions ''b'' 1 0 0 0 [Some (WithBreaker 1 10 1)]"

definition small_start :: system where
  "small_start = new_system small_breaker 1000"

lemma small_run: "sys_run 0 small_start"
  unfolding small_start_def small_breaker_def
  by (rule sys_run.start) (auto simp: int64_def intro: package_option.intros)

lemma small_fields [simp]:
  "MaxRetries small_breaker = 0" "retryPolicy small_breaker = None" "retryAfterMax small_breaker = 0"
  "statusFailMin small_breaker = 0" "tokens small_breaker = None" "expBackoff small_breaker = None"
  "sem small_breaker = Some \<lparr>ch_len = 0, ch_cap = 1\<rparr>" "MaxConcurrent small_breaker = 1"
  "defaultTimeout small_breaker = 0"
  "state small_breaker = Some (newBreakerState 1 10 1)" "metrics_ok (metrics small_breaker)"
  by (simp_all add: small_breaker_def NewCircuitBreakerWithOptions_def newCircuitBreaker_def WithBreaker_def
      frame_simps initTokenBucket_def make_chan_def metrics_ok_empty)

text \<open>
  A first call fails and opens the circuit; ten nanoseconds later a second call is admitted as a
  probe and holds the slot.
\<close>

definition env_at :: "gotime \<Rightarrow> env" where
  "env_at t = sample_env\<lparr>clock := t\<rparr>"

definition small_history :: "move list" where
  "small_history =
     [Enter (Some sample_request) None, Step 0 (env_at 1000) Run, Step 0 (env_at 1000) (Arm ArmSlot), Step 0 (env_at 1000) Run,
      Step 0 (env_at 1000) Run, Step 0 (env_at 1000) Run, Step 0 (env_at 1000) Run,
      Step 0 (env_at 1000) (Reply (TransportError (Plain ''refused''))),
      Step 0 (env_at 1000) Run, Step 0 (env_at 1000) Run, Step 0 (env_at 1000) Run,
      Advance 1010, Enter (Some sample_request) None, Step 1 (env_at 1010) Run, Step 1 (env_at 1010) (Arm ArmSlot)]"

lemma marked_concurrent: "MaxConcurrent (marked k t env cb c) = MaxConcurrent cb"
  "defaultTimeout (marked k t env cb c) = defaultTimeout cb"
  by (simp_all add: marked_def)

lemma small_end:
  "\<exists>s b. make_moves small_history small_start = Some s \<and> state (brk s) = Some b \<and> half_open b \<and> maxProbes b = 1 \<and>
     MaxConcurrent (brk s) = 1 \<and> map c_pc (calls s) = [Done (Returned None (Some (Plain ''refused''))), AtLoop 0] \<and>
     map c_ticket (calls s) = [None, Some (True, 1)] \<and> map c_log (calls s) =
       [[Recorded Attempt, Sent, Got (TransportError (Plain ''refused'')), Recorded Failure], []]"
  by (simp add: small_history_def small_start_def sample_env_def env_at_def sample_request_def Do_enter_def
      http_DefaultClient_def background_def step_defs allow_def allow_half_open_def newBreakerState_def try_send_def try_recv_def Let_def
      time_sub_def sat64_def enterHalfOpen_def report_def call_outcome_def classifyOutcome_def
      errors_Is_def errors_As_def half_open_def marked_concurrent)

lemma small_final:
  obtains s b c d where "sys_run 15 s" "calls s = [c, d]" "state (brk s) = Some b" "half_open b" "maxProbes b = 1"
    "MaxConcurrent (brk s) = 1" "c_pc c = Done (Returned None (Some (Plain ''refused'')))" "c_pc d = AtLoop 0"
    "c_ticket c = None" "c_ticket d = Some (True, 1)" "n_recorded Attempt c = 1" "n_recorded Failure c = 1"
proof -
  obtain s b where s: "make_moves small_history small_start = Some s" "state (brk s) = Some b" "half_open b" "maxProbes b = 1"
    "MaxConcurrent (brk s) = 1" "map c_pc (calls s) = [Done (Returned None (Some (Plain ''refused''))), AtLoop 0]"
    "map c_ticket (calls s) = [None, Some (True, 1)]"
    "map c_log (calls s) = [[Recorded Attempt, Sent, Got (TransportError (Plain ''refused'')), Recorded Failure], []]"
    using small_end by (elim exE conjE) (rule that)
  moreover obtain c d where "calls s = [c, d]" using s(6) by (auto simp: map_eq_Cons_conv)
  moreover have "length small_history = 15" by (simp add: small_history_def)
  then have "sys_run 15 s" using make_moves_run [OF s(1) small_run] by simp
  moreover note this
  ultimately show ?thesis using that by (simp add: n_recorded_def)
qed

text \<open>The calls that have passed the semaphore and not begun to leave.\<close>

fun inside :: "pc \<Rightarrow> bool" where
  "inside AtAllow = False"
| "inside AtSem = False"
| "inside (AtRelease _) = False"
| "inside (AtReport _) = False"
| "inside (AtCancel _) = False"
| "inside (Done _) = False"
| "inside _ = True"

lemma inside_holds: "resource_law cb c \<Longrightarrow> inside (c_pc c) \<Longrightarrow> holds_all cb c"
  by (cases "c_pc c") (simp_all add: resource_law_def)

lemma slots_filter: "slots cs = length (filter c_slot cs)"
  by (induction cs) (simp_all add: slots_def)

lemma inside_bounded:
  assumes "sys_run k s" and "0 < MaxConcurrent (brk s)"
  shows "int (length (filter (\<lambda>c. inside (c_pc c)) (calls s))) \<le> MaxConcurrent (brk s)"
proof -
  note inv = run_inv [OF assms(1)]
  obtain ch where ch: "sem (brk s) = Some ch" "ch_len ch = slots (calls s)" "ch_cap ch = nat (MaxConcurrent (brk s))" "chan_ok ch"
    using inv assms(2) by (auto simp: sys_inv_def sem_ok_def)
  have "c_slot c" if "c \<in> set (calls s)" "inside (c_pc c)" for c
  proof -
    have "reach (brk s) c" using inv that(1) by (simp add: sys_inv_def)
    from inside_holds [OF resources.holds [OF this] that(2)] ch(1) show ?thesis by (simp add: holds_all_def)
  qed
  then have "filter (\<lambda>c. inside (c_pc c)) (calls s) = filter (\<lambda>c. inside (c_pc c)) (filter c_slot (calls s))"
    by (auto intro: filter_cong)
  then have "length (filter (\<lambda>c. inside (c_pc c)) (calls s)) \<le> slots (calls s)"
    by (metis length_filter_le slots_filter)
  with ch assms(2) show ?thesis by (simp add: chan_ok_def)
qed

text \<open>C4: The bulkhead: with a positive \<open>MaxConcurrent\<close>, no more than that many calls are ever between
  the semaphore and their end, whatever the interleaving of calls, retries, panics, cancellations
  and \<open>Stop\<close>.\<close>

theorem bulkhead_respected:
  assumes "sys_run k s" and "0 < MaxConcurrent (brk s)"
  shows "int (length (filter (\<lambda>c. inside (c_pc c)) (calls s))) \<le> MaxConcurrent (brk s)"
  using assms by (rule inside_bounded)

theorem bulkhead_respected_witness:
  "\<exists>s. sys_run 15 s \<and> MaxConcurrent (brk s) = 1 \<and> filter (\<lambda>c. inside (c_pc c)) (calls s) = [calls s ! 1] \<and>
     int (length (filter (\<lambda>c. inside (c_pc c)) (calls s))) \<le> 1"
proof -
  obtain s c d where s: "sys_run 15 s" "calls s = [c, d]" "MaxConcurrent (brk s) = 1" "c_pc d = AtLoop 0"
    "c_pc c = Done (Returned None (Some (Plain ''refused'')))"
    by (rule small_final) blast
  with bulkhead_respected [OF s(1)] show ?thesis by auto
qed

text \<open>C6: While the circuit is half-open, the calls in progress that were admitted as probes of the
  current generation are exactly the probes the machine counts, and never more than \<open>maxProbes\<close>,
  for every history of fewer than \<open>2 ^ 64\<close> steps.\<close>

theorem probes_bounded:
  assumes "sys_run k s" and "k \<le> max_generation" and "state (brk s) = Some b" and "half_open b"
  shows "int (size (filter_mset (\<lambda>t. fst t \<and> snd t = gen b) (tickets (calls s)))) = probes b \<and> probes b \<le> maxProbes b"
proof -
  have "adm.ledger b (tickets (calls s))"
    using run_machine [OF assms(1,2)] assms(3) by (simp add: machine_ok_def)
  moreover have "adm.live b = (\<lambda>t. fst t \<and> snd t = gen b)"
    by (auto simp: adm.live_def fun_eq_iff ticket_stamp_def generation_def unsigned_word_eqI)
  ultimately show ?thesis using assms(4) by (simp add: adm.ledger_def)
qed

theorem probes_bounded_witness:
  "\<exists>s b. sys_run 15 s \<and> state (brk s) = Some b \<and> half_open b \<and> (True, 1) \<in># tickets (calls s) \<and> probes b \<le> 1"
proof -
  obtain s b c d where s: "sys_run 15 s" "state (brk s) = Some b" "half_open b" "maxProbes b = 1" "calls s = [c, d]"
    "c_ticket c = None" "c_ticket d = Some (True, 1)"
    by (rule small_final) blast
  with probes_bounded [OF s(1) _ s(2,3)] show ?thesis by (auto simp: tickets_def)
qed

text \<open>C5: The rate limit of the whole system: from any reachable state to any later one, however calls,
  retries, the refiller and \<open>Stop\<close> interleave, the calls take at most the tokens in the bucket, those
  of the present tick still to be added, and one batch for each tick in between; the ticks in between
  are one for each interval of the time that has passed, and at most three more (one that was held,
  one that was late, one at the end); and a call sends no request without having taken a token.\<close>

theorem system_rate_limit:
  assumes "sys_run k s" and "sys_step\<^sup>*\<^sup>* s s'" and "tokens (brk s) = Some ch"
  shows "(\<Sum>c \<leftarrow> calls s'. taken c) - (\<Sum>c \<leftarrow> calls s. taken c) \<le>
      int (ch_len ch) + int (refill_left s) + tokensPerTick (brk s) * (int (n_ticks s') - int (n_ticks s)) \<and>
    (int (n_ticks s') - int (n_ticks s) - 3) * tokenInterval (brk s) < now s' - now s \<and>
    (\<forall>c \<in> set (calls s'). n_sent c \<le> taken c)"
proof (intro conjI)
  obtain k' where sp: "spends s s'" "sys_run k' s'" using run_spends [OF assms(2,1)] by blast
  then show "(\<Sum>c \<leftarrow> calls s'. taken c) - (\<Sum>c \<leftarrow> calls s. taken c) \<le>
      int (ch_len ch) + int (refill_left s) + tokensPerTick (brk s) * (int (n_ticks s') - int (n_ticks s))"
    using assms(3) by (auto simp: spends_def all_taken_def)
  show "\<forall>c \<in> set (calls s'). n_sent c \<le> taken c" using run_inv [OF sp(2)] sent_taken by (auto simp: sys_inv_def)
  obtain t0 where "timed t0 s" using run_timed [OF assms(1)] by blast
  with steps_timed [OF assms(2,1) this] run_ticks_add [OF assms(1)] assms(3)
  show "(int (n_ticks s') - int (n_ticks s) - 3) * tokenInterval (brk s) < now s' - now s"
    using ticks_in_between by (auto simp: ticks_add_def)
qed

definition limited_start :: system where
  "limited_start = new_system (NewCircuitBreakerWithOptions ''b'' 0 2 1 0 []) 0"

lemma limited_run: "sys_run 0 limited_start"
  unfolding limited_start_def by (rule sys_run.start) simp

lemma limited_fields:
  "tokens (brk limited_start) = Some \<lparr>ch_len = 2, ch_cap = 2\<rparr>"
  "MaxRetries (brk limited_start) = 0" "retryAfterMax (brk limited_start) = 0"
  "sem (brk limited_start) = None" "state (brk limited_start) = None" "defaultTimeout (brk limited_start) = 0"
  "statusFailMin (brk limited_start) = 0" "calls limited_start = []" "now limited_start = 0" "n_ticks limited_start = 0" "refill_left limited_start = 0"
  "metrics_ok (metrics (brk limited_start))"
  using initTokenBucket_on(1) [of "newCircuitBreaker ''b'' 0 2 1 0"]
  by (simp_all add: limited_start_def NewCircuitBreakerWithOptions_def newCircuitBreaker_def frame_simps
      bucket_capacity_def maxBucketCapacity_def metrics_ok_empty)

lemma limited_call:
  "\<exists>s. make_moves [Enter (Some sample_request) None, Step 0 (env_at 0) Run, Step 0 (env_at 0) Run, Step 0 (env_at 0) Run,
        Step 0 (env_at 0) Run, Step 0 (env_at 0) Run, Step 0 (env_at 0) Run] limited_start = Some s \<and>
     map n_sent (calls s) = [1] \<and> n_ticks s = 0 \<and> now s = 0 \<and> tokens (brk s) = Some \<lparr>ch_len = 1, ch_cap = 2\<rparr>"
  by (simp add: limited_fields sample_env_def env_at_def sample_request_def Do_enter_def http_DefaultClient_def
      background_def step_defs try_recv_def n_sent_def Let_def)

theorem system_rate_limit_witness:
  "\<exists>s. sys_step\<^sup>*\<^sup>* limited_start s \<and> map n_sent (calls s) = [1] \<and> (\<Sum>c \<leftarrow> calls s. taken c) \<le> 2"
proof -
  obtain s where s: "sys_step\<^sup>*\<^sup>* limited_start s" "map n_sent (calls s) = [1]" "n_ticks s = 0"
    using limited_call by (elim exE conjE) (rule that [OF make_moves_steps])
  from system_rate_limit [OF limited_run s(1) limited_fields(1)]
  have "(\<Sum>c \<leftarrow> calls s. taken c) \<le> 2" by (simp add: s(3) limited_fields)
  with s(1,2) show ?thesis by (intro exI [of _ s] conjI)
qed

text \<open>The rate limit since the breaker was made, in time: up to any moment of any history all calls
  together have sent at most the capacity of the bucket and one batch for each full interval that
  has passed since.\<close>

theorem sent_since_creation:
  assumes "\<forall>opt \<in> set opts. opt = None \<or> (\<exists>f. opt = Some f \<and> package_option f)"
    and "sys_step\<^sup>*\<^sup>* (new_system (NewCircuitBreakerWithOptions name mc mr w n opts) t) s" and "tokens (brk s) = Some ch"
  shows "(\<Sum>c \<leftarrow> calls s. n_sent c) \<le>
      int (ch_cap ch) + tokensPerTick (brk s) * ((now s - t) div tokenInterval (brk s))"
proof -
  obtain k where "sys_run k s" using run_spends [OF assms(2) sys_run.start [OF assms(1)]] by blast
  then have "(\<Sum>c \<leftarrow> calls s. n_sent c) \<le> (\<Sum>c \<leftarrow> calls s. taken c)"
    using run_inv [of k s] sent_taken by (intro sum_list_mono) (auto simp: sys_inv_def)
  with taken_since_start [OF assms] show ?thesis by (simp add: all_taken_def)
qed

theorem sent_since_creation_witness:
  "\<exists>s. sys_step\<^sup>*\<^sup>* limited_start s \<and> map n_sent (calls s) = [1] \<and> (\<Sum>c \<leftarrow> calls s. n_sent c) \<le> 2"
proof -
  obtain s where s: "sys_step\<^sup>*\<^sup>* limited_start s" "map n_sent (calls s) = [1]" "now s = 0"
    "tokens (brk s) = Some \<lparr>ch_len = 1, ch_cap = 2\<rparr>"
    using limited_call by (elim exE conjE) (rule that [OF make_moves_steps])
  have "sys_step\<^sup>*\<^sup>* (new_system (NewCircuitBreakerWithOptions ''b'' 0 2 1 0 []) 0) s"
    using s(1) by (simp add: limited_start_def)
  from sent_since_creation [OF _ this s(4)] s(3) have "(\<Sum>c \<leftarrow> calls s. n_sent c) \<le> 2" by simp
  with s(1,2) show ?thesis by (intro exI [of _ s] conjI)
qed

text \<open>C8: The metrics of a host are the sum of what its calls have recorded, no record lost and none
  counted twice, for every interleaving: the aggregate of the host has, for each counter, the
  number of records of that kind in the logs of the calls to the host.\<close>

theorem metrics_reflect_calls:
  assumes "sys_run k s"
  shows "tally_at (metrics (brk s)) h root_key =
    (\<Sum>c \<leftarrow> calls s. if Host (c_url c) = h then \<Sum>e \<leftarrow> c_log c. event_tally e else 0)"
  using run_inv [OF assms] by (simp add: sys_inv_def books_ok_def log_tally_def)

theorem metrics_reflect_calls_witness:
  "\<exists>s. sys_run 15 s \<and> length (calls s) = 2 \<and> tally_at (metrics (brk s)) ''api'' root_key =
    (\<Sum>c \<leftarrow> calls s. if Host (c_url c) = ''api'' then \<Sum>e \<leftarrow> c_log c. event_tally e else 0)"
proof -
  obtain s c d where "sys_run 15 s" "calls s = [c, d]" by (rule small_final) blast
  with metrics_reflect_calls [of 15 s "''api''"] show ?thesis by auto
qed

text \<open>When all calls have come to an end of their own, the counters of a host add up: successes and
  failures together are the requests and the cancelled waits, as the documentation of the metrics
  says.\<close>

theorem settled_metrics_add_up:
  assumes "sys_run k s" and "\<forall>c \<in> set (calls s). ended_well c"
  shows "balanced (tally_at (metrics (brk s)) h root_key)"
proof -
  have "\<forall>c \<in> set (calls s). balanced (log_tally c h (c_log c))"
    using run_inv [OF assms(1)] assms(2) ended_well_balanced by (auto simp: sys_inv_def)
  then show ?thesis
    using run_inv [OF assms(1)] balanced_sum by (simp add: sys_inv_def books_ok_def)
qed

lemma small_settled:
  "\<exists>s. make_moves (take 11 small_history) small_start = Some s \<and>
     map c_pc (calls s) = [Done (Returned None (Some (Plain ''refused'')))]"
  by (simp add: small_history_def small_start_def sample_env_def env_at_def sample_request_def Do_enter_def
      http_DefaultClient_def background_def step_defs allow_def newBreakerState_def try_send_def try_recv_def Let_def)

theorem settled_metrics_add_up_witness:
  "\<exists>s. sys_run 11 s \<and> length (calls s) = 1 \<and> balanced (tally_at (metrics (brk s)) ''api'' root_key)"
proof -
  obtain s where s: "make_moves (take 11 small_history) small_start = Some s"
    "map c_pc (calls s) = [Done (Returned None (Some (Plain ''refused'')))]"
    using small_settled by (elim exE conjE) (rule that)
  have "length (take 11 small_history) = 11" by (simp add: small_history_def)
  then have run: "sys_run 11 s" using make_moves_run [OF s(1) small_run] by simp
  obtain c where c: "calls s = [c]" "c_pc c = Done (Returned None (Some (Plain ''refused'')))"
    using s(2) by (auto simp: map_eq_Cons_conv)
  then have "\<forall>c \<in> set (calls s). ended_well c" by (simp add: ended_well_def errors_Is_def)
  from settled_metrics_add_up [OF run this] run c show ?thesis by auto
qed

text \<open>No call gets stuck: once its context is done, a call that has not ended has a step it can
  take in every reachable state, at the semaphore, at the gate, at the bucket, in a pause and in
  each deferred function; only the transport and \<open>GetBody\<close> have to answer.\<close>

theorem cancelled_call_proceeds:
  assumes "sys_run k s" and "c \<in> set (calls s)" and "ctx_err (c_ctx c) = Some e" and "\<forall>res. c_pc c \<noteq> Done res"
  shows "\<exists>env i cb' c'. clock env = now s \<and> do_step env i (brk s) c = Some (cb', c')"
proof (rule call_progress [OF _ assms(3)])
  show "reach (brk s) c" using run_inv [OF assms(1)] assms(2) by (simp add: sys_inv_def)
  show "c_pc c \<noteq> Done res" for res using assms(4) by simp
  show "0 < ch_len ch" if "c_slot c" "sem (brk s) = Some ch" for ch
  proof -
    have "filter c_slot (calls s) \<noteq> []" using assms(2) that(1) by (auto simp: filter_empty_conv)
    then show ?thesis
      using run_inv [OF assms(1)] that(2) by (simp add: sys_inv_def sem_ok_def slots_filter)
  qed
qed

theorem cancelled_call_proceeds_witness:
  "\<exists>s c env i cb' c'. sys_run 16 s \<and> c \<in> set (calls s) \<and> ctx_err (c_ctx c) \<noteq> None \<and> c_pc c = AtLoop 0 \<and>
     do_step env i (brk s) c = Some (cb', c')"
proof -
  obtain s c d where s: "sys_run 15 s" "calls s = [c, d]" "c_pc d = AtLoop 0"
    by (rule small_final) blast
  let ?s = "with_call 1 (\<lambda>c. c\<lparr>c_ctx := ctx_finish CtxCanceled (c_ctx c)\<rparr>) s"
  let ?d = "d\<lparr>c_ctx := ctx_finish CtxCanceled (c_ctx d)\<rparr>"
  have "sys_step s ?s" by (rule sys_step.cancelled) (simp add: s(2))
  from sys_run.step [OF s(1) this] have run: "sys_run 16 ?s" by simp
  have mem: "?d \<in> set (calls ?s)" by (simp add: with_call_def s(2))
  obtain e where e: "ctx_err (c_ctx ?d) = Some e" by (cases "ctx_err (c_ctx d)") (simp_all add: ctx_finish_err)
  have "\<forall>res. c_pc ?d \<noteq> Done res" by (simp add: s(3))
  from cancelled_call_proceeds [OF run mem e this]
  obtain env i cb' c' where step: "do_step env i (brk ?s) ?d = Some (cb', c')" by blast
  have err: "ctx_err (c_ctx ?d) \<noteq> None" using e by (simp only: option.distinct not_False_eq_True)
  have pc: "c_pc ?d = AtLoop 0" by (simp add: s(3))
  show ?thesis
    using run mem err pc step by (intro exI conjI)
qed

end
