(* ===== verification/System_Laws.thy ===== *)
theory System_Laws
  imports System
begin

text \<open>
  What the system guarantees over time: an open circuit and a closed gate hold off every call that
  has not passed them, \<open>Stop\<close> ends the refiller for good, and every field keeps the range of its Go
  type.
\<close>

section \<open>Steps of the system\<close>

text \<open>What one step can do to a call, and when.\<close>

lemma sys_step_now: "sys_step s s' \<Longrightarrow> now s \<le> now s'"
  by (elim sys_stepE) (simp_all add: with_call_def)

lemma sys_steps_now: "sys_step\<^sup>*\<^sup>* s s' \<Longrightarrow> now s \<le> now s'"
proof (induction rule: rtranclp_induct)
  case (step s1 s2)
  then show ?case using sys_step_now [of s1 s2] by simp
qed simp

inductive call_move :: "system \<Rightarrow> call \<Rightarrow> call \<Rightarrow> circuitBreaker \<Rightarrow> bool" where
  same: "call_move s c c (brk s)"
| own: "clock env = now s \<Longrightarrow> do_step env inp (brk s) c = Some (cb, c') \<Longrightarrow> call_move s c c' cb"
| ended: "call_move s c (c\<lparr>c_ctx := ctx_finish e (c_ctx c)\<rparr>) (brk s)"

text \<open>The calls of the next state: those of this one, each moved by at most one step, and new ones.\<close>

lemma sys_step_calls:
  assumes "sys_step s s'"
  shows "length (calls s) \<le> length (calls s')"
    and "i < length (calls s) \<Longrightarrow> \<exists>cb. call_move s (calls s ! i) (calls s' ! i) cb"
    and "length (calls s) \<le> i \<Longrightarrow> i < length (calls s') \<Longrightarrow>
      \<exists>env rq cl. Do_enter env (brk s) rq cl = Inr (calls s' ! i)"
  using assms
  by (elim sys_stepE;
      auto simp: with_call_def nth_append nth_list_update less_Suc_eq intro: call_move.intros)+

section \<open>An open circuit\<close>

definition circuit_error :: do_result where
  "circuit_error = Returned None (Some ErrCircuitOpen)"

definition shut_out :: "call \<Rightarrow> bool" where
  "shut_out c \<longleftrightarrow> c_log c = [] \<and> \<not> c_slot c \<and> c_ticket c = None \<and>
     c_pc c \<in> {AtAllow, AtRelease circuit_error, AtReport circuit_error, AtCancel circuit_error, Done circuit_error}"

text \<open>The circuit is open with the machine \<open>b\<close>, and stays so until the given instant.\<close>

definition open_until :: "gotime \<Rightarrow> breakerState \<Rightarrow> circuitBreaker \<Rightarrow> bool" where
  "open_until t b cb \<longleftrightarrow> state cb = Some b \<and> bs_inv b \<and> cur b = StateOpen \<and> t < openedAt b + openFor b"

lemma open_allow: "open_until t b cb \<Longrightarrow> allow t b = (Inl ErrCircuitOpen, b)"
  by (simp add: open_until_def allow_def time_sub_less_iff bs_inv_def)

lemma open_report: "cur b = StateOpen \<Longrightarrow> settle_report t k out b = b"
  by (simp add: settle_report_def report_def)

lemma open_stays:
  assumes "open_until (clock env) b cb" and "do_step env inp cb c = Some (cb', c')"
  shows "state cb' = Some b"
proof (cases "c_pc c = AtAllow")
  case True
  then have "inp = Run" using assms(2) by (cases inp) (simp_all add: do_step_def)
  with True show ?thesis
    using assms open_allow [OF assms(1)] by (auto simp: do_step_def step_allow_def open_until_def)
next
  case False
  from do_step_exchange [OF assms(2)] show ?thesis
    using assms(1) False by cases (auto simp: quiet_def open_until_def open_report)
qed

lemma shut_out_stays:
  assumes "open_until (clock env) b cb" and "do_step env inp cb c = Some (cb', c')" and "shut_out c"
  shows "shut_out c'"
  using assms open_allow [OF assms(1)]
  by (cases inp)
    (auto simp: shut_out_def circuit_error_def do_step_def step_allow_def step_release_def step_report_def step_cancel_def
      call_fun_defs open_until_def split: if_splits)

lemma shut_out_move:
  assumes "call_move s c c' cb" and "shut_out c" and "open_until (now s) b (brk s)"
  shows "shut_out c'"
  using assms(1)
proof cases
  case (own env inp)
  with assms(2,3) shut_out_stays [of env b "brk s" inp c cb c'] show ?thesis by simp
qed (use assms(2) in \<open>simp_all add: shut_out_def\<close>)

definition all_shut_out :: "system \<Rightarrow> system \<Rightarrow> bool" where
  "all_shut_out s s' \<longleftrightarrow> length (calls s) \<le> length (calls s') \<and>
     (\<forall>i < length (calls s'). (i < length (calls s) \<longrightarrow> c_pc (calls s ! i) = AtAllow) \<longrightarrow> shut_out (calls s' ! i))"

lemma all_shut_out_step:
  assumes "all_shut_out s s1" and "sys_step s1 s2" and "open_until (now s1) b (brk s1)"
  shows "all_shut_out s s2"
  unfolding all_shut_out_def
proof (intro conjI allI impI)
  show "length (calls s) \<le> length (calls s2)"
    using assms(1) sys_step_calls(1) [OF assms(2)] by (simp add: all_shut_out_def)
next
  fix i assume i: "i < length (calls s2)" "i < length (calls s) \<longrightarrow> c_pc (calls s ! i) = AtAllow"
  show "shut_out (calls s2 ! i)"
  proof (cases "i < length (calls s1)")
    case True
    then have "shut_out (calls s1 ! i)" using assms(1) i by (simp add: all_shut_out_def)
    with sys_step_calls(2) [OF assms(2) True] show ?thesis using shut_out_move assms(3) by blast
  next
    case False
    with sys_step_calls(3) [OF assms(2), of i] i(1) show ?thesis
      by (auto dest: Do_enter_start simp: shut_out_def)
  qed
qed

lemma open_step:
  assumes "sys_step s s'" and "open_until (now s) b (brk s)"
  shows "state (brk s') = Some b"
  using assms(1)
proof cases
  case (call_step i env inp cb c)
  with assms(2) open_stays [of env b "brk s" inp _ cb c] show ?thesis by simp
next
  case (refilled n cb)
  with assms(2) refill_one_same(2) [OF refilled(2)] show ?thesis by (simp add: open_until_def)
qed (use assms(2) in \<open>simp_all add: open_until_def with_call_def\<close>)

lemma open_steps:
  assumes "sys_step\<^sup>*\<^sup>* s s'" and "open_until (now s') b (brk s)" and "sys_inv s"
  shows "state (brk s') = Some b \<and> all_shut_out s s'"
  using assms(1,2)
proof (induction rule: rtranclp_induct)
  case base
  have "shut_out c" if "c \<in> set (calls s)" "c_pc c = AtAllow" for c
    using assms(3) that attempts.holds [of "brk s" c] resources.holds [of "brk s" c]
    by (auto simp: sys_inv_def shut_out_def attempts_law_def resource_law_def)
  with base show ?case by (auto simp: open_until_def all_shut_out_def)
next
  case (step s1 s2)
  have "now s1 \<le> now s2" by (rule sys_step_now [OF step(2)])
  with step(3,4) have "state (brk s1) = Some b" "all_shut_out s s1" "open_until (now s1) b (brk s1)"
    by (auto simp: open_until_def)
  with step(2) show ?case using open_step all_shut_out_step by blast
qed

text \<open>C9: An open circuit shuts out every call that has not passed it, in any interleaving: from a
  reachable state whose circuit is open, as long as less than \<open>openFor\<close> has gone by since it
  opened, the machine stays as it is whatever the calls in flight report, and every call that was
  still to be admitted or entered since has sent nothing, recorded nothing, taken no slot and no
  token, and can only end with \<open>ErrCircuitOpen\<close>.\<close>

theorem open_circuit_holds:
  assumes "sys_run k s" and "k \<le> max_generation" and "sys_step\<^sup>*\<^sup>* s s'" and "state (brk s) = Some b"
    and "cur b = StateOpen" and "now s' < openedAt b + openFor b"
  shows "state (brk s') = Some b \<and>
    (\<forall>i < length (calls s'). (i < length (calls s) \<longrightarrow> c_pc (calls s ! i) = AtAllow) \<longrightarrow>
       c_log (calls s' ! i) = [] \<and> \<not> c_slot (calls s' ! i) \<and>
       (\<forall>res. c_pc (calls s' ! i) = Done res \<longrightarrow> res = Returned None (Some ErrCircuitOpen)))"
proof -
  have "open_until (now s') b (brk s)"
    using run_machine [OF assms(1,2)] assms(4-6) by (simp add: open_until_def machine_ok_def)
  from open_steps [OF assms(3) this run_inv [OF assms(1)]] show ?thesis
    by (auto simp: all_shut_out_def shut_out_def circuit_error_def)
qed

lemma small_rejected:
  "\<exists>s s' b. make_moves (take 11 small_history) small_start = Some s \<and> state (brk s) = Some b \<and> cur b = StateOpen \<and>
     openedAt b = 1000 \<and> openFor b = 10 \<and> length (calls s) = 1 \<and>
     make_moves (Advance 1005 # Enter (Some sample_request) None # replicate 4 (Step 1 (env_at 1005) Run)) s = Some s' \<and>
     now s' = 1005 \<and> length (calls s') = 2 \<and> c_pc (calls s' ! 1) = Done (Returned None (Some ErrCircuitOpen))"
  by (simp add: small_history_def small_start_def sample_env_def env_at_def sample_request_def Do_enter_def numeral_eq_Suc
      http_DefaultClient_def background_def step_defs allow_def newBreakerState_def try_send_def try_recv_def Let_def
      time_sub_def sat64_def report_def call_outcome_def classifyOutcome_def errors_Is_def errors_As_def marked_concurrent)

theorem open_circuit_holds_witness:
  "\<exists>s s' b. sys_step\<^sup>*\<^sup>* s s' \<and> cur b = StateOpen \<and> state (brk s') = Some b \<and> length (calls s') = 2 \<and>
     c_pc (calls s' ! 1) = Done (Returned None (Some ErrCircuitOpen)) \<and> c_log (calls s' ! 1) = []"
proof -
  obtain s s' b where s: "make_moves (take 11 small_history) small_start = Some s" "state (brk s) = Some b" "cur b = StateOpen"
    "openedAt b = 1000" "openFor b = 10" "length (calls s) = 1" "now s' = 1005" "length (calls s') = 2"
    "c_pc (calls s' ! 1) = Done (Returned None (Some ErrCircuitOpen))"
    and "make_moves (Advance 1005 # Enter (Some sample_request) None # replicate 4 (Step 1 (env_at 1005) Run)) s = Some s'"
    using small_rejected by (elim exE conjE) (rule that)
  then have steps: "sys_step\<^sup>*\<^sup>* s s'" by (intro make_moves_steps)
  have "length (take 11 small_history) = 11" by (simp add: small_history_def)
  then have run: "sys_run 11 s" using make_moves_run [OF s(1) small_run] by simp
  have "state (brk s') = Some b \<and> c_log (calls s' ! 1) = []"
    using open_circuit_holds [OF run _ steps s(2,3)] s(4-8) by simp
  with s steps show ?thesis by (intro exI [of _ s] exI [of _ s'] exI [of _ b] conjI) simp_all
qed

section \<open>What no call changes\<close>

text \<open>
  No step of a call touches the refiller or the settings of the bucket, and the gate only moves into
  the future.
\<close>

definition steady :: "circuitBreaker \<times> call \<Rightarrow> circuitBreaker \<times> call \<Rightarrow> bool" where
  "steady s s' \<longleftrightarrow>
     retryAfterUntil (fst s) \<le> retryAfterUntil (fst s') \<and>
     (int64 (retryAfterUntil (fst s)) \<longrightarrow> int64 (retryAfterUntil (fst s'))) \<and>
     tokenStop (fst s') = tokenStop (fst s) \<and> refilling (fst s') = refilling (fst s) \<and>
     stopOnce (fst s') = stopOnce (fst s) \<and> maxRequests (fst s') = maxRequests (fst s) \<and>
     windowSeconds (fst s') = windowSeconds (fst s) \<and> burst (fst s') = burst (fst s) \<and> Name (fst s') = Name (fst s)"

lemma steady_simps [simp]:
  "steady s (cb, goto p c) = steady s (cb, c)" "steady s (cb, return_with r x c) = steady s (cb, c)"
  "steady s (cb, panic_with m c) = steady s (cb, c)" "steady s (cb, log_event e c) = steady s (cb, c)"
  "steady s (cb, c\<lparr>c_lastErr := l\<rparr>) = steady s (cb, c)" "steady s (cb, c\<lparr>c_ctx := y\<rparr>) = steady s (cb, c)"
  "steady s (cb, c\<lparr>c_ticket := k\<rparr>) = steady s (cb, c)" "steady s (cb, c\<lparr>c_slot := b\<rparr>) = steady s (cb, c)"
  "steady s (cb\<lparr>metrics := mm\<rparr>, c) = steady s (cb, c)" "steady s (cb\<lparr>state := st\<rparr>, c) = steady s (cb, c)"
  "steady s (cb\<lparr>sem := q\<rparr>, c) = steady s (cb, c)" "steady s (cb\<lparr>tokens := q\<rparr>, c) = steady s (cb, c)"
  "steady (cb, c) (cb, c')"
  by (simp_all add: steady_def)

lemma steady_extend: "steady s (cb, c) \<Longrightarrow> steady s (extendRetryAfterGate until cb, c)"
  by (auto simp: steady_def extendRetryAfterGate_def Let_def unix_nano_def)

lemma recorded_steady:
  assumes "steady s (cb, c)" and "\<And>cb' c'. steady s (cb', c') \<Longrightarrow> steady s (f (cb', c'))"
  shows "steady s (recorded k st env f (cb, c))"
  using assms by (auto simp: recorded_def split: option.splits)

lemma wait_failed_steady: "steady (cb, c) (wait_failed env st e cb c)"
  unfolding wait_failed_def by (auto intro!: recorded_steady)

lemma token_pass_steady:
  "waitForToken ctx cb = Pass cb' \<Longrightarrow> steady (cb, c) (cb', c)"
  "waitForToken_select arm ctx cb = Pass cb' \<Longrightarrow> steady (cb, c) (cb', c)"
  by (auto simp: waitForToken_def waitForToken_select_def split: option.splits select_arm.splits if_splits)

lemma token_outcome_steady:
  assumes "token_outcome env a st w c cb = Some r" and "\<And>cb'. w = Pass cb' \<Longrightarrow> steady (cb, c) (cb', c)"
  shows "steady (cb, c) r"
  using assms wait_failed_steady [of cb c env st] by (cases w) (auto simp: token_outcome_def)

lemma step_steady:
  "steady (cb, c) (step_token env a st cb c)"
  "gate_outcome env a st g cb c = Some r \<Longrightarrow> steady (cb, c) r"
  "steady (cb, c) (step_send env a st cb c)" "steady (cb, c) (step_rewind env a st rw cb c)"
  "steady (cb, c) (step_transport env a st rp cb c)" "steady (cb, c) (step_retry_after env a st resp cb c)"
proof -
  show "steady (cb, c) (step_token env a st cb c)"
    unfolding step_token_def
    by (auto split: option.splits dest!: token_outcome_steady dest: token_pass_steady(1))
  show "gate_outcome env a st g cb c = Some r \<Longrightarrow> steady (cb, c) r"
    using wait_failed_steady [of cb c env st] by (cases g) (auto simp: gate_outcome_def)
  show "steady (cb, c) (step_send env a st cb c)"
    unfolding step_send_def by (auto intro!: recorded_steady split: if_splits)
  show "steady (cb, c) (step_rewind env a st rw cb c)"
    unfolding step_rewind_def by (cases rw) (auto intro!: recorded_steady)
  show "steady (cb, c) (step_transport env a st rp cb c)"
    unfolding step_transport_def transport_answered_def transport_failed_def Let_def
    by (cases rp) (auto intro!: recorded_steady split: policy_verdict.splits if_splits)
  show "steady (cb, c) (step_retry_after env a st resp cb c)"
    unfolding step_retry_after_def Let_def
    by (auto intro!: recorded_steady steady_extend split: option.splits if_splits)
qed

lemma do_step_steady:
  assumes "do_step env inp cb c = Some r"
  shows "steady (cb, c) r"
proof -
  have select: "steady (cb, c) q" if "token_outcome env a st (waitForToken_select arm (c_ctx c) cb) c cb = Some q" for a st arm q
    using that by (rule token_outcome_steady) (rule token_pass_steady(2))
  show ?thesis
    using assms step_steady [where cb = cb and c = c] select
    by (cases "c_pc c"; cases inp)
      (auto simp: do_step_def step_allow_def step_sem_def step_loop_def retries_exhausted_def step_pause_def step_release_def
        step_report_def split: option.splits sum.splits prod.splits select_arm.splits if_splits)
qed

section \<open>A closed gate\<close>

text \<open>
  A call that has passed the gate of its attempt may still send once; any other call sends nothing
  before it has passed.
\<close>

fun past_gate :: "pc \<Rightarrow> int" where
  "past_gate (AtToken _ _) = 1"
| "past_gate (AtTokenWait _ _) = 1"
| "past_gate (AtSend _ _) = 1"
| "past_gate (AtRewind _ _) = 1"
| "past_gate _ = 0"

definition may_send :: "call \<Rightarrow> int" where
  "may_send c = n_sent c + past_gate (c_pc c)"

lemma waits_past: "waits_at p = Some (a, s) \<Longrightarrow> past_gate p = (if 2 \<le> wait_stage p then 1 else 0)"
  by (cases p) auto

lemma control_may_send:
  assumes "control cb c c'"
  shows "may_send c' \<le> may_send c \<or>
    (\<exists>a s. waits_at (c_pc c) = Some (a, s) \<and> wait_stage (c_pc c) < 2 \<and> waits_at (c_pc c') = Some (a, s) \<and> 2 \<le> wait_stage (c_pc c'))"
  using assms
proof cases
  case (waiting a s p)
  then show ?thesis using waits_past [of p] waits_past [of "c_pc c"] by (auto simp: may_send_def)
next
  case (passed a s)
  then show ?thesis using waits_past [of "c_pc c"] by (auto simp: may_send_def)
next
  case (wait_failed a s e es)
  then show ?thesis using waits_past [of "c_pc c"] by (auto simp: may_send_def)
next
  case (finished res)
  obtain res' where "c_pc (step_cancel res c) = Done res'" "c_log (step_cancel res c) = c_log c"
    using step_cancel_done by blast
  with finished show ?thesis by (simp add: may_send_def n_sent_def)
qed (auto simp: may_send_def)

definition gate_shut :: "gotime \<Rightarrow> circuitBreaker \<Rightarrow> bool" where
  "gate_shut t cb \<longleftrightarrow> 0 < retryAfterMax cb \<and> t < retryAfterUntil cb"

lemma gate_shut_sleep: "gate_shut t cb \<Longrightarrow> \<exists>d. waitRetryAfterGate t cb = GateSleep d"
  by (simp add: gate_shut_def waitRetryAfterGate_def Let_def time_unix_0_def)

lemma shut_gate_outcome:
  assumes "gate_outcome env a s g cb c = Some (cb', c')" and "g \<noteq> GateOpen"
  shows "past_gate (c_pc c') = 0"
proof (cases g)
  case (GateFail e)
  with assms(1) have "c' = snd (wait_failed env s e cb c)" by (simp add: gate_outcome_def)
  with wait_failed_leaves [of env s e cb c] show ?thesis by auto
qed (use assms in \<open>auto simp: gate_outcome_def\<close>)

lemma shut_no_pass:
  assumes "gate_shut (clock env) cb" and "do_step env inp cb c = Some (cb', c')" and "waits_at (c_pc c) = Some (a, s)"
    and "wait_stage (c_pc c) < 2"
  shows "past_gate (c_pc c') = 0"
proof -
  obtain d where d: "waitRetryAfterGate (clock env) cb = GateSleep d" using gate_shut_sleep [OF assms(1)] by blast
  from assms(2) show ?thesis
  proof (cases rule: do_step_cases)
    case (gate b t)
    from gate(3) show ?thesis by (rule shut_gate_outcome) (simp add: d)
  next
    case (gate_sleep b t wake arm)
    from gate_sleep(3) show ?thesis
      by (rule shut_gate_outcome)
        (auto simp: waitRetryAfterGate_select_def d split: select_arm.splits option.splits)
  qed (use assms(3,4) in simp_all)
qed

text \<open>What the steps in between leave of the allowance of a call.\<close>

lemma call_move_may_send:
  assumes "call_move s c c' cb" and "gate_shut (now s) (brk s)" and "reach (brk s) c"
  shows "may_send c' \<le> may_send c"
  using assms(1)
proof cases
  case (own env inp)
  have "control (brk s) c c'" using do_step_control [OF own(2) reach_books [OF assms(3)]] by blast
  from control_may_send [OF this] show ?thesis
  proof
    assume "\<exists>a t. waits_at (c_pc c) = Some (a, t) \<and> wait_stage (c_pc c) < 2 \<and> waits_at (c_pc c') = Some (a, t) \<and>
      2 \<le> wait_stage (c_pc c')"
    then obtain a t where w: "waits_at (c_pc c) = Some (a, t)" "wait_stage (c_pc c) < 2" "waits_at (c_pc c') = Some (a, t)"
      "2 \<le> wait_stage (c_pc c')" by blast
    have "past_gate (c_pc c') = 0" using shut_no_pass [OF _ own(2) w(1,2)] own(1) assms(2) by simp
    with waits_past [OF w(3)] w(4) show ?thesis by simp
  qed
qed (simp_all add: may_send_def)

lemma sys_step_gate:
  assumes "sys_step s s'" and "sys_inv s"
  shows "retryAfterUntil (brk s) \<le> retryAfterUntil (brk s') \<and> retryAfterMax (brk s') = retryAfterMax (brk s)"
  using assms(1)
proof cases
  case (call_step i env inp cb c)
  have "reach (brk s) (calls s ! i)" using assms(2) call_step(2) by (simp add: sys_inv_def)
  from do_step_control [OF call_step(4) reach_books [OF this]] do_step_steady [OF call_step(4)] call_step(1) show ?thesis
    by (simp add: keeps_def same_config_def steady_def)
next
  case (refilled n cb)
  with refill_one_same [OF refilled(2)] show ?thesis by simp
qed (auto simp: with_call_def Stop_def refiller_exit_def split: option.splits)

definition held_off :: "system \<Rightarrow> system \<Rightarrow> bool" where
  "held_off s s' \<longleftrightarrow> length (calls s) \<le> length (calls s') \<and>
     (\<forall>i < length (calls s'). may_send (calls s' ! i) \<le> (if i < length (calls s) then may_send (calls s ! i) else 0))"

lemma held_off_step:
  assumes "held_off s s1" and "sys_step s1 s2" and "gate_shut (now s1) (brk s1)" and "sys_inv s1"
  shows "held_off s s2"
  unfolding held_off_def
proof (intro conjI allI impI)
  show "length (calls s) \<le> length (calls s2)"
    using assms(1) sys_step_calls(1) [OF assms(2)] by (simp add: held_off_def)
next
  fix i assume i: "i < length (calls s2)"
  show "may_send (calls s2 ! i) \<le> (if i < length (calls s) then may_send (calls s ! i) else 0)"
  proof (cases "i < length (calls s1)")
    case True
    obtain cb where "call_move s1 (calls s1 ! i) (calls s2 ! i) cb"
      using sys_step_calls(2) [OF assms(2) True] by blast
    moreover have "reach (brk s1) (calls s1 ! i)" using assms(4) True by (simp add: sys_inv_def)
    ultimately have "may_send (calls s2 ! i) \<le> may_send (calls s1 ! i)"
      using call_move_may_send assms(3) by blast
    with assms(1) True show ?thesis by (force simp: held_off_def)
  next
    case False
    then obtain env rq cl where "Do_enter env (brk s1) rq cl = Inr (calls s2 ! i)"
      using sys_step_calls(3) [OF assms(2), of i] i by auto
    from Do_enter_start [OF this] have "may_send (calls s2 ! i) = 0" by (simp add: may_send_def n_sent_def)
    with False assms(1) show ?thesis by (simp add: held_off_def)
  qed
qed

lemma held_off_steps:
  assumes "sys_step\<^sup>*\<^sup>* s s'" and "sys_inv s" and "gate_shut (now s') (brk s)"
  shows "held_off s s' \<and> sys_inv s' \<and> retryAfterUntil (brk s) \<le> retryAfterUntil (brk s') \<and>
    retryAfterMax (brk s') = retryAfterMax (brk s)"
  using assms(1,3)
proof (induction rule: rtranclp_induct)
  case base
  then show ?case using assms(2) by (auto simp: held_off_def)
next
  case (step s1 s2)
  have "now s1 \<le> now s2" by (rule sys_step_now [OF step(2)])
  with step(3,4) have h: "held_off s s1" "sys_inv s1" "gate_shut (now s1) (brk s1)"
    "retryAfterUntil (brk s) \<le> retryAfterUntil (brk s1)" "retryAfterMax (brk s1) = retryAfterMax (brk s)"
    by (auto simp: gate_shut_def)
  with sys_step_gate [OF step(2) h(2)] held_off_step [OF h(1) step(2) h(3,2)] sys_inv_step [OF h(2) step(2)]
  show ?case by auto
qed

lemma n_sent_nonneg: "0 \<le> n_sent c"
  by (simp add: n_sent_def)

text \<open>C10: A closed gate holds off the whole breaker, in any interleaving: from a reachable state whose
  gate is set to an instant in the future, no call, new or retried, sends a request before that
  instant, except that each call which had passed the gate before it was set may send the one
  request of its current attempt.\<close>

theorem closed_gate_holds:
  assumes "sys_run k s" and "sys_step\<^sup>*\<^sup>* s s'" and "0 < retryAfterMax (brk s)" and "now s' < retryAfterUntil (brk s)"
    and "i < length (calls s')"
  shows "n_sent (calls s' ! i) \<le> (if i < length (calls s) then n_sent (calls s ! i) + past_gate (c_pc (calls s ! i)) else 0)"
proof -
  have "held_off s s'"
    using held_off_steps [OF assms(2) run_inv [OF assms(1)]] assms(3,4) by (simp add: gate_shut_def)
  then have "may_send (calls s' ! i) \<le> (if i < length (calls s) then may_send (calls s ! i) else 0)"
    using assms(5) by (simp add: held_off_def)
  moreover have "0 \<le> past_gate (c_pc (calls s' ! i))" by (cases "c_pc (calls s' ! i)") simp_all
  ultimately show ?thesis by (auto simp: may_send_def split: if_splits)
qed

definition gated_start :: system where
  "gated_start = new_system (NewCircuitBreakerWithOptions ''b'' 0 0 0 0 [Some (WithRetryAfter (10 * second))]) 1000"

lemma gated_run: "sys_run 0 gated_start"
  unfolding gated_start_def by (rule sys_run.start) (auto intro: package_option.intros)

lemma gated_fields:
  "MaxRetries (brk gated_start) = 0" "retryAfterMax (brk gated_start) = 10 * second" "retryAfterUntil (brk gated_start) = 0"
  "sem (brk gated_start) = None" "state (brk gated_start) = None" "defaultTimeout (brk gated_start) = 0"
  "statusFailMin (brk gated_start) = 0" "tokens (brk gated_start) = None" "calls gated_start = []" "now gated_start = 1000"
  "n_ticks gated_start = 0" "metrics_ok (metrics (brk gated_start))"
  by (simp_all add: gated_start_def NewCircuitBreakerWithOptions_def newCircuitBreaker_def frame_simps WithRetryAfter_def
      initTokenBucket_off metrics_ok_empty)

definition too_many :: response where
  "too_many = \<lparr>StatusCode = 429, Header_RetryAfter = ''5'', Body = None\<rparr>"

lemma five_seconds: "parseRetryAfter z ''5'' t = Some (5 * second)"
proof -
  have "dec_text 5 = ''5''" by (simp add: dec_text.simps char_of_def bit_simps)
  with retry_after_seconds_read [of 5 z t] show ?thesis by simp
qed

lemma marked_gate [simp]: "retryAfterUntil (marked k t env cb c) = retryAfterUntil cb"
  by (simp add: marked_def)

lemma gated_call:
  "\<exists>s s'. make_moves (Enter (Some sample_request) None # replicate 6 (Step 0 (env_at 1000) Run) @
        [Step 0 (env_at 1000) (Reply (Answer too_many)), Step 0 (env_at 1000) Run]) gated_start = Some s \<and>
     retryAfterMax (brk s) = 10 * second \<and> retryAfterUntil (brk s) = 5000001000 \<and> length (calls s) = 1 \<and>
     make_moves (Advance 2000 # Enter (Some sample_request) None # replicate 4 (Step 1 (env_at 2000) Run)) s = Some s' \<and>
     now s' = 2000 \<and> length (calls s') = 2 \<and> c_pc (calls s' ! 1) = AtGateSleep 0 2000 5000001000"
  by (simp add: gated_fields five_seconds too_many_def sample_env_def env_at_def sample_request_def Do_enter_def numeral_eq_Suc
      http_DefaultClient_def background_def step_defs Let_def retryAfterStatus_def step_retry_after_def
      extendRetryAfterGate_def time_add_def int64_def time_unix_0_def time_until_def time_sub_def sat64_def)

theorem closed_gate_holds_witness:
  "\<exists>s s'. sys_step\<^sup>*\<^sup>* s s' \<and> now s' < retryAfterUntil (brk s) \<and> length (calls s') = 2 \<and>
     c_pc (calls s' ! 1) = AtGateSleep 0 2000 5000001000 \<and> n_sent (calls s' ! 1) \<le> 0"
proof -
  obtain s s' where s: "retryAfterMax (brk s) = 10 * second" "retryAfterUntil (brk s) = 5000001000" "length (calls s) = 1"
    "now s' = 2000" "length (calls s') = 2" "c_pc (calls s' ! 1) = AtGateSleep 0 2000 5000001000"
    and m: "make_moves (Enter (Some sample_request) None # replicate 6 (Step 0 (env_at 1000) Run) @
        [Step 0 (env_at 1000) (Reply (Answer too_many)), Step 0 (env_at 1000) Run]) gated_start = Some s"
      "make_moves (Advance 2000 # Enter (Some sample_request) None # replicate 4 (Step 1 (env_at 2000) Run)) s = Some s'"
    using gated_call by (elim exE conjE) (rule that)
  have steps: "sys_step\<^sup>*\<^sup>* s s'" by (rule make_moves_steps [OF m(2)])
  have "n_sent (calls s' ! 1) \<le> 0"
    using closed_gate_holds [OF make_moves_run [OF m(1) gated_run] steps, of 1] s by simp
  with s steps show ?thesis by (intro exI [of _ s] exI [of _ s'] conjI) simp_all
qed

section \<open>Stopping the refiller\<close>

lemmas option_defs = WithBreaker_def WithStatusCodeFailure_def WithRetryPolicy_def WithExponentialBackoff_def WithBurst_def
  WithRetryAfter_def WithDefaultTimeout_def

lemma call_step_steady:
  "do_step env inp (brk s) c = Some (cb, c') \<Longrightarrow>
     tokenStop cb = tokenStop (brk s) \<and> refilling cb = refilling (brk s) \<and> stopOnce cb = stopOnce (brk s)"
  using do_step_steady by (fastforce simp: steady_def)

text \<open>The refiller leaves between two ticks only, and once it is gone it stays gone.\<close>

definition refiller_gone :: "system \<Rightarrow> bool" where
  "refiller_gone s \<longleftrightarrow> \<not> refilling (brk s) \<and> refill_left s = 0"

lemma stopped_step:
  assumes "sys_step s s'" and "refiller_gone s"
  shows "refiller_gone s' \<and> n_ticks s' = n_ticks s"
  using assms(1)
proof cases
  case (call_step i env inp cb c)
  with assms(2) call_step_steady [of env inp s _ cb c] show ?thesis by (simp add: refiller_gone_def)
next
  case (refilled n cb)
  with assms(2) show ?thesis by (simp add: refiller_gone_def refill_one_def)
qed (use assms(2) in \<open>auto simp: refiller_gone_def with_call_def Stop_def refiller_exit_def split: option.splits\<close>)

lemma stopped_steps: "sys_step\<^sup>*\<^sup>* s s' \<Longrightarrow> refiller_gone s \<Longrightarrow> refiller_gone s' \<and> n_ticks s' = n_ticks s"
  by (induction rule: rtranclp_induct) (use stopped_step in auto)

lemma refills_need_refiller:
  assumes "sys_step s s'" and "0 < refill_left s \<Longrightarrow> refilling (brk s)" and "0 < refill_left s'"
  shows "refilling (brk s')"
  using assms(1)
proof cases
  case (call_step i env inp cb c)
  with assms(2,3) call_step_steady [of env inp s _ cb c] show ?thesis by simp
next
  case (refilled n cb)
  with assms(2) refill_one_same(10) [OF refilled(2)] show ?thesis by (simp add: refill_one_def split: nat.splits)
qed (use assms(2,3) in \<open>auto simp: with_call_def Stop_def split: option.splits\<close>)

lemma run_refiller: "sys_run k s \<Longrightarrow> 0 < refill_left s \<Longrightarrow> refilling (brk s)"
proof (induction rule: sys_run.induct)
  case (step k s s')
  show ?case by (rule refills_need_refiller [OF step(2) step(3) step(4)])
qed simp

lemma gone_iff: "sys_run k s \<Longrightarrow> refiller_gone s \<longleftrightarrow> \<not> refilling (brk s)"
  using run_refiller [of k s] by (auto simp: refiller_gone_def)

text \<open>With the stop channel closed it can finish its tick and leave.\<close>

lemma refiller_leaves:
  assumes "tokenStop (brk s) = Some True" and "tokens (brk s) \<noteq> None"
  shows "\<exists>s1. inner_step\<^sup>*\<^sup>* s s1 \<and> refiller_gone s1 \<and> now s1 = now s \<and> calls s1 = calls s"
proof -
  obtain ch where ch: "tokens (brk s) = Some ch" using assms(2) by blast
  let ?s = "s\<lparr>brk := (brk s)\<lparr>tokens := Some (refill (refill_left s) ch)\<rparr>, refill_left := 0\<rparr>"
  have "s\<lparr>refill_left := refill_left s\<rparr> = s" by simp
  then have "inner_step\<^sup>*\<^sup>* s ?s" using refills_all [OF ch, of "refill_left s"] by simp
  moreover have "inner_step ?s (?s\<lparr>brk := refiller_exit (brk ?s)\<rparr>)" by (rule inner_step.exits) simp
  ultimately have steps: "inner_step\<^sup>*\<^sup>* s (?s\<lparr>brk := refiller_exit (brk ?s)\<rparr>)" by (rule rtranclp.rtrancl_into_rtrancl)
  have "refiller_gone (?s\<lparr>brk := refiller_exit (brk ?s)\<rparr>)"
    using assms(1) by (simp add: refiller_gone_def refiller_exit_def)
  then show ?thesis by (intro exI [of _ "?s\<lparr>brk := refiller_exit (brk ?s)\<rparr>"] conjI steps) simp_all
qed

text \<open>A breaker with a stop channel has a bucket.\<close>

definition unstarted :: "circuitBreaker \<Rightarrow> bool" where
  "unstarted cb \<longleftrightarrow> \<not> stopOnce cb \<and> \<not> refilling cb \<and> tokenStop cb = None"

lemma unstarted_option: "package_option f \<Longrightarrow> unstarted cb \<Longrightarrow> unstarted (f cb)"
  by (induction rule: package_option.induct) (simp_all add: unstarted_def option_defs Let_def)

lemma unstarted_options:
  "\<forall>opt \<in> set opts. opt = None \<or> (\<exists>f. opt = Some f \<and> package_option f) \<Longrightarrow> unstarted cb \<Longrightarrow> unstarted (apply_options opts cb)"
proof (induction opts cb rule: apply_options.induct)
  case (2 opt opts cb)
  then show ?case using unstarted_option by (cases opt) auto
qed simp

lemma unstarted_new: "unstarted (newCircuitBreaker name mc mr w n)"
  by (simp add: unstarted_def newCircuitBreaker_def)

definition channel_ok :: "circuitBreaker \<Rightarrow> bool" where
  "channel_ok cb \<longleftrightarrow> (tokenStop cb \<noteq> None \<longrightarrow> tokens cb \<noteq> None) \<and> (tokenStop cb = None \<longrightarrow> \<not> refilling cb) \<and>
     (stopOnce cb \<longrightarrow> tokenStop cb \<noteq> Some False)"

lemma channel_step:
  assumes "sys_inv s" and "sys_step s s'" and "channel_ok (brk s)"
  shows "channel_ok (brk s')"
proof -
  note same = sys_step_tokens [OF assms(1,2)]
  from assms(2) show ?thesis
  proof cases
    case (call_step i env inp cb c)
    with assms(3) same call_step_steady [of env inp s _ cb c] show ?thesis by (simp add: channel_ok_def)
  next
    case (refilled n cb)
    with assms(3) same refill_one_same(10-12) [OF refilled(2)] show ?thesis by (simp add: channel_ok_def)
  qed (use assms(3) in \<open>auto simp: channel_ok_def with_call_def Stop_def refiller_exit_def split: option.splits\<close>)
qed

lemma run_channel: "sys_run k s \<Longrightarrow> channel_ok (brk s)"
proof (induction rule: sys_run.induct)
  case (start opts name mc mr w n t)
  have "unstarted (apply_options opts (newCircuitBreaker name mc mr w n))"
    by (rule unstarted_options [OF start unstarted_new])
  then show ?case
    by (auto simp: unstarted_def channel_ok_def NewCircuitBreakerWithOptions_def initTokenBucket_def startTokenBucket_def Let_def)
next
  case (step k s s')
  then show ?case using channel_step run_inv by blast
qed

text \<open>C20: \<open>Stop\<close> ends the refiller for good: once the stop channel is closed, the refiller can always
  leave, which lets \<open>Stop\<close> return; and after \<open>Stop\<close> has returned there is never another tick, so all
  calls together take no more tokens than the bucket held, whatever they do.\<close>

theorem stop_ends_refill:
  assumes "sys_run k s" and "tokenStop (brk s) = Some True"
  shows "(\<exists>s1. sys_step\<^sup>*\<^sup>* s s1 \<and> calls s1 = calls s \<and> Stop_returns (brk s1)) \<and>
    (Stop_returns (brk s) \<longrightarrow> sys_step\<^sup>*\<^sup>* s s' \<longrightarrow> tokens (brk s) = Some ch \<longrightarrow>
       n_ticks s' = n_ticks s \<and> (\<Sum>c \<leftarrow> calls s'. taken c) - (\<Sum>c \<leftarrow> calls s. taken c) \<le> int (ch_len ch))"
proof (intro conjI impI)
  have "tokens (brk s) \<noteq> None" using run_channel [OF assms(1)] assms(2) by (simp add: channel_ok_def)
  from refiller_leaves [OF assms(2) this]
  show "\<exists>s1. sys_step\<^sup>*\<^sup>* s s1 \<and> calls s1 = calls s \<and> Stop_returns (brk s1)"
    using inner_steps_sys by (auto simp: Stop_returns_def refiller_gone_def)
next
  assume *: "Stop_returns (brk s)" "sys_step\<^sup>*\<^sup>* s s'" "tokens (brk s) = Some ch"
  then have gone: "refiller_gone s" using gone_iff [OF assms(1)] assms(2) by (simp add: Stop_returns_def)
  with stopped_steps [OF *(2)] show "n_ticks s' = n_ticks s" by simp
  moreover have "spends s s'" using run_spends [OF *(2) assms(1)] by blast
  ultimately show "(\<Sum>c \<leftarrow> calls s'. taken c) - (\<Sum>c \<leftarrow> calls s. taken c) \<le> int (ch_len ch)"
    using *(3) gone by (auto simp: spends_def all_taken_def refiller_gone_def)
qed

theorem stop_ends_refill_witness:
  "\<exists>s. sys_run 2 s \<and> Stop_returns (brk s) \<and> tokens (brk s) = Some \<lparr>ch_len = 2, ch_cap = 2\<rparr> \<and>
     (\<forall>s'. sys_step\<^sup>*\<^sup>* s s' \<longrightarrow> n_ticks s' = n_ticks s)"
proof -
  define s where "s = limited_start\<lparr>brk := refiller_exit (Stop (brk limited_start))\<rparr>"
  have stop: "tokenStop (brk limited_start) = Some False" "stopOnce (brk limited_start) = False"
    using initTokenBucket_on(5) [of "newCircuitBreaker ''b'' 0 2 1 0"]
    by (simp_all add: limited_start_def NewCircuitBreakerWithOptions_def newCircuitBreaker_def frame_simps)
  have "sys_run 2 s"
    unfolding numeral_2_eq_2 s_def
    using sys_run.step [OF sys_run.step [OF limited_run sys_step.stopped] sys_step.exited] by (simp add: limited_fields)
  moreover have s: "tokenStop (brk s) = Some True" "Stop_returns (brk s)" "tokens (brk s) = Some \<lparr>ch_len = 2, ch_cap = 2\<rparr>"
    using stop by (simp_all add: s_def Stop_returns_def Stop_def refiller_exit_def limited_fields)
  ultimately show ?thesis using stop_ends_refill [of 2 s] by (intro exI [of _ s]) blast
qed

section \<open>Types\<close>

text \<open>Every field within the range of its Go type, the channels within their capacities.\<close>

definition typed_machine :: "breakerState \<Rightarrow> bool" where
  "typed_machine b \<longleftrightarrow> int64 (threshold b) \<and> int64 (openFor b) \<and> int64 (maxProbes b) \<and> int64 (consecFails b) \<and>
     0 \<le> probes b \<and> int64 (probes b)"

definition typed_settings :: "circuitBreaker \<Rightarrow> bool" where
  "typed_settings cb \<longleftrightarrow> int64 (MaxConcurrent cb) \<and> int64 (MaxRetries cb) \<and> int64 (backoff cb) \<and> int64 (statusFailMin cb) \<and>
     int64 (defaultTimeout cb) \<and> int64 (maxRequests cb) \<and> int64 (windowSeconds cb) \<and> int64 (burst cb) \<and>
     int64 (retryAfterMax cb) \<and> (\<forall>e. expBackoff cb = Some e \<longrightarrow> int64 (eb_base e) \<and> int64 (eb_max e))"

definition typed_breaker :: "circuitBreaker \<Rightarrow> bool" where
  "typed_breaker cb \<longleftrightarrow> typed_settings cb \<and> int64 (tokenInterval cb) \<and> int64 (tokensPerTick cb) \<and>
     int64 (retryAfterUntil cb) \<and> (\<forall>b. state cb = Some b \<longrightarrow> typed_machine b) \<and>
     (\<forall>ch. tokens cb = Some ch \<longrightarrow> ch_len ch \<le> ch_cap ch \<and> int (ch_cap ch) \<le> maxBucketCapacity) \<and>
     (\<forall>ch. sem cb = Some ch \<longrightarrow> ch_len ch \<le> ch_cap ch \<and> int (ch_cap ch) = MaxConcurrent cb)"

inductive typed_option :: "(circuitBreaker \<Rightarrow> circuitBreaker) \<Rightarrow> bool" where
  "int64 fails \<Longrightarrow> int64 open_for \<Longrightarrow> int64 half_open_probes \<Longrightarrow> typed_option (WithBreaker fails open_for half_open_probes)"
| "int64 min_code \<Longrightarrow> typed_option (WithStatusCodeFailure min_code)"
| "typed_option (WithRetryPolicy policy)"
| "int64 base \<Longrightarrow> int64 max_wait \<Longrightarrow> typed_option (WithExponentialBackoff base max_wait jitter)"
| "int64 n \<Longrightarrow> typed_option (WithBurst n)"
| "int64 max_wait \<Longrightarrow> typed_option (WithRetryAfter max_wait)"
| "int64 d \<Longrightarrow> typed_option (WithDefaultTimeout d)"

lemma typed_package: "typed_option f \<Longrightarrow> package_option f"
  by (induction rule: typed_option.induct) (auto intro: package_option.intros)

definition typed_new :: "circuitBreaker \<Rightarrow> bool" where
  "typed_new cb \<longleftrightarrow> typed_settings cb \<and> fresh cb \<and> retryAfterUntil cb = 0 \<and> tokenInterval cb = 0 \<and> tokensPerTick cb = 0 \<and>
     (\<forall>b. state cb = Some b \<longrightarrow> typed_machine b)"

lemma int64_constants: "int64 0" "int64 1" "int64 100000000" "int64 30000000000" "int64 300000000000"
  by (simp_all add: int64_def)

lemma typed_new_option:
  assumes "typed_option f" and "typed_new cb"
  shows "typed_new (f cb)"
proof -
  have fresh: "fresh (f cb)" using fresh_option [OF typed_package] assms by (simp add: typed_new_def)
  have "typed_settings (f cb)"
    using assms by (cases; simp add: typed_new_def typed_settings_def option_defs Let_def int64_constants)
  moreover have "\<forall>b. state (f cb) = Some b \<longrightarrow> typed_machine b"
    using assms by (cases; simp add: typed_new_def typed_machine_def newBreakerState_def option_defs Let_def int64_constants)
  moreover have "retryAfterUntil (f cb) = 0" "tokenInterval (f cb) = 0" "tokensPerTick (f cb) = 0"
    using assms by (cases; simp add: typed_new_def option_defs Let_def)+
  ultimately show ?thesis using fresh by (simp add: typed_new_def)
qed

lemma typed_new_options:
  "\<forall>opt \<in> set opts. opt = None \<or> (\<exists>f. opt = Some f \<and> typed_option f) \<Longrightarrow> typed_new cb \<Longrightarrow> typed_new (apply_options opts cb)"
proof (induction opts cb rule: apply_options.induct)
  case (2 opt opts cb)
  then have "typed_new (case opt of None \<Rightarrow> cb | Some f \<Rightarrow> f cb)" by (auto intro: typed_new_option)
  with 2 show ?case by simp
qed simp

lemma sdiv_int64:
  assumes "int64 x" and "0 < y"
  shows "int64 (x sdiv y)"
proof -
  have "\<bar>x\<bar> div y \<le> \<bar>x\<bar> div 1" using assms(2) by (intro zdiv_mono2) simp_all
  moreover have "0 \<le> \<bar>x\<bar> div y" using assms(2) by (simp add: pos_imp_zdiv_nonneg_iff)
  ultimately show ?thesis
    using assms by (auto simp: signed_divide_int_def int64_def sgn_if)
qed

lemma initTokenBucket_settings [frame_simps]:
  "maxRequests (initTokenBucket cb) = maxRequests cb" "windowSeconds (initTokenBucket cb) = windowSeconds cb"
  "burst (initTokenBucket cb) = burst cb" "Name (initTokenBucket cb) = Name cb"
  by (simp_all add: initTokenBucket_def startTokenBucket_def Let_def)

lemma typed_initTokenBucket:
  assumes "typed_new cb"
  shows "typed_breaker (initTokenBucket cb)"
proof -
  have settings: "typed_settings (initTokenBucket cb)"
    using assms by (simp add: typed_new_def typed_settings_def frame_simps)
  have f: "fresh cb" "tokenInterval cb = 0" "tokensPerTick cb = 0" "tokens cb = None"
    using assms by (auto simp: typed_new_def fresh_def)
  have bucket: "int64 (tokenInterval (initTokenBucket cb)) \<and> int64 (tokensPerTick (initTokenBucket cb)) \<and>
      (\<forall>ch. tokens (initTokenBucket cb) = Some ch \<longrightarrow> ch_len ch \<le> ch_cap ch \<and> int (ch_cap ch) \<le> maxBucketCapacity)"
  proof (cases "0 < maxRequests cb \<and> 0 < windowSeconds cb")
    case True
    note on = initTokenBucket_on [of cb] and cap = bucket_capacity_bounds [of cb]
    have "int64 (tokenInterval (initTokenBucket cb))"
      using True
      by (auto simp: initTokenBucket_def startTokenBucket_def Let_def clampedTick_def int64_def [of 25000000]
          minTokenInterval_def not_less intro: sdiv_int64)
    with True on cap show ?thesis by (auto simp: int64_def maxBucketCapacity_def)
  qed (use f initTokenBucket_off [of cb] in \<open>auto simp: int64_def\<close>)
  moreover have "\<forall>ch. sem cb = Some ch \<longrightarrow> ch_len ch \<le> ch_cap ch \<and> int (ch_cap ch) = MaxConcurrent cb"
    using f(1) by (auto simp: fresh_def make_chan_def)
  ultimately show ?thesis
    using settings assms by (simp add: typed_breaker_def typed_new_def frame_simps int64_def [of 0])
qed

text \<open>The probe count: only a live probe of the present period lowers it.\<close>

lemma report_probes:
  "\<not> half_open (settle_report t k out b) \<Longrightarrow> probes (settle_report t k out b) = probes b"
  by (auto simp: settle_report_def report_def half_open_def Let_def split: BreakerState.splits outcome.splits)

lemma allow_probes: "0 \<le> probes b \<Longrightarrow> 0 \<le> probes (snd (allow t b))"
  by (auto simp: allow_def allow_half_open_def enterHalfOpen_def Let_def split: BreakerState.splits)

lemma typed_machine_bounds: "bs_inv b \<Longrightarrow> int64 (threshold b) \<Longrightarrow> int64 (openFor b) \<Longrightarrow> int64 (maxProbes b) \<Longrightarrow> 0 \<le> probes b \<Longrightarrow> typed_machine b"
  by (auto simp: typed_machine_def bs_inv_def int64_def)

lemma settle_limits:
  "threshold (settle_report t k out b) = threshold b" "openFor (settle_report t k out b) = openFor b"
  "maxProbes (settle_report t k out b) = maxProbes b"
  by (simp_all add: settle_report_def frame_simps)

lemma typed_exchange:
  assumes "exchange (cb, c) (cb', c')" and "\<forall>b. state cb = Some b \<longrightarrow> typed_machine b"
    and "machine_ok n cb' cs"
  shows "\<forall>b. state cb' = Some b \<longrightarrow> typed_machine b"
  using assms(1)
proof cases
  case (admit b t r b')
  have "typed_machine b" using assms(2) admit(2) by simp
  moreover have "bs_inv b'" "b' = snd (allow t b)" using assms(3) admit by (auto simp: machine_ok_def)
  ultimately show ?thesis
    using admit(1) allow_probes [of b t] typed_machine_bounds [of b'] by (auto simp: typed_machine_def frame_simps)
next
  case (settle k t out)
  show ?thesis
  proof (intro allI impI)
    fix b' assume b': "state cb' = Some b'"
    with settle(1) obtain b where b: "state cb = Some b" "b' = settle_report t k out b" by auto
    have "typed_machine b" using assms(2) b by simp
    moreover have "bs_inv b'" "adm.ledger b' (tickets cs)" using assms(3) b' by (auto simp: machine_ok_def)
    moreover have "0 \<le> probes b'"
    proof (cases "half_open b'")
      case True
      with \<open>adm.ledger b' (tickets cs)\<close> show ?thesis by (rule adm.ledger_used_nonneg)
    next
      case False
      with report_probes [of t k out b] b(2) \<open>typed_machine b\<close> show ?thesis by (simp add: typed_machine_def)
    qed
    ultimately show "typed_machine b'"
      using b(2) by (intro typed_machine_bounds) (simp_all add: typed_machine_def settle_limits)
  qed
qed (use assms(2) in \<open>auto simp: quiet_def\<close>)

lemma typed_settings_steady:
  "same_config cb cb' \<Longrightarrow> steady (cb, c) (cb', c') \<Longrightarrow> typed_settings cb' = typed_settings cb"
  by (simp add: same_config_def steady_def typed_settings_def)

lemma typed_other:
  "typed_settings (Stop cb) = typed_settings cb"
  "typed_settings (cb\<lparr>refilling := r\<rparr>) = typed_settings cb"
  "typed_settings (cb\<lparr>stopOnce := o1, tokenStop := o2\<rparr>) = typed_settings cb"
  by (auto simp: Stop_def refiller_exit_def typed_settings_def split: option.splits)

lemma typed_step:
  assumes "sys_run k s" and "k < max_generation" and "sys_step s s'" and "typed_breaker (brk s)"
  shows "typed_breaker (brk s')"
  using assms(3)
proof cases
  case (call_step i env inp cb c)
  note inv = run_inv [OF assms(1)]
  have r: "reach (brk s) (calls s ! i)" using inv call_step(2) by (simp add: sys_inv_def)
  have keep: "keeps (brk s) cb" using do_step_control [OF call_step(4) reach_books [OF r]] by blast
  have steady: "steady (brk s, calls s ! i) (cb, c)" by (rule do_step_steady [OF call_step(4)])
  have ex: "exchange (brk s, calls s ! i) (cb, c)" by (rule do_step_exchange [OF call_step(4)])
  have inv': "sys_inv s'" by (rule sys_inv_step [OF inv assms(3)])
  have machine: "machine_ok (Suc k) cb (calls s')"
    using machine_step [OF run_machine [OF assms(1)] assms(2) inv assms(3)] assms(2) call_step(1) by simp
  have "\<forall>b. state (brk s) = Some b \<longrightarrow> typed_machine b" using assms(4) by (simp add: typed_breaker_def)
  from typed_exchange [OF ex this machine] have "\<forall>b. state cb = Some b \<longrightarrow> typed_machine b" .
  moreover have "\<forall>d. tokens cb = Some d \<longrightarrow> ch_len d \<le> ch_cap d \<and> int (ch_cap d) \<le> maxBucketCapacity"
  proof (cases "tokens (brk s)")
    case None
    with keep show ?thesis by (simp add: keeps_def same_config_def)
  next
    case (Some ch)
    then obtain d where "tokens cb = Some d" "ch_cap d = ch_cap ch"
      using do_step_level [OF call_step(4) reach_books [OF r]] by (auto simp: level_falls_def)
    moreover from this have "chan_ok d" using inv' call_step(1) by (simp add: sys_inv_def bucket_ok_def)
    ultimately show ?thesis using Some assms(4) by (simp add: typed_breaker_def chan_ok_def)
  qed
  moreover have "\<forall>d. sem cb = Some d \<longrightarrow> ch_len d \<le> ch_cap d \<and> int (ch_cap d) = MaxConcurrent cb"
    using inv' call_step(1) by (auto simp: sys_inv_def sem_ok_def chan_ok_def)
  moreover have "typed_settings cb"
    using typed_settings_steady [OF _ steady] keep assms(4) by (simp add: keeps_def typed_breaker_def)
  moreover have "tokenInterval cb = tokenInterval (brk s)" "tokensPerTick cb = tokensPerTick (brk s)"
    using keep by (simp_all add: keeps_def same_config_def)
  moreover have "int64 (retryAfterUntil cb)" using steady assms(4) by (simp add: steady_def typed_breaker_def)
  ultimately have "typed_breaker cb" using assms(4) by (simp add: typed_breaker_def)
  with call_step(1) show ?thesis by simp
next
  case (refilled n cb)
  from refilled(2) show ?thesis
  proof (cases rule: refill_one_cases)
    case (full k ch)
    with refilled(1) assms(4) show ?thesis by simp
  next
    case (sent ch d)
    have "chan_ok ch" using run_inv [OF assms(1)] sent(2) by (simp add: sys_inv_def bucket_ok_def)
    with ch.send_ok [OF this sent(3)] ch.send_Some [OF sent(3)] refilled(1) sent assms(4) show ?thesis
      by (auto simp: typed_breaker_def typed_settings_def chan_ok_def)
  qed
qed (use assms(4) in \<open>auto simp: typed_breaker_def typed_other with_call_def refiller_exit_def Stop_def split: option.splits\<close>)

text \<open>C22: Types: with arguments in the range of \<open>int\<close> and \<open>time.Duration\<close>, every field of the breaker, of
  its state machine and of its channels stays in the range of its Go type through every history
  (shorter than \<open>2 ^ 64\<close> steps), and the counts never go below zero or above their limits, so the
  unbounded integers of the model stand for the machine integers of the source.\<close>

theorem types_preserved:
  assumes "\<forall>opt \<in> set opts. opt = None \<or> (\<exists>f. opt = Some f \<and> typed_option f)"
    and "int64 max_concurrent" and "int64 max_requests" and "int64 window_seconds" and "int64 max_retries"
    and "(sys_step ^^ n)
      (new_system (NewCircuitBreakerWithOptions name max_concurrent max_requests window_seconds max_retries opts) t) s" and "n \<le> max_generation"
  shows "typed_breaker (brk s)"
proof -
  let ?start = "new_system (NewCircuitBreakerWithOptions name max_concurrent max_requests window_seconds max_retries opts) t"
  have run: "sys_run 0 ?start" using assms(1) typed_package by (intro sys_run.start) blast
  have "typed_new (newCircuitBreaker name max_concurrent max_requests window_seconds max_retries)"
    using assms(2-5) fresh_new
    by (auto simp: typed_new_def typed_settings_def newCircuitBreaker_def int64_def)
  then have "typed_breaker (brk ?start)"
    unfolding NewCircuitBreakerWithOptions_def
    using typed_initTokenBucket [OF typed_new_options [OF assms(1)]] by simp
  with assms(6,7) have "sys_run n s \<and> typed_breaker (brk s)"
  proof (induction n arbitrary: s)
    case 0
    then show ?case using run by simp
  next
    case (Suc n)
    then obtain s1 where "(sys_step ^^ n) ?start s1" "sys_step s1 s" by auto
    with Suc typed_step [of n s1 s] show ?case by (auto intro: sys_run.step)
  qed
  then show ?thesis by blast
qed

theorem types_preserved_witness:
  "typed_breaker (brk (small_start\<lparr>now := 1010\<rparr>)) \<and> state (brk small_start) \<noteq> None"
proof -
  have "(sys_step ^^ 1) small_start (small_start\<lparr>now := 1010\<rparr>)"
    unfolding relpowp_1 by (rule sys_step.time_passes) (simp add: small_start_def)
  moreover have "\<forall>opt \<in> set [Some (WithBreaker 1 10 1)]. opt = None \<or> (\<exists>f. opt = Some f \<and> typed_option f)"
    by (auto simp: int64_def intro: typed_option.intros)
  ultimately have "typed_breaker (brk (small_start\<lparr>now := 1010\<rparr>))"
    using types_preserved [of "[Some (WithBreaker 1 10 1)]" 1 0 0 0 1 "''b''" 1000 "small_start\<lparr>now := 1010\<rparr>"]
    unfolding small_start_def small_breaker_def by (simp add: int64_def)
  then show ?thesis by (simp add: small_start_def)
qed

end
