(* ===== verification/Manager.thy ===== *)
theory Manager
  imports Breaker_Core "HOL-Library.Char_ord" "HOL-Library.List_Lexorder" "HOL-Library.Multiset"
begin

text \<open>
  The registry of breakers: manager.go and spec.go. A breaker is shared by reference, so the
  manager maps names to addresses of a heap of breakers. The order in which Go ranges over a map
  is arbitrary: operations that range over one take the parameter \<open>shuffle\<close>, which permutes the
  entries. Errors are values of their own, with what the source formats into the text.
\<close>

section \<open>Data\<close>

record breakerConfig =
  bc_maxConcurrent :: int
  bc_maxRequests :: int
  bc_windowSeconds :: int
  bc_maxRetries :: int

record BreakerSpec =
  spec_MaxConcurrent :: int
  spec_MaxRequests :: int
  spec_WindowSeconds :: int
  spec_MaxRetries :: int
  spec_Options :: "go_option list"

type_synonym addr = nat

record manager =
  m_cb :: "(string \<times> addr) list"
  m_cfg :: "(string \<times> breakerConfig) list"

text \<open>The manager and the heap its breakers live in.\<close>

record world =
  mgr :: manager
  heap :: "circuitBreaker list"

datatype manager_error =
    DivergentConfig string breakerConfig breakerConfig
  | InconsistentSpec string int int
  | ForeignManager

text \<open>The manager an \<open>IManager\<close> holds: the one of this package, or another implementation.\<close>

datatype i_manager = PackageManager | OtherManager

definition zero_config :: breakerConfig where
  "zero_config = \<lparr>bc_maxConcurrent = 0, bc_maxRequests = 0, bc_windowSeconds = 0, bc_maxRetries = 0\<rparr>"

definition zero_spec :: BreakerSpec where
  "zero_spec = \<lparr>spec_MaxConcurrent = 0, spec_MaxRequests = 0, spec_WindowSeconds = 0, spec_MaxRetries = 0, spec_Options = []\<rparr>"

text \<open>Reading a Go map: the zero value for a missing key.\<close>

definition map_get :: "'v \<Rightarrow> ('k \<times> 'v) list \<Rightarrow> 'k \<Rightarrow> 'v" where
  "map_get zero m k = (case map_of m k of None \<Rightarrow> zero | Some v \<Rightarrow> v)"

definition NewManager :: manager where
  "NewManager = \<lparr>m_cb = [], m_cfg = []\<rparr>"

section \<open>Operations\<close>

definition GetCircuitBreaker :: "string \<Rightarrow> world \<Rightarrow> addr option" where
  "GetCircuitBreaker name w = map_of (m_cb (mgr w)) name"

text \<open>A new breaker goes to a fresh address and under its name, with its configuration.\<close>

definition register :: "string \<Rightarrow> circuitBreaker \<Rightarrow> breakerConfig \<Rightarrow> world \<Rightarrow> addr \<times> world" where
  "register name cb cfg w =
     (let a = length (heap w)
      in (a, \<lparr>mgr = \<lparr>m_cb = AList.update name a (m_cb (mgr w)), m_cfg = AList.update name cfg (m_cfg (mgr w))\<rparr>,
             heap = heap w @ [cb]\<rparr>))"

definition manager_NewCircuitBreaker ::
    "int \<Rightarrow> int \<Rightarrow> int \<Rightarrow> int \<Rightarrow> string \<Rightarrow> world \<Rightarrow> addr \<times> world" where
  "manager_NewCircuitBreaker max_concurrent max_requests window_seconds max_retries name w =
     (case map_of (m_cb (mgr w)) name of
        Some a \<Rightarrow> (a, w)
      | None \<Rightarrow>
          register name (NewCircuitBreaker name max_concurrent max_requests window_seconds max_retries)
            \<lparr>bc_maxConcurrent = max_concurrent, bc_maxRequests = max_requests,
             bc_windowSeconds = window_seconds, bc_maxRetries = max_retries\<rparr> w)"

definition NewCircuitBreakerStrict ::
    "int \<Rightarrow> int \<Rightarrow> int \<Rightarrow> int \<Rightarrow> string \<Rightarrow> world \<Rightarrow> (manager_error + addr) \<times> world" where
  "NewCircuitBreakerStrict max_concurrent max_requests window_seconds max_retries name w =
     (let want = \<lparr>bc_maxConcurrent = max_concurrent, bc_maxRequests = max_requests,
                  bc_windowSeconds = window_seconds, bc_maxRetries = max_retries\<rparr>
      in case map_of (m_cb (mgr w)) name of
           Some a \<Rightarrow>
             (let got = map_get zero_config (m_cfg (mgr w)) name
              in if got \<noteq> want then (Inl (DivergentConfig name got want), w) else (Inr a, w))
         | None \<Rightarrow>
             (case register name (NewCircuitBreaker name max_concurrent max_requests window_seconds max_retries) want w of
                (a, w') \<Rightarrow> (Inr a, w')))"

definition List :: "(string list \<Rightarrow> string list) \<Rightarrow> world \<Rightarrow> string list" where
  "List shuffle w = shuffle (map fst (m_cb (mgr w)))"

definition stop_at :: "addr \<Rightarrow> circuitBreaker list \<Rightarrow> circuitBreaker list" where
  "stop_at a h = (if a < length h then h[a := Stop (h ! a)] else h)"

definition Remove :: "string \<Rightarrow> world \<Rightarrow> world" where
  "Remove name w =
     (case map_of (m_cb (mgr w)) name of
        None \<Rightarrow> w
      | Some a \<Rightarrow>
          \<lparr>mgr = \<lparr>m_cb = AList.delete name (m_cb (mgr w)), m_cfg = AList.delete name (m_cfg (mgr w))\<rparr>,
           heap = stop_at a (heap w)\<rparr>)"

definition StopAll :: "(addr list \<Rightarrow> addr list) \<Rightarrow> world \<Rightarrow> world" where
  "StopAll shuffle w = w\<lparr>heap := fold stop_at (shuffle (map snd (m_cb (mgr w)))) (heap w)\<rparr>"

section \<open>ConfigureManager\<close>

definition spec_config :: "BreakerSpec \<Rightarrow> breakerConfig" where
  "spec_config spec =
     \<lparr>bc_maxConcurrent = spec_MaxConcurrent spec, bc_maxRequests = spec_MaxRequests spec,
      bc_windowSeconds = spec_WindowSeconds spec, bc_maxRetries = spec_MaxRetries spec\<rparr>"

text \<open>Phase 1: the first name, in order, whose spec is inconsistent or diverges.\<close>

definition check_spec :: "manager \<Rightarrow> string \<Rightarrow> BreakerSpec \<Rightarrow> manager_error option" where
  "check_spec m name spec =
     (if (0 < spec_MaxRequests spec) \<noteq> (0 < spec_WindowSeconds spec) then
        Some (InconsistentSpec name (spec_MaxRequests spec) (spec_WindowSeconds spec))
      else
        let want = spec_config spec
        in case map_of (m_cb m) name of
             None \<Rightarrow> None
           | Some _ \<Rightarrow>
               let got = map_get zero_config (m_cfg m) name
               in if got \<noteq> want then Some (DivergentConfig name got want) else None)"

fun validate :: "manager \<Rightarrow> (string \<times> BreakerSpec) list \<Rightarrow> string list \<Rightarrow> manager_error option" where
  "validate m specs [] = None"
| "validate m specs (name # names) =
     (case check_spec m name (map_get zero_spec specs name) of
        Some e \<Rightarrow> Some e
      | None \<Rightarrow> validate m specs names)"

text \<open>Phase 2: one name; an existing breaker is reused as it is.\<close>

definition ensure :: "BreakerSpec \<Rightarrow> string \<Rightarrow> world \<Rightarrow> addr \<times> world" where
  "ensure spec name w =
     (case map_of (m_cb (mgr w)) name of
        Some a \<Rightarrow> (a, w)
      | None \<Rightarrow>
          register name
            (NewCircuitBreakerWithOptions name (spec_MaxConcurrent spec) (spec_MaxRequests spec)
               (spec_WindowSeconds spec) (spec_MaxRetries spec) (spec_Options spec))
            (spec_config spec) w)"

fun create_all ::
    "(string \<times> BreakerSpec) list \<Rightarrow> string list \<Rightarrow> (string \<times> addr) list \<Rightarrow> world \<Rightarrow> (string \<times> addr) list \<times> world" where
  "create_all specs [] out w = (out, w)"
| "create_all specs (name # names) out w =
     (case ensure (map_get zero_spec specs name) name w of
        (a, w') \<Rightarrow> create_all specs names (AList.update name a out) w')"

definition ConfigureManager ::
    "(string list \<Rightarrow> string list) \<Rightarrow> i_manager \<Rightarrow> (string \<times> BreakerSpec) list \<Rightarrow> world \<Rightarrow>
     (manager_error + (string \<times> addr) list) \<times> world" where
  "ConfigureManager shuffle m specs w =
     (case m of
        OtherManager \<Rightarrow> (Inl ForeignManager, w)
      | PackageManager \<Rightarrow>
          let names = sort (shuffle (map fst specs))
          in case validate (mgr w) specs names of
               Some e \<Rightarrow> (Inl e, w)
             | None \<Rightarrow> (case create_all specs names [] w of (out, w') \<Rightarrow> (Inr out, w')))"

section \<open>Interfaces\<close>

text \<open>A store that makes an entry when it is missing and otherwise returns the one it has.\<close>

locale get_or_create =
  fixes get :: "'k \<Rightarrow> 's \<Rightarrow> 'v option"
    and make :: "'k \<Rightarrow> 's \<Rightarrow> 'v \<times> 's"
  assumes make_hit: "get k s = Some v \<Longrightarrow> make k s = (v, s)"
    and make_miss: "get k s = None \<Longrightarrow> get k (snd (make k s)) = Some (fst (make k s))"
    and make_other: "k' \<noteq> k \<Longrightarrow> get k' (snd (make k s)) = get k' s"
begin

lemma make_gets: "get k (snd (make k s)) = Some (fst (make k s))"
  using make_hit make_miss by (cases "get k s") simp_all

lemma make_keeps: "get k' s = Some v \<Longrightarrow> get k' (snd (make k s)) = Some v"
  using make_hit make_other by (cases "k' = k") auto

lemma make_again: "make k (snd (make k s)) = make k s"
  using make_hit [OF make_gets] by (metis prod.collapse)

lemma make_get: "get k' (snd (make k s)) = (if k' = k then Some (fst (make k s)) else get k' s)"
  using make_gets make_other by simp

end

text \<open>Things that can be stopped more than once and in any order.\<close>

locale stoppable =
  fixes stop :: "'a \<Rightarrow> 'h \<Rightarrow> 'h"
  assumes stop_idem: "stop a (stop a h) = stop a h"
    and stop_comm: "stop a (stop b h) = stop b (stop a h)"
begin

lemma stop_past: "stop a (fold stop xs h) = fold stop xs (stop a h)"
  by (induction xs arbitrary: h) (simp_all add: stop_comm)

lemma fold_stop_order: "mset xs = mset ys \<Longrightarrow> fold stop xs h = fold stop ys h"
proof -
  assume "mset xs = mset ys"
  then have "fold stop xs = fold stop ys"
    by (rule fold_multiset_equiv [rotated]) (auto simp: fun_eq_iff stop_comm)
  then show ?thesis by simp
qed

lemma fold_stop_twice: "fold stop xs (fold stop xs h) = fold stop xs h"
proof (induction xs arbitrary: h)
  case (Cons a xs)
  have "fold stop (a # xs) (fold stop (a # xs) h) = fold stop xs (stop a (fold stop xs (stop a h)))" by simp
  also have "\<dots> = fold stop xs (fold stop xs (stop a (stop a h)))" by (simp only: stop_past)
  finally show ?case by (simp add: stop_idem Cons.IH)
qed simp

end

lemma Stop_idem [simp]: "Stop (Stop cb) = Stop cb"
  by (auto simp: Stop_def split: option.splits)

interpretation halt: stoppable stop_at
  by unfold_locales (auto simp: stop_at_def list_update_swap nth_list_update)

lemma register_get:
  "GetCircuitBreaker k (snd (register name cb cfg w)) =
     (if k = name then Some (fst (register name cb cfg w)) else GetCircuitBreaker k w)"
  by (simp add: GetCircuitBreaker_def register_def Let_def)

interpretation goc: get_or_create GetCircuitBreaker "manager_NewCircuitBreaker mc mr ws n" for mc mr ws n
  by unfold_locales
    (auto simp: manager_NewCircuitBreaker_def GetCircuitBreaker_def [symmetric] register_get split: option.splits)

interpretation ens: get_or_create GetCircuitBreaker "ensure spec" for spec
  by unfold_locales (auto simp: ensure_def GetCircuitBreaker_def [symmetric] register_get split: option.splits)

section \<open>Invariant\<close>

text \<open>
  Names are unique, a breaker and a configuration are registered together, and different names
  lead to different breakers of the heap.
\<close>

definition mgr_ok :: "world \<Rightarrow> bool" where
  "mgr_ok w \<longleftrightarrow> distinct (map fst (m_cb (mgr w))) \<and> distinct (map snd (m_cb (mgr w))) \<and>
     (\<forall>k. (map_of (m_cb (mgr w)) k = None) = (map_of (m_cfg (mgr w)) k = None)) \<and>
     (\<forall>a \<in> set (map snd (m_cb (mgr w))). a < length (heap w))"

lemma mgr_ok_keys: "mgr_ok w \<Longrightarrow> (GetCircuitBreaker k w = None) = (map_of (m_cfg (mgr w)) k = None)"
  by (simp add: mgr_ok_def GetCircuitBreaker_def)

lemma mgr_ok_registered: "mgr_ok w \<Longrightarrow> a \<in> set (map snd (m_cb (mgr w))) \<longleftrightarrow> (\<exists>k. GetCircuitBreaker k w = Some a)"
  by (force simp: mgr_ok_def GetCircuitBreaker_def dest: map_of_SomeD)

lemma update_new: "k \<notin> fst ` set al \<Longrightarrow> AList.update k v al = al @ [(k, v)]"
  by (induction al) auto

lemma mgr_ok_register [inv_intros]:
  assumes "mgr_ok w" and "GetCircuitBreaker name w = None"
  shows "mgr_ok (snd (register name cb cfg w))"
proof -
  have new: "name \<notin> fst ` set (m_cb (mgr w))"
    using assms(2) by (simp add: GetCircuitBreaker_def map_of_eq_None_iff)
  let ?al = "AList.update name (length (heap w)) (m_cb (mgr w))"
  have "distinct (map fst ?al)" "distinct (map snd ?al)" "set (map snd ?al) = insert (length (heap w)) (set (map snd (m_cb (mgr w))))"
    using assms(1) new by (auto simp: update_new mgr_ok_def)
  with assms(1) show ?thesis
    by (auto simp: mgr_ok_def register_def Let_def less_Suc_eq)
qed

lemma mgr_ok_NewCircuitBreaker [inv_intros]: "mgr_ok w \<Longrightarrow> mgr_ok (snd (manager_NewCircuitBreaker mc mr ws n name w))"
  using mgr_ok_register by (auto simp: manager_NewCircuitBreaker_def GetCircuitBreaker_def split: option.splits)

lemma mgr_ok_ensure [inv_intros]: "mgr_ok w \<Longrightarrow> mgr_ok (snd (ensure spec name w))"
  using mgr_ok_register by (auto simp: ensure_def GetCircuitBreaker_def split: option.splits)

lemma delete_distinct:
  assumes "distinct (map fst al)" and "distinct (map snd al)"
  shows "distinct (map fst (AList.delete k al)) \<and> distinct (map snd (AList.delete k al)) \<and>
    set (map snd (AList.delete k al)) \<subseteq> set (map snd al)"
  using assms by (auto simp: AList.delete_eq distinct_map_filter)

lemma mgr_ok_Remove [inv_intros]:
  assumes "mgr_ok w"
  shows "mgr_ok (Remove name w)"
proof (cases "map_of (m_cb (mgr w)) name")
  case None
  with assms show ?thesis by (simp add: Remove_def)
next
  case (Some a)
  have len: "length (stop_at a (heap w)) = length (heap w)" by (simp add: stop_at_def)
  have keys: "(map_of (AList.delete name (m_cb (mgr w))) k = None) = (map_of (AList.delete name (m_cfg (mgr w))) k = None)" for k
    using assms by (simp add: mgr_ok_def delete_conv')
  from delete_distinct [of "m_cb (mgr w)" name] assms Some keys len show ?thesis
    unfolding Remove_def mgr_ok_def by (simp add: subset_eq) (metis imageE)
qed

lemma heap_StopAll: "length (fold stop_at xs h) = length h"
  by (induction xs arbitrary: h) (simp_all add: stop_at_def)

lemma mgr_ok_StopAll [inv_intros]: "mgr_ok w \<Longrightarrow> mgr_ok (StopAll shuffle w)"
  by (simp add: mgr_ok_def StopAll_def heap_StopAll)

lemma mgr_ok_New [inv_intros]: "mgr_ok \<lparr>mgr = NewManager, heap = h\<rparr>"
  by (simp add: mgr_ok_def NewManager_def)

section \<open>ConfigureManager\<close>

lemma validate_None_iff:
  "validate m specs names = None \<longleftrightarrow> (\<forall>k \<in> set names. check_spec m k (map_get zero_spec specs k) = None)"
  by (induction names) (auto split: option.splits)

lemma sort_shuffle: "mset xs = mset ys \<Longrightarrow> sort xs = sort (ys :: string list)"
  by (metis mset_sort properties_for_sort sorted_sort)

lemma ensure_heap:
  assumes "mgr_ok w" and "GetCircuitBreaker k w = Some a"
  shows "heap (snd (ensure spec name w)) ! a = heap w ! a"
proof -
  have "a < length (heap w)"
    using assms by (auto simp: mgr_ok_def GetCircuitBreaker_def dest: map_of_SomeD)
  then show ?thesis
    by (auto simp: ensure_def register_def Let_def nth_append split: option.splits)
qed

lemma ensure_config:
  "map_of (m_cfg (mgr (snd (ensure spec name w)))) k =
     (if k = name \<and> GetCircuitBreaker name w = None then Some (spec_config spec) else map_of (m_cfg (mgr w)) k)"
  by (auto simp: ensure_def GetCircuitBreaker_def register_def Let_def split: option.splits)

text \<open>What phase 2 does to the registry.\<close>

definition configured ::
    "(string \<times> BreakerSpec) list \<Rightarrow> string list \<Rightarrow> (string \<times> addr) list \<Rightarrow> world \<Rightarrow> (string \<times> addr) list \<Rightarrow> world \<Rightarrow> bool" where
  "configured specs names out w out' w' \<longleftrightarrow> mgr_ok w' \<and>
     (\<forall>k a. GetCircuitBreaker k w = Some a \<longrightarrow> GetCircuitBreaker k w' = Some a \<and> heap w' ! a = heap w ! a) \<and>
     (\<forall>k \<in> set names. GetCircuitBreaker k w' \<noteq> None) \<and>
     (\<forall>k. k \<notin> set names \<longrightarrow> GetCircuitBreaker k w' = GetCircuitBreaker k w) \<and>
     (\<forall>k. map_of out' k = (if k \<in> set names then GetCircuitBreaker k w' else map_of out k)) \<and>
     (\<forall>k. map_of (m_cfg (mgr w')) k =
        (if k \<in> set names \<and> GetCircuitBreaker k w = None then Some (spec_config (map_get zero_spec specs k))
         else map_of (m_cfg (mgr w)) k))"

lemma create_all_effect:
  assumes "mgr_ok w" and "create_all specs names out w = (out', w')"
  shows "configured specs names out w out' w'"
  using assms
proof (induction names arbitrary: out w)
  case Nil
  then show ?case by (simp add: configured_def)
next
  case (Cons name names)
  let ?spec = "map_get zero_spec specs name"
  obtain b w1 where e: "ensure ?spec name w = (b, w1)" by fastforce
  have rest: "create_all specs names (AList.update name b out) w1 = (out', w')"
    using Cons.prems(2) e by simp
  have ok1: "mgr_ok w1" using mgr_ok_ensure [OF Cons.prems(1), of ?spec name] e by simp
  have get: "GetCircuitBreaker j w1 = (if j = name then Some b else GetCircuitBreaker j w)" for j
    using ens.make_get [of j ?spec name w] e by simp
  have hit: "GetCircuitBreaker j w1 = Some a" if "GetCircuitBreaker j w = Some a" for j a
    using ens.make_keeps [OF that, of ?spec name] e by simp
  have cfg: "map_of (m_cfg (mgr w1)) j =
     (if j = name \<and> GetCircuitBreaker name w = None then Some (spec_config ?spec) else map_of (m_cfg (mgr w)) j)" for j
    using ensure_config [of ?spec name w j] e by simp
  have hp: "heap w1 ! a = heap w ! a" if "GetCircuitBreaker j w = Some a" for j a
    using ensure_heap [OF Cons.prems(1) that, of ?spec name] e by simp
  have ih: "configured specs names (AList.update name b out) w1 out' w'"
    by (rule Cons.IH [OF ok1 rest])
  then have keep: "GetCircuitBreaker k w' = Some a \<and> heap w' ! a = heap w1 ! a" if "GetCircuitBreaker k w1 = Some a" for k a
    using that by (simp add: configured_def)
  have b: "GetCircuitBreaker name w' = Some b" using keep get [of name] by simp
  show ?case
    unfolding configured_def
  proof (intro conjI allI impI ballI)
    show "mgr_ok w'" using ih by (simp add: configured_def)
  next
    fix k a assume "GetCircuitBreaker k w = Some a"
    with hit hp keep show "GetCircuitBreaker k w' = Some a" "heap w' ! a = heap w ! a" by metis+
  next
    fix k assume "k \<in> set (name # names)"
    with ih b show "GetCircuitBreaker k w' \<noteq> None" by (auto simp: configured_def)
  next
    fix k assume "k \<notin> set (name # names)"
    with ih get show "GetCircuitBreaker k w' = GetCircuitBreaker k w" by (simp add: configured_def)
  next
    fix k show "map_of out' k = (if k \<in> set (name # names) then GetCircuitBreaker k w' else map_of out k)"
      using ih b by (simp add: configured_def)
  next
    fix k show "map_of (m_cfg (mgr w')) k =
      (if k \<in> set (name # names) \<and> GetCircuitBreaker k w = None then Some (spec_config (map_get zero_spec specs k))
       else map_of (m_cfg (mgr w)) k)"
      using ih cfg get by (auto simp: configured_def)
  qed
qed

text \<open>When every name is registered, phase 2 only looks up.\<close>

lemma create_all_idle:
  assumes "\<forall>k \<in> set names. GetCircuitBreaker k w \<noteq> None"
  shows "create_all specs names out w = (fold (\<lambda>k. AList.update k (the (GetCircuitBreaker k w))) names out, w)"
  using assms by (induction names arbitrary: out) (auto simp: ens.make_hit)

lemma create_all_out:
  assumes "mgr_ok w" and "create_all specs names out w = (out', w')"
  shows "out' = fold (\<lambda>k. AList.update k (the (GetCircuitBreaker k w'))) names out"
  using assms
proof (induction names arbitrary: out w)
  case (Cons name names)
  let ?spec = "map_get zero_spec specs name"
  obtain b w1 where e: "ensure ?spec name w = (b, w1)" by fastforce
  have ok1: "mgr_ok w1" using mgr_ok_ensure [OF Cons.prems(1), of ?spec name] e by simp
  have rest: "create_all specs names (AList.update name b out) w1 = (out', w')" using Cons.prems(2) e by simp
  have "GetCircuitBreaker name w1 = Some b" using ens.make_gets [of name ?spec w] e by simp
  with create_all_effect [OF ok1 rest] have "GetCircuitBreaker name w' = Some b" by (simp add: configured_def)
  with Cons.IH [OF ok1 rest] show ?case by simp
qed simp

section \<open>Properties\<close>

definition sample_specs :: "(string \<times> BreakerSpec) list" where
  "sample_specs =
     [(''omie'', zero_spec\<lparr>spec_MaxConcurrent := 1, spec_MaxRetries := 2\<rparr>),
      (''ccee'', zero_spec\<lparr>spec_MaxRetries := 2\<rparr>)]"

definition empty_world :: world where
  "empty_world = \<lparr>mgr = NewManager, heap = []\<rparr>"

lemma empty_world_ok [simp]: "mgr_ok empty_world"
  by (simp add: empty_world_def mgr_ok_New)

lemma empty_get [simp]: "GetCircuitBreaker k empty_world = None"
  by (simp add: empty_world_def NewManager_def GetCircuitBreaker_def)

lemma sample_valid: "validate (mgr empty_world) sample_specs names = None"
  by (simp add: validate_None_iff check_spec_def sample_specs_def map_get_def zero_spec_def empty_world_def NewManager_def)

lemma sample_configured:
  obtains out w' where "ConfigureManager id PackageManager sample_specs empty_world = (Inr out, w')"
  using sample_valid by (cases "create_all sample_specs (sort (map fst sample_specs)) [] empty_world")
    (simp add: ConfigureManager_def Let_def)

text \<open>A name has one breaker: whatever the parameters of the calls, the second
  \<open>NewCircuitBreaker\<close> with a name returns the very breaker the first one made or found and changes
  nothing, \<open>GetCircuitBreaker\<close> finds it, and no other name is affected.\<close>

theorem one_breaker_per_name:
  "manager_NewCircuitBreaker mc' mr' ws' n' name (snd (manager_NewCircuitBreaker mc mr ws n name w)) =
     manager_NewCircuitBreaker mc mr ws n name w \<and>
   GetCircuitBreaker other (snd (manager_NewCircuitBreaker mc mr ws n name w)) =
     (if other = name then Some (fst (manager_NewCircuitBreaker mc mr ws n name w)) else GetCircuitBreaker other w)"
  using goc.make_hit [OF goc.make_gets [of name mc mr ws n w], of mc' mr' ws' n']
    goc.make_get [of other mc mr ws n name w]
  by simp

text \<open>The strict variant refuses a name that is registered with other parameters, with an error
  that names both configurations and without changing anything; with the same parameters it
  returns the registered breaker, and for a new name it registers exactly the requested
  configuration.\<close>

theorem strict_creation:
  assumes "mgr_ok w" and "want = \<lparr>bc_maxConcurrent = mc, bc_maxRequests = mr, bc_windowSeconds = ws, bc_maxRetries = n\<rparr>"
  shows "case GetCircuitBreaker name w of
      None \<Rightarrow> \<exists>a w'. NewCircuitBreakerStrict mc mr ws n name w = (Inr a, w') \<and> mgr_ok w' \<and>
        GetCircuitBreaker name w' = Some a \<and> map_of (m_cfg (mgr w')) name = Some want
    | Some a \<Rightarrow> \<exists>got. map_of (m_cfg (mgr w)) name = Some got \<and>
        NewCircuitBreakerStrict mc mr ws n name w =
          (if got = want then Inr a else Inl (DivergentConfig name got want), w)"
proof (cases "GetCircuitBreaker name w")
  case None
  let ?r = "register name (NewCircuitBreaker name mc mr ws n) want w"
  have "mgr_ok (snd ?r)" "GetCircuitBreaker name (snd ?r) = Some (fst ?r)" "map_of (m_cfg (mgr (snd ?r))) name = Some want"
    using mgr_ok_register [OF assms(1) None] register_get by (simp_all add: register_def Let_def)
  moreover have "NewCircuitBreakerStrict mc mr ws n name w = (Inr (fst ?r), snd ?r)"
    using None assms(2) by (simp add: NewCircuitBreakerStrict_def GetCircuitBreaker_def Let_def split: prod.splits)
  ultimately show ?thesis using None by simp
next
  case (Some a)
  then have "map_of (m_cfg (mgr w)) name \<noteq> None"
    using mgr_ok_keys [OF assms(1), of name] by simp
  then obtain got where "map_of (m_cfg (mgr w)) name = Some got" by blast
  with Some assms(2) show ?thesis
    by (auto simp: NewCircuitBreakerStrict_def GetCircuitBreaker_def Let_def map_get_def)
qed

theorem strict_creation_witness:
  "\<exists>a w'. NewCircuitBreakerStrict 1 0 0 2 ''omie'' empty_world = (Inr a, w') \<and> GetCircuitBreaker ''omie'' w' = Some a"
  using strict_creation [OF empty_world_ok refl, where name = "''omie''" and mc = 1 and mr = 0 and ws = 0 and n = 2] by auto

text \<open>C23: \<open>ConfigureManager\<close> is all or nothing: with an error the world is exactly as before; otherwise
  every name of the map is registered and returned, the new ones with the configuration of their
  spec, the ones that existed (with equal parameters) keep their breaker untouched, and no other
  name changes.\<close>

theorem configure_all_or_nothing:
  assumes "mgr_ok w" and "\<forall>xs. mset (shuffle xs) = mset xs"
    and "ConfigureManager shuffle PackageManager specs w = (res, w')"
  shows "case res of
      Inl e \<Rightarrow> w' = w
    | Inr out \<Rightarrow> mgr_ok w' \<and>
        (\<forall>k a. GetCircuitBreaker k w = Some a \<longrightarrow> GetCircuitBreaker k w' = Some a \<and> heap w' ! a = heap w ! a) \<and>
        (\<forall>k. k \<notin> fst ` set specs \<longrightarrow> GetCircuitBreaker k w' = GetCircuitBreaker k w) \<and>
        (\<forall>k. map_of out k = (if k \<in> fst ` set specs then GetCircuitBreaker k w' else None)) \<and>
        (\<forall>k \<in> fst ` set specs. GetCircuitBreaker k w' \<noteq> None \<and>
           map_of (m_cfg (mgr w')) k = Some (spec_config (map_get zero_spec specs k)))"
proof (cases res)
  case (Inl e)
  then show ?thesis
    using assms(3) by (auto simp: ConfigureManager_def Let_def split: option.splits prod.splits)
next
  case (Inr out)
  let ?names = "sort (shuffle (map fst specs))"
  have names: "set ?names = fst ` set specs"
    by (metis assms(2) list.set_map set_mset_mset set_sort)
  have ok: "validate (mgr w) specs ?names = None" "create_all specs ?names [] w = (out, w')"
    using assms(3) Inr by (auto simp: ConfigureManager_def Let_def split: option.splits prod.splits)
  have c: "configured specs ?names [] w out w'" by (rule create_all_effect [OF assms(1) ok(2)])
  have "map_of (m_cfg (mgr w)) k = Some (spec_config (map_get zero_spec specs k))"
    if "k \<in> fst ` set specs" "GetCircuitBreaker k w \<noteq> None" for k
  proof -
    have "check_spec (mgr w) k (map_get zero_spec specs k) = None"
      using ok(1) [unfolded validate_None_iff names] that(1) by (rule bspec)
    moreover have "map_of (m_cfg (mgr w)) k \<noteq> None"
      using mgr_ok_keys [OF assms(1)] that(2) by simp
    ultimately show ?thesis
      using that(2) by (auto simp: check_spec_def GetCircuitBreaker_def Let_def map_get_def split: if_splits)
  qed
  with c Inr show ?thesis unfolding configured_def names by auto
qed

theorem configure_all_or_nothing_witness:
  "\<exists>out w'. ConfigureManager id PackageManager sample_specs empty_world = (Inr out, w') \<and> mgr_ok w' \<and>
     map_of out ''omie'' \<noteq> None \<and> map_of out ''other'' = None"
proof -
  obtain out w' where c: "ConfigureManager id PackageManager sample_specs empty_world = (Inr out, w')"
    by (rule sample_configured)
  from configure_all_or_nothing [OF empty_world_ok _ c] c show ?thesis
    by (auto simp: sample_specs_def)
qed

text \<open>\<open>ConfigureManager\<close> does not depend on the order in which Go ranges over the map of specs: the
  result, the error it reports (the one of the first offending name in the order of the names) and
  the addresses of the new breakers are the same for every order.\<close>

theorem configure_deterministic:
  assumes "\<forall>xs. mset (shuffle xs) = mset xs" and "\<forall>xs. mset (shuffle' xs) = mset xs"
  shows "ConfigureManager shuffle m specs w = ConfigureManager shuffle' m specs w"
proof -
  have "sort (shuffle (map fst specs)) = sort (shuffle' (map fst specs))"
    using assms by (intro sort_shuffle) simp
  then show ?thesis by (simp only: ConfigureManager_def Let_def)
qed

theorem configure_deterministic_witness:
  "ConfigureManager rev PackageManager sample_specs empty_world = ConfigureManager id PackageManager sample_specs empty_world"
  by (rule configure_deterministic) simp_all

text \<open>Configuring again with the same map is idempotent: it succeeds, returns the same breakers and
  changes nothing.\<close>

theorem configure_idempotent:
  assumes "mgr_ok w" and "\<forall>xs. mset (shuffle xs) = mset xs"
    and "ConfigureManager shuffle PackageManager specs w = (Inr out, w')"
  shows "ConfigureManager shuffle PackageManager specs w' = (Inr out, w')"
proof -
  let ?names = "sort (shuffle (map fst specs))"
  have names: "set ?names = fst ` set specs"
    by (metis assms(2) list.set_map set_mset_mset set_sort)
  have ok: "validate (mgr w) specs ?names = None" "create_all specs ?names [] w = (out, w')"
    using assms(3) by (auto simp: ConfigureManager_def Let_def split: option.splits prod.splits)
  have c: "configured specs ?names [] w out w'" by (rule create_all_effect [OF assms(1) ok(2)])
  have "validate (mgr w') specs ?names = None"
    unfolding validate_None_iff
  proof
    fix k assume k: "k \<in> set ?names"
    with ok(1) have old: "check_spec (mgr w) k (map_get zero_spec specs k) = None" by (simp add: validate_None_iff)
    show "check_spec (mgr w') k (map_get zero_spec specs k) = None"
    proof (cases "GetCircuitBreaker k w")
      case None
      with c k have "map_of (m_cfg (mgr w')) k = Some (spec_config (map_get zero_spec specs k))"
        by (simp add: configured_def)
      with old show ?thesis
        by (auto simp: check_spec_def Let_def map_get_def split: if_splits option.splits)
    next
      case (Some a)
      with c k have "map_of (m_cfg (mgr w')) k = map_of (m_cfg (mgr w)) k" by (simp add: configured_def)
      with old Some show ?thesis
        by (auto simp: check_spec_def Let_def map_get_def GetCircuitBreaker_def split: if_splits option.splits)
    qed
  qed
  moreover have "create_all specs ?names [] w' = (out, w')"
    using create_all_idle [of ?names w' specs "[]"] create_all_out [OF assms(1) ok(2)] c
    by (simp add: configured_def)
  ultimately show ?thesis by (simp add: ConfigureManager_def Let_def)
qed

theorem configure_idempotent_witness:
  "\<exists>out w'. ConfigureManager id PackageManager sample_specs empty_world = (Inr out, w') \<and>
     ConfigureManager id PackageManager sample_specs w' = (Inr out, w')"
proof -
  obtain out w' where c: "ConfigureManager id PackageManager sample_specs empty_world = (Inr out, w')"
    by (rule sample_configured)
  from configure_idempotent [OF empty_world_ok _ c] c show ?thesis by auto
qed

text \<open>\<open>StopAll\<close> stops every registered breaker and no other, keeps the registry, does not depend on
  the order in which Go ranges over the map, and stopping again changes nothing; \<open>Remove\<close> stops the
  one breaker and takes its name, and only that, out of the registry.\<close>

theorem stop_all_and_remove:
  assumes "mgr_ok w" and "\<forall>xs. mset (shuffle xs) = mset xs" and "\<forall>xs. mset (shuffle' xs) = mset xs"
  shows "StopAll shuffle w = StopAll shuffle' w \<and> StopAll shuffle (StopAll shuffle w) = StopAll shuffle w \<and>
    mgr (StopAll shuffle w) = mgr w \<and>
    (\<forall>a < length (heap w). heap (StopAll shuffle w) ! a =
       (if \<exists>k. GetCircuitBreaker k w = Some a then Stop (heap w ! a) else heap w ! a)) \<and>
    (\<forall>k. GetCircuitBreaker k (Remove name w) = (if k = name then None else GetCircuitBreaker k w)) \<and>
    (\<forall>b < length (heap w). heap (Remove name w) ! b =
       (if GetCircuitBreaker name w = Some b then Stop (heap w ! b) else heap w ! b))"
proof (intro conjI allI impI)
  let ?as = "map snd (m_cb (mgr w))"
  show "StopAll shuffle w = StopAll shuffle' w"
    using halt.fold_stop_order [of "shuffle ?as" "shuffle' ?as"] assms(2,3) by (simp add: StopAll_def)
  show "StopAll shuffle (StopAll shuffle w) = StopAll shuffle w"
    using halt.fold_stop_twice by (simp add: StopAll_def)
  show "mgr (StopAll shuffle w) = mgr w" by (simp add: StopAll_def)
next
  fix a assume a: "a < length (heap w)"
  let ?as = "map snd (m_cb (mgr w))"
  have nth: "fold stop_at xs h ! a = (if a \<in> set xs then Stop (h ! a) else h ! a)" if "a < length h" for xs h
    using that by (induction xs arbitrary: h) (auto simp: stop_at_def nth_list_update)
  note mgr_ok_registered [OF assms(1), of a]
  moreover have "set (shuffle ?as) = set ?as" using assms(2) by (metis set_mset_mset)
  ultimately show "heap (StopAll shuffle w) ! a =
       (if \<exists>k. GetCircuitBreaker k w = Some a then Stop (heap w ! a) else heap w ! a)"
    using nth [OF a] by (simp add: StopAll_def)
next
  fix k show "GetCircuitBreaker k (Remove name w) = (if k = name then None else GetCircuitBreaker k w)"
    by (auto simp: Remove_def GetCircuitBreaker_def delete_conv' split: option.splits)
next
  fix b assume "b < length (heap w)"
  then show "heap (Remove name w) ! b = (if GetCircuitBreaker name w = Some b then Stop (heap w ! b) else heap w ! b)"
    by (auto simp: Remove_def GetCircuitBreaker_def stop_at_def nth_list_update split: option.splits)
qed

theorem stop_all_and_remove_witness:
  "GetCircuitBreaker ''omie'' (Remove ''omie'' (snd (manager_NewCircuitBreaker 1 10 1 0 ''omie'' empty_world))) = None \<and>
   StopAll rev (snd (manager_NewCircuitBreaker 1 10 1 0 ''omie'' empty_world)) =
     StopAll id (snd (manager_NewCircuitBreaker 1 10 1 0 ''omie'' empty_world))"
proof -
  let ?w = "snd (manager_NewCircuitBreaker 1 10 1 0 ''omie'' empty_world)"
  have "mgr_ok ?w" by (intro inv_intros empty_world_ok)
  from stop_all_and_remove [OF this, of rev id "''omie''"] show ?thesis by simp
qed

end
