(* ===== verification/Fleet.thy ===== *)
theory Fleet
  imports System_Laws Manager
begin

text \<open>
  A manager in use: the registry of manager.go and spec.go over breakers that run, each with its own
  calls and refiller. Creation is one step under the lock; \<open>Remove\<close> and \<open>StopAll\<close> do their work on
  the registry under the lock and stop the breakers after it, one after the other, while everything
  else goes on.
\<close>

section \<open>State\<close>

text \<open>
  A goroutine inside \<open>Remove\<close> or \<open>StopAll\<close>: the breakers it has yet to stop, and the one whose refiller
  it waits for.
\<close>

datatype stopper = Stopping "addr list" | Awaiting addr "addr list"

record fleet =
  registry :: manager
  members :: "system list"
  stoppers :: "stopper list"
  fleet_now :: gotime

definition world_of :: "fleet \<Rightarrow> world" where
  "world_of f = \<lparr>mgr = registry f, heap = map brk (members f)\<rparr>"

text \<open>The result of an operation that registers breakers: the new ones are idle.\<close>

definition adopt :: "world \<Rightarrow> fleet \<Rightarrow> fleet" where
  "adopt w f = f\<lparr>registry := mgr w, members := members f @ map (\<lambda>cb. new_system cb (fleet_now f)) (drop (length (members f)) (heap w))\<rparr>"

section \<open>Operations\<close>

text \<open>The operations that create, on arguments a client can pass.\<close>

definition package_options :: "go_option list \<Rightarrow> bool" where
  "package_options opts \<longleftrightarrow> (\<forall>opt \<in> set opts. opt = None \<or> (\<exists>f. opt = Some f \<and> package_option f))"

inductive creates :: "(world \<Rightarrow> world) \<Rightarrow> bool" where
  new: "creates (\<lambda>w. snd (manager_NewCircuitBreaker mc mr ws n name w))"
| strict: "creates (\<lambda>w. snd (NewCircuitBreakerStrict mc mr ws n name w))"
| configure: "\<forall>spec \<in> set (map snd specs). package_options (spec_Options spec) \<Longrightarrow>
    creates (\<lambda>w. snd (ConfigureManager shuffle m specs w))"

text \<open>\<open>Remove\<close> up to the release of the lock, and \<open>StopAll\<close> up to its second loop.\<close>

definition remove_begin :: "string \<Rightarrow> fleet \<Rightarrow> fleet" where
  "remove_begin name f =
     (case map_of (m_cb (registry f)) name of
        None \<Rightarrow> f\<lparr>stoppers := stoppers f @ [Stopping []]\<rparr>
      | Some a \<Rightarrow>
          f\<lparr>registry := \<lparr>m_cb = AList.delete name (m_cb (registry f)), m_cfg = AList.delete name (m_cfg (registry f))\<rparr>,
            stoppers := stoppers f @ [Stopping [a]]\<rparr>)"

definition stopAll_begin :: "(addr list \<Rightarrow> addr list) \<Rightarrow> fleet \<Rightarrow> fleet" where
  "stopAll_begin shuffle f = f\<lparr>stoppers := stoppers f @ [Stopping (shuffle (map snd (m_cb (registry f))))]\<rparr>"

text \<open>\<open>cb.Stop()\<close> for the next breaker: the signal, then the wait for the refiller.\<close>

definition stop_member :: "addr \<Rightarrow> fleet \<Rightarrow> fleet" where
  "stop_member a f = f\<lparr>members := (members f)[a := (members f ! a)\<lparr>brk := Stop (brk (members f ! a))\<rparr>]\<rparr>"

definition stopper_step :: "nat \<Rightarrow> fleet \<Rightarrow> fleet option" where
  "stopper_step i f =
     (case stoppers f ! i of
        Stopping [] \<Rightarrow> None
      | Stopping (a # as) \<Rightarrow> Some ((stop_member a f)\<lparr>stoppers := (stoppers f)[i := Awaiting a as]\<rparr>)
      | Awaiting a as \<Rightarrow>
          if Stop_returns (brk (members f ! a)) then Some (f\<lparr>stoppers := (stoppers f)[i := Stopping as]\<rparr>) else None)"

inductive fleet_step :: "fleet \<Rightarrow> fleet \<Rightarrow> bool" where
  created: "creates op \<Longrightarrow> fleet_step f (adopt (op (world_of f)) f)"
| removed: "fleet_step f (remove_begin name f)"
| stopping_all: "\<forall>xs. mset (shuffle xs) = mset xs \<Longrightarrow> fleet_step f (stopAll_begin shuffle f)"
| stopper: "i < length (stoppers f) \<Longrightarrow> stopper_step i f = Some f' \<Longrightarrow> fleet_step f f'"
| member: "a < length (members f) \<Longrightarrow> sys_step (members f ! a) s \<Longrightarrow> now s = fleet_now f \<Longrightarrow>
    fleet_step f (f\<lparr>members := (members f)[a := s]\<rparr>)"
| time: "fleet_now f \<le> t \<Longrightarrow>
    fleet_step f (f\<lparr>members := map (\<lambda>s. s\<lparr>now := t\<rparr>) (members f), fleet_now := t\<rparr>)"

definition new_fleet :: "gotime \<Rightarrow> fleet" where
  "new_fleet t = \<lparr>registry = NewManager, members = [], stoppers = [], fleet_now = t\<rparr>"

section \<open>What creation adds\<close>

text \<open>The configuration registered with a name is the one its breaker has.\<close>

definition config_of :: "circuitBreaker \<Rightarrow> breakerConfig" where
  "config_of cb =
     \<lparr>bc_maxConcurrent = MaxConcurrent cb, bc_maxRequests = maxRequests cb,
      bc_windowSeconds = windowSeconds cb, bc_maxRetries = MaxRetries cb\<rparr>"

definition linked :: "world \<Rightarrow> bool" where
  "linked w \<longleftrightarrow> (\<forall>name a. GetCircuitBreaker name w = Some a \<longrightarrow>
     Name (heap w ! a) = name \<and> map_of (m_cfg (mgr w)) name = Some (config_of (heap w ! a)))"

lemma config_option: "package_option f \<Longrightarrow> Name (f cb) = Name cb \<and> config_of (f cb) = config_of cb"
  by (induction rule: package_option.induct) (simp_all add: config_of_def option_defs Let_def)

lemma config_options:
  "package_options opts \<Longrightarrow> Name (apply_options opts cb) = Name cb \<and> config_of (apply_options opts cb) = config_of cb"
proof (induction opts cb rule: apply_options.induct)
  case (2 opt opts cb)
  then show ?case using config_option by (cases opt) (auto simp: package_options_def)
qed simp

lemma config_new:
  assumes "package_options opts"
  shows "Name (NewCircuitBreakerWithOptions name mc mr ws n opts) = name"
    and "config_of (NewCircuitBreakerWithOptions name mc mr ws n opts) =
      \<lparr>bc_maxConcurrent = mc, bc_maxRequests = mr, bc_windowSeconds = ws, bc_maxRetries = n\<rparr>"
  using config_options [OF assms, of "newCircuitBreaker name mc mr ws n"]
  by (simp_all add: NewCircuitBreakerWithOptions_def config_of_def frame_simps newCircuitBreaker_def)

lemma config_plain:
  "Name (NewCircuitBreaker name mc mr ws n) = name"
  "config_of (NewCircuitBreaker name mc mr ws n) =
      \<lparr>bc_maxConcurrent = mc, bc_maxRequests = mr, bc_windowSeconds = ws, bc_maxRetries = n\<rparr>"
  by (simp_all add: NewCircuitBreaker_def config_of_def frame_simps newCircuitBreaker_def)

lemma linked_register:
  assumes "mgr_ok w" and "linked w" and "Name cb = name" and "config_of cb = cfg"
  shows "linked (snd (register name cb cfg w))"
  unfolding linked_def
proof (intro allI impI)
  fix k a assume g: "GetCircuitBreaker k (snd (register name cb cfg w)) = Some a"
  show "Name (heap (snd (register name cb cfg w)) ! a) = k \<and>
    map_of (m_cfg (mgr (snd (register name cb cfg w)))) k = Some (config_of (heap (snd (register name cb cfg w)) ! a))"
  proof (cases "k = name")
    case True
    with g assms(3,4) show ?thesis by (simp add: register_get) (auto simp: register_def Let_def update_conv')
  next
    case False
    with g have k: "GetCircuitBreaker k w = Some a" by (simp add: register_get)
    then have "a < length (heap w)" using assms(1) mgr_ok_registered [OF assms(1), of a] by (auto simp: mgr_ok_def)
    with k False assms(2) show ?thesis by (auto simp: linked_def register_def Let_def update_conv' nth_append)
  qed
qed

definition made :: "circuitBreaker \<Rightarrow> bool" where
  "made cb \<longleftrightarrow> (\<exists>name mc mr ws n opts. package_options opts \<and> cb = NewCircuitBreakerWithOptions name mc mr ws n opts)"

definition grows_by_made :: "world \<Rightarrow> world \<Rightarrow> bool" where
  "grows_by_made w w' \<longleftrightarrow> mgr_ok w' \<and> linked w' \<and> (\<exists>new. heap w' = heap w @ new \<and> (\<forall>cb \<in> set new. made cb))"

lemma made_new: "made (NewCircuitBreaker name mc mr ws n)"
  unfolding made_def
  by (intro exI [of _ name] exI [of _ mc] exI [of _ mr] exI [of _ ws] exI [of _ n] exI [of _ "[]"])
    (simp add: package_options_def NewCircuitBreaker_def NewCircuitBreakerWithOptions_def)

lemma grows_refl: "mgr_ok w \<Longrightarrow> linked w \<Longrightarrow> grows_by_made w w"
  by (auto simp: grows_by_made_def intro: exI [of _ "[]"])

lemma grows_trans: "grows_by_made w w' \<Longrightarrow> grows_by_made w' w'' \<Longrightarrow> grows_by_made w w''"
  by (fastforce simp: grows_by_made_def)

lemma grows_register:
  assumes "mgr_ok w" and "linked w" and "GetCircuitBreaker name w = None" and "made cb" and "Name cb = name" and "config_of cb = cfg"
  shows "grows_by_made w (snd (register name cb cfg w))"
proof -
  have "heap (snd (register name cb cfg w)) = heap w @ [cb]" by (simp add: register_def Let_def)
  then show ?thesis
    using mgr_ok_register [OF assms(1,3), of cb cfg] linked_register [OF assms(1,2,5,6)] assms(4)
    by (auto simp: grows_by_made_def)
qed

lemma grows_ensure:
  assumes "mgr_ok w" and "linked w" and "package_options (spec_Options spec)"
  shows "grows_by_made w (snd (ensure spec name w))"
proof (cases "GetCircuitBreaker name w")
  case None
  let ?cb = "NewCircuitBreakerWithOptions name (spec_MaxConcurrent spec) (spec_MaxRequests spec)
      (spec_WindowSeconds spec) (spec_MaxRetries spec) (spec_Options spec)"
  have "made ?cb" using assms(3) unfolding made_def by blast
  moreover have "config_of ?cb = spec_config spec" by (simp add: config_new [OF assms(3)] spec_config_def)
  ultimately show ?thesis
    using grows_register [OF assms(1,2) None] config_new(1) [OF assms(3)] None by (simp add: ensure_def GetCircuitBreaker_def)
next
  case (Some a)
  with grows_refl [OF assms(1,2)] show ?thesis by (simp add: ensure_def GetCircuitBreaker_def)
qed

lemma grows_create_all:
  assumes "mgr_ok w" and "linked w" and "\<forall>k. package_options (spec_Options (map_get zero_spec specs k))"
  shows "grows_by_made w (snd (create_all specs names out w))"
  using assms(1,2)
proof (induction names arbitrary: out w)
  case Nil
  then show ?case by (simp add: grows_refl)
next
  case (Cons name names)
  obtain a w1 where e: "ensure (map_get zero_spec specs name) name w = (a, w1)" by fastforce
  then have g: "grows_by_made w w1" using grows_ensure [OF Cons.prems] assms(3) by (metis snd_conv)
  then have "mgr_ok w1" "linked w1" by (simp_all add: grows_by_made_def)
  from grows_trans [OF g Cons.IH [OF this]] e show ?case by simp
qed

lemma creates_grows:
  assumes "creates op" and "mgr_ok w" and "linked w"
  shows "grows_by_made w (op w)"
  using assms(1)
proof cases
  case (new mc mr ws n name)
  show ?thesis
  proof (cases "GetCircuitBreaker name w")
    case None
    with grows_register [OF assms(2,3) None made_new config_plain, of mc mr ws n] new show ?thesis
      by (simp add: manager_NewCircuitBreaker_def GetCircuitBreaker_def)
  qed (use new grows_refl [OF assms(2,3)] in \<open>simp add: manager_NewCircuitBreaker_def GetCircuitBreaker_def\<close>)
next
  case (strict mc mr ws n name)
  show ?thesis
  proof (cases "GetCircuitBreaker name w")
    case None
    with grows_register [OF assms(2,3) None made_new config_plain, of mc mr ws n] strict show ?thesis
      by (auto simp: NewCircuitBreakerStrict_def GetCircuitBreaker_def Let_def split: prod.splits)
  qed (use strict grows_refl [OF assms(2,3)] in \<open>simp add: NewCircuitBreakerStrict_def GetCircuitBreaker_def Let_def\<close>)
next
  case (configure specs shuffle m)
  have "package_options (spec_Options (map_get zero_spec specs k))" for k
  proof (cases "map_of specs k")
    case None
    then show ?thesis by (simp add: map_get_def zero_spec_def package_options_def)
  next
    case (Some spec)
    then have "(k, spec) \<in> set specs" by (rule map_of_SomeD)
    with Some configure(2) show ?thesis by (force simp: map_get_def)
  qed
  then have all: "grows_by_made w (snd (create_all specs names [] w))" for names
    using grows_create_all [OF assms(2,3)] by blast
  show ?thesis
    using configure(1) grows_refl [OF assms(2,3)] all
    by (auto simp: ConfigureManager_def Let_def split: i_manager.splits option.splits prod.splits) (metis snd_conv)
qed

section \<open>The invariant\<close>

text \<open>
  The registry is in order, every breaker runs as a system of its own on the common clock, and the
  stoppers point to breakers.
\<close>

fun stopper_addrs :: "stopper \<Rightarrow> addr list" where
  "stopper_addrs (Stopping as) = as"
| "stopper_addrs (Awaiting a as) = a # as"

definition fleet_inv :: "fleet \<Rightarrow> bool" where
  "fleet_inv f \<longleftrightarrow> mgr_ok (world_of f) \<and> linked (world_of f) \<and>
     (\<forall>s \<in> set (members f). (\<exists>k. sys_run k s) \<and> now s = fleet_now f) \<and>
     (\<forall>p \<in> set (stoppers f). \<forall>a \<in> set (stopper_addrs p). a < length (members f))"

lemma made_runs: "made cb \<Longrightarrow> \<exists>k. sys_run k (new_system cb t)"
  by (auto simp: made_def package_options_def intro: sys_run.start)

lemma mgr_ok_heap: "mgr_ok \<lparr>mgr = m, heap = h\<rparr> \<Longrightarrow> length h \<le> length h' \<Longrightarrow> mgr_ok \<lparr>mgr = m, heap = h'\<rparr>"
  by (auto simp: mgr_ok_def)

lemma adopt_fields [simp]:
  "registry (adopt w f) = mgr w" "stoppers (adopt w f) = stoppers f" "fleet_now (adopt w f) = fleet_now f"
  by (simp_all add: adopt_def)

lemma adopt_members:
  assumes "heap w = map brk (members f) @ new"
  shows "members (adopt w f) = members f @ map (\<lambda>cb. new_system cb (fleet_now f)) new" and "world_of (adopt w f) = w"
  using assms by (simp_all add: adopt_def world_of_def comp_def)

lemma adopt_inv:
  assumes "fleet_inv f" and "grows_by_made (world_of f) w"
  shows "fleet_inv (adopt w f)"
proof -
  obtain new where new: "heap w = map brk (members f) @ new" "\<forall>cb \<in> set new. made cb" and ok: "mgr_ok w" "linked w"
    using assms(2) by (auto simp: grows_by_made_def world_of_def)
  note m = adopt_members [OF new(1)]
  have old: "\<forall>s \<in> set (members f). (\<exists>k. sys_run k s) \<and> now s = fleet_now f"
    and pend: "\<forall>p \<in> set (stoppers f). \<forall>a \<in> set (stopper_addrs p). a < length (members f)"
    using assms(1) by (simp_all add: fleet_inv_def)
  have "\<forall>s \<in> set (map (\<lambda>cb. new_system cb (fleet_now f)) new). (\<exists>k. sys_run k s) \<and> now s = fleet_now f"
    using new(2) made_runs by auto
  with old have "\<forall>s \<in> set (members (adopt w f)). (\<exists>k. sys_run k s) \<and> now s = fleet_now f"
    unfolding m(1) set_append by blast
  moreover have "\<forall>p \<in> set (stoppers f). \<forall>a \<in> set (stopper_addrs p). a < length (members (adopt w f))"
    using pend by (auto simp: m(1) intro: trans_less_add1)
  ultimately show ?thesis using ok by (simp add: fleet_inv_def m(2))
qed

lemma linked_heap: "linked \<lparr>mgr = m, heap = h\<rparr> \<Longrightarrow>
  (\<And>a. Name (h' ! a) = Name (h ! a) \<and> config_of (h' ! a) = config_of (h ! a)) \<Longrightarrow> linked \<lparr>mgr = m, heap = h'\<rparr>"
  by (simp add: linked_def GetCircuitBreaker_def)

lemma remove_begin_inv: "fleet_inv f \<Longrightarrow> fleet_inv (remove_begin name f)"
proof -
  assume inv: "fleet_inv f"
  have "mgr_ok (Remove name (world_of f))" using inv by (intro mgr_ok_Remove) (simp add: fleet_inv_def)
  then have "mgr_ok (world_of (remove_begin name f))"
    by (rule rev_mp)
      (auto simp: Remove_def world_of_def remove_begin_def stop_at_def split: option.splits intro: mgr_ok_heap)
  moreover have "linked (world_of (remove_begin name f))"
    using inv by (auto simp: fleet_inv_def linked_def remove_begin_def world_of_def GetCircuitBreaker_def delete_conv' split: option.splits)
  moreover have "a < length (members f)" if "map_of (m_cb (registry f)) name = Some a" for a
    using inv that by (force simp: fleet_inv_def mgr_ok_def world_of_def dest: map_of_SomeD)
  ultimately show ?thesis using inv by (auto simp: fleet_inv_def remove_begin_def split: option.splits)
qed

lemma shuffle_set: "\<forall>xs. mset (shuffle xs) = mset xs \<Longrightarrow> set (shuffle ys) = set ys"
  by (metis set_mset_mset)

lemma stopAll_begin_inv:
  assumes "fleet_inv f" and "\<forall>xs. mset (shuffle xs) = mset xs"
  shows "fleet_inv (stopAll_begin shuffle f)"
  using assms(1) shuffle_set [OF assms(2), of "map snd (m_cb (registry f))"]
  by (auto simp: fleet_inv_def stopAll_begin_def world_of_def mgr_ok_def)

text \<open>A step of a breaker changes neither its name nor its configuration.\<close>

lemma sys_step_config_of:
  assumes "sys_inv s" and "sys_step s s'"
  shows "Name (brk s') = Name (brk s) \<and> config_of (brk s') = config_of (brk s)"
  using assms(2)
proof cases
  case (call_step i env inp cb c)
  have "reach (brk s) (calls s ! i)" using assms(1) call_step(2) by (simp add: sys_inv_def)
  from do_step_control [OF call_step(4) reach_books [OF this]] have "same_config (brk s) cb"
    by (auto simp: keeps_def)
  moreover have "steady (brk s, calls s ! i) (cb, c)" by (rule do_step_steady [OF call_step(4)])
  ultimately show ?thesis using call_step(1) by (simp add: same_config_def steady_def config_of_def)
next
  case (refilled n cb)
  from refilled(2) show ?thesis by (cases rule: refill_one_cases) (simp_all add: refilled(1) config_of_def)
qed (auto simp: with_call_def config_of_def Stop_def refiller_exit_def split: option.splits)

lemma member_inv:
  assumes "fleet_inv f" and "a < length (members f)" and "sys_step (members f ! a) s" and "now s = fleet_now f"
  shows "fleet_inv (f\<lparr>members := (members f)[a := s]\<rparr>)"
proof -
  have "members f ! a \<in> set (members f)" using assms(2) by simp
  then obtain k where k: "sys_run k (members f ! a)" using assms(1) by (auto simp: fleet_inv_def)
  have old: "linked \<lparr>mgr = registry f, heap = map brk (members f)\<rparr>"
    "mgr_ok \<lparr>mgr = registry f, heap = map brk (members f)\<rparr>"
    using assms(1) by (simp_all add: fleet_inv_def world_of_def)
  have "Name (map brk ((members f)[a := s]) ! b) = Name (map brk (members f) ! b) \<and>
      config_of (map brk ((members f)[a := s]) ! b) = config_of (map brk (members f) ! b)" for b
    using assms(2) sys_step_config_of [OF run_inv [OF k] assms(3)]
    by (cases "b = a") (simp_all add: map_update)
  then have "linked (world_of (f\<lparr>members := (members f)[a := s]\<rparr>))"
    unfolding world_of_def by (simp add: linked_heap [OF old(1)])
  moreover have "mgr_ok (world_of (f\<lparr>members := (members f)[a := s]\<rparr>))"
    unfolding world_of_def by (simp add: mgr_ok_heap [OF old(2)])
  moreover have "sys_run (Suc k) s" by (rule sys_run.step [OF k assms(3)])
  moreover have "\<forall>s' \<in> set ((members f)[a := s]). (\<exists>k. sys_run k s') \<and> now s' = fleet_now f"
    using assms(1,4) calculation(3) set_update_subset_insert [of "members f" a s] unfolding fleet_inv_def by blast
  ultimately show ?thesis using assms(1) by (simp add: fleet_inv_def)
qed

lemma time_inv:
  assumes "fleet_inv f" and "fleet_now f \<le> t"
  shows "fleet_inv (f\<lparr>members := map (\<lambda>s. s\<lparr>now := t\<rparr>) (members f), fleet_now := t\<rparr>)"
proof -
  have "\<exists>k. sys_run k (s\<lparr>now := t\<rparr>)" if "s \<in> set (members f)" for s
    using assms that by (force simp: fleet_inv_def intro: sys_run.step sys_step.time_passes)
  then show ?thesis using assms(1) by (simp add: fleet_inv_def world_of_def comp_def)
qed

lemma stopper_inv:
  assumes "fleet_inv f" and "i < length (stoppers f)" and "stopper_step i f = Some f'"
  shows "fleet_inv f'"
proof -
  have pend: "\<forall>a \<in> set (stopper_addrs (stoppers f ! i)). a < length (members f)"
    using assms(1) nth_mem [OF assms(2)] unfolding fleet_inv_def by blast
  have swap: "fleet_inv g \<Longrightarrow> \<forall>a \<in> set (stopper_addrs p). a < length (members g) \<Longrightarrow>
      fleet_inv (g\<lparr>stoppers := (stoppers g)[i := p]\<rparr>)" for g p
    using set_update_subset_insert [of "stoppers g" i p] by (auto simp: fleet_inv_def world_of_def)
  have stop: "fleet_inv (stop_member a f)" if "a < length (members f)" for a
  proof -
    have "now (members f ! a) = fleet_now f" using assms(1) that by (simp add: fleet_inv_def)
    then show ?thesis using member_inv [OF assms(1) that sys_step.stopped] by (simp add: stop_member_def)
  qed
  show ?thesis
  proof (cases "stoppers f ! i")
    case (Stopping as)
    with assms(3) obtain a as' where a: "as = a # as'" "f' = (stop_member a f)\<lparr>stoppers := (stoppers f)[i := Awaiting a as']\<rparr>"
      by (cases as) (simp_all add: stopper_step_def)
    have "stoppers (stop_member a f) = stoppers f" "length (members (stop_member a f)) = length (members f)"
      by (simp_all add: stop_member_def)
    with a pend Stopping stop [of a] swap [of "stop_member a f" "Awaiting a as'"] show ?thesis by simp
  next
    case (Awaiting a as)
    with assms pend swap [of f "Stopping as"] show ?thesis by (auto simp: stopper_step_def split: if_splits)
  qed
qed

lemma fleet_inv_step: "fleet_step f f' \<Longrightarrow> fleet_inv f \<Longrightarrow> fleet_inv f'"
proof (induction rule: fleet_step.induct)
  case (created op f)
  have "mgr_ok (world_of f)" "linked (world_of f)" using created(2) by (simp_all add: fleet_inv_def)
  from adopt_inv [OF created(2) creates_grows [OF created(1) this]] show ?case .
next
  case (stopper i f f')
  then show ?case using stopper_inv by blast
qed (simp_all add: remove_begin_inv stopAll_begin_inv member_inv time_inv)

lemma fleet_inv_new: "fleet_inv (new_fleet t)"
proof -
  have "world_of (new_fleet t) = \<lparr>mgr = NewManager, heap = []\<rparr>" by (simp add: new_fleet_def world_of_def)
  moreover have "linked \<lparr>mgr = NewManager, heap = []\<rparr>" by (simp add: linked_def GetCircuitBreaker_def NewManager_def)
  ultimately show ?thesis by (simp add: fleet_inv_def mgr_ok_New) (simp add: new_fleet_def)
qed

lemma fleet_steps_inv: "fleet_step\<^sup>*\<^sup>* f f' \<Longrightarrow> fleet_inv f \<Longrightarrow> fleet_inv f'"
  by (induction rule: rtranclp_induct) (use fleet_inv_step in auto)

section \<open>Every breaker runs as a system of its own\<close>

text \<open>What a step of the fleet does to a breaker it has is a run of the breaker's own system.\<close>

lemma stopper_step_cases:
  assumes "stopper_step i f = Some f'" and "i < length (stoppers f)"
  obtains (signal) a as where "stoppers f ! i = Stopping (a # as)" "stoppers f' ! i = Awaiting a as"
      "members f' = (members f)[a := (members f ! a)\<lparr>brk := Stop (brk (members f ! a))\<rparr>]"
  | (wait) a as where "stoppers f ! i = Awaiting a as" "stoppers f' ! i = Stopping as" "members f' = members f"
      "Stop_returns (brk (members f ! a))"
  using assms by (auto simp: stopper_step_def stop_member_def split: stopper.splits list.splits if_splits)

lemma fleet_step_member:
  assumes "fleet_step f f'" and "fleet_inv f" and "a < length (members f)"
  shows "a < length (members f')" and "members f' ! a = members f ! a \<or> sys_step (members f ! a) (members f' ! a)"
proof -
  have "a < length (members f') \<and> (members f' ! a = members f ! a \<or> sys_step (members f ! a) (members f' ! a))"
    using assms(1)
  proof cases
    case (created op)
    have "mgr_ok (world_of f)" "linked (world_of f)" using assms(2) by (simp_all add: fleet_inv_def)
    from creates_grows [OF created(2) this] obtain new where "heap (op (world_of f)) = map brk (members f) @ new"
      by (auto simp: grows_by_made_def world_of_def)
    from adopt_members(1) [OF this] created(1) assms(3) show ?thesis by (simp add: nth_append)
  next
    case (stopper i)
    from stopper(2,1) show ?thesis
    proof (cases rule: stopper_step_cases)
      case (signal b bs)
      with assms(3) show ?thesis by (cases "b = a") (auto intro: sys_step.stopped)
    qed (use assms(3) in simp)
  next
    case (member b s)
    then show ?thesis using assms(3) by (auto simp: nth_list_update)
  next
    case (time t)
    have "now (members f ! a) = fleet_now f" using assms(2,3) by (simp add: fleet_inv_def)
    with time assms(3) show ?thesis by (auto intro!: sys_step.time_passes)
  qed (use assms(3) in \<open>auto simp: remove_begin_def stopAll_begin_def split: option.splits\<close>)
  then show "a < length (members f')" "members f' ! a = members f ! a \<or> sys_step (members f ! a) (members f' ! a)" by simp_all
qed

lemma fleet_step_members:
  assumes "fleet_step f f'" and "fleet_inv f"
  shows "length (members f) \<le> length (members f')"
    and "a < length (members f) \<Longrightarrow> sys_step\<^sup>*\<^sup>* (members f ! a) (members f' ! a)"
proof -
  show "length (members f) \<le> length (members f')"
    using fleet_step_member(1) [OF assms, of "length (members f')"] by fastforce
  show "sys_step\<^sup>*\<^sup>* (members f ! a) (members f' ! a)" if "a < length (members f)"
    using fleet_step_member(2) [OF assms that] by auto
qed

lemma fleet_steps_members:
  assumes "fleet_step\<^sup>*\<^sup>* f f'" and "fleet_inv f" and "a < length (members f)"
  shows "a < length (members f') \<and> sys_step\<^sup>*\<^sup>* (members f ! a) (members f' ! a)"
  using assms(1)
proof (induction rule: rtranclp_induct)
  case (step f1 f2)
  have "fleet_inv f1" using fleet_steps_inv [OF step(1) assms(2)] .
  from fleet_step_members [OF step(2) this] step(3) show ?case by (meson order_less_le_trans rtranclp_trans)
qed (simp add: assms(3))

lemma fleet_run_member:
  assumes "fleet_inv f" and "a < length (members f)"
  shows "\<exists>k. sys_run k (members f ! a)"
  using assms by (simp add: fleet_inv_def)

section \<open>The stoppers\<close>

definition stop_called :: "circuitBreaker \<Rightarrow> bool" where
  "stop_called cb \<longleftrightarrow> tokenStop cb \<noteq> Some False"

definition halted :: "system \<Rightarrow> bool" where
  "halted s \<longleftrightarrow> stop_called (brk s) \<and> refiller_gone s"

lemma called_step: "sys_step s s' \<Longrightarrow> stop_called (brk s) \<Longrightarrow> stop_called (brk s')"
proof (induction rule: sys_step.induct)
  case (call_step i s env inp cb c)
  then show ?case using call_step_steady [of env inp s _ cb c] by (simp add: stop_called_def)
next
  case (refilled s n cb)
  then show ?case using refill_one_same(11) [OF refilled(1)] by (simp add: stop_called_def)
qed (auto simp: with_call_def Stop_def refiller_exit_def stop_called_def split: option.splits)

lemma steps_stop:
  assumes "sys_step\<^sup>*\<^sup>* s s'"
  shows "stop_called (brk s) \<Longrightarrow> stop_called (brk s')" and "halted s \<Longrightarrow> halted s'"
proof -
  show called: "stop_called (brk s')" if "stop_called (brk s)"
    using assms that by (induction rule: rtranclp_induct) (use called_step in auto)
  show "halted s'" if "halted s"
    using that called stopped_steps [OF assms] by (simp add: halted_def)
qed

lemma returned_halted: "sys_run k s \<Longrightarrow> stop_called (brk s) \<Longrightarrow> Stop_returns (brk s) \<Longrightarrow> halted s"
  using run_channel [of k s] gone_iff [of k s] by (auto simp: channel_ok_def Stop_returns_def halted_def)

lemma Stop_called: "sys_run k s \<Longrightarrow> stop_called (Stop (brk s))"
  using run_channel [of k s] by (auto simp: channel_ok_def stop_called_def Stop_def split: option.splits)

text \<open>A stopper only moves by its own steps.\<close>

lemma fleet_step_stoppers:
  assumes "fleet_step f f'" and "i < length (stoppers f)"
  shows "i < length (stoppers f') \<and> (stoppers f' ! i = stoppers f ! i \<or> stopper_step i f = Some f')"
  using assms(1)
proof cases
  case (stopper j)
  then show ?thesis
    using assms(2)
    by (cases "j = i") (auto simp: stopper_step_def split: stopper.splits list.splits if_splits)
qed (use assms(2) in \<open>auto simp: remove_begin_def stopAll_begin_def nth_append split: option.splits\<close>)

inductive_cases fleet_stepE: "fleet_step f f'"

text \<open>Who waits has called \<open>Stop\<close>.\<close>

definition awaited :: "fleet \<Rightarrow> bool" where
  "awaited f \<longleftrightarrow> (\<forall>i < length (stoppers f). \<forall>a as. stoppers f ! i = Awaiting a as \<longrightarrow> stop_called (brk (members f ! a)))"

lemma stopper_addr:
  assumes "fleet_inv f" and "i < length (stoppers f)" and "a \<in> set (stopper_addrs (stoppers f ! i))"
  shows "a < length (members f)"
  using assms(1,3) nth_mem [OF assms(2)] unfolding fleet_inv_def by blast

lemma new_stopper:
  assumes "fleet_step f f'" and "length (stoppers f) \<le> i" and "i < length (stoppers f')"
  shows "\<exists>as. stoppers f' ! i = Stopping as"
  using assms(1)
proof cases
  case (stopper j)
  then show ?thesis using assms(2,3) by (auto simp: stopper_step_def stop_member_def split: stopper.splits list.splits if_splits)
qed (use assms(2,3) in \<open>auto simp: remove_begin_def stopAll_begin_def nth_append split: option.splits if_splits\<close>)

lemma awaited_step:
  assumes "fleet_step f f'" and "fleet_inv f" and "awaited f"
  shows "awaited f'"
  unfolding awaited_def
proof (intro allI impI)
  fix i a as assume i: "i < length (stoppers f')" and w: "stoppers f' ! i = Awaiting a as"
  have old: "i < length (stoppers f)"
  proof (rule ccontr)
    assume "\<not> i < length (stoppers f)"
    with new_stopper [OF assms(1) _ i] w show False by simp
  qed
  from fleet_step_stoppers [OF assms(1) old]
  consider "stoppers f ! i = Awaiting a as" | "stopper_step i f = Some f'" using w by auto
  then show "stop_called (brk (members f' ! a))"
  proof cases
    case 1
    then have "stop_called (brk (members f ! a))" using assms(3) old by (simp add: awaited_def)
    moreover have "a < length (members f)" using stopper_addr [OF assms(2) old] 1 by simp
    ultimately show ?thesis
      using steps_stop(1) [OF fleet_step_members(2) [OF assms(1,2)]] by blast
  next
    case 2
    from 2 old show ?thesis
    proof (cases rule: stopper_step_cases)
      case (signal b bs)
      then have "b = a" using w by simp
      moreover have "b < length (members f)" using stopper_addr [OF assms(2) old] signal(1) by simp
      moreover from this have "stop_called (Stop (brk (members f ! b)))" using Stop_called fleet_run_member [OF assms(2)] by blast
      ultimately show ?thesis using signal(3) by simp
    qed (use w in simp)
  qed
qed

lemma fleet_reach:
  assumes "fleet_step\<^sup>*\<^sup>* (new_fleet t) f"
  shows "fleet_inv f" and "awaited f"
proof -
  from assms have "fleet_inv f \<and> awaited f"
  proof (induction rule: rtranclp_induct)
    case base
    show ?case using fleet_inv_new by (simp add: awaited_def) (simp add: new_fleet_def)
  next
    case (step f1 f2)
    then show ?case using fleet_inv_step awaited_step by blast
  qed
  then show "fleet_inv f" and "awaited f" by simp_all
qed

text \<open>A breaker that a goroutine has to stop is still to be stopped, or halted.\<close>

definition to_halt :: "nat \<Rightarrow> addr \<Rightarrow> fleet \<Rightarrow> bool" where
  "to_halt i a f \<longleftrightarrow> i < length (stoppers f) \<and> a < length (members f) \<and>
     (a \<in> set (stopper_addrs (stoppers f ! i)) \<or> halted (members f ! a))"

lemma to_halt_step:
  assumes "fleet_step f f'" and "fleet_inv f" and "awaited f" and "to_halt i a f"
  shows "to_halt i a f'"
proof -
  have i: "i < length (stoppers f)" and a: "a < length (members f)" using assms(4) by (simp_all add: to_halt_def)
  have a': "a < length (members f')" using fleet_step_members(1) [OF assms(1,2)] a by simp
  note i' = fleet_step_stoppers [OF assms(1) i]
  have stays: "halted (members f ! a) \<Longrightarrow> halted (members f' ! a)"
    by (rule steps_stop(2) [OF fleet_step_members(2) [OF assms(1,2) a]])
  show ?thesis
  proof (cases "halted (members f ! a)")
    case True
    with stays a' i' show ?thesis by (simp add: to_halt_def)
  next
    case False
    then have mem: "a \<in> set (stopper_addrs (stoppers f ! i))" using assms(4) by (simp add: to_halt_def)
    from i' consider "stoppers f' ! i = stoppers f ! i" | "stopper_step i f = Some f'" by blast
    then show ?thesis
    proof cases
      case 1
      with mem a' i' show ?thesis by (simp add: to_halt_def)
    next
      case 2
      from 2 i show ?thesis
      proof (cases rule: stopper_step_cases)
        case (signal b bs)
        with mem a' i' show ?thesis by (simp add: to_halt_def)
      next
        case (wait b bs)
        have "stop_called (brk (members f ! b))" using assms(3) i wait(1) by (simp add: awaited_def)
        moreover have "b < length (members f)" using stopper_addr [OF assms(2) i] wait(1) by simp
        ultimately have "halted (members f ! b)" using returned_halted fleet_run_member [OF assms(2)] wait(4) by blast
        with False mem wait a' i' show ?thesis by (auto simp: to_halt_def)
      qed
    qed
  qed
qed

lemma to_halt_steps:
  assumes "fleet_step\<^sup>*\<^sup>* f f'" and "fleet_inv f" and "awaited f" and "to_halt i a f"
  shows "to_halt i a f'"
proof -
  from assms(1) have "fleet_inv f' \<and> awaited f' \<and> to_halt i a f'"
  proof (induction rule: rtranclp_induct)
    case (step f1 f2)
    then show ?case using fleet_inv_step awaited_step to_halt_step by blast
  qed (simp add: assms)
  then show ?thesis by simp
qed


fun work :: "stopper \<Rightarrow> nat" where
  "work (Stopping as) = 2 * length as"
| "work (Awaiting a as) = Suc (2 * length as)"

lemma stopper_works: "stopper_step i f = Some f' \<Longrightarrow> i < length (stoppers f) \<Longrightarrow> work (stoppers f' ! i) < work (stoppers f ! i)"
  by (erule stopper_step_cases) simp_all

text \<open>A breaker can make several steps of its own while the clock stands.\<close>

lemma member_steps:
  assumes "fleet_inv f" and "a < length (members f)" and "sys_step\<^sup>*\<^sup>* (members f ! a) s" and "now s = fleet_now f"
  shows "fleet_step\<^sup>*\<^sup>* f (f\<lparr>members := (members f)[a := s]\<rparr>)"
  using assms(3,4)
proof (induction rule: rtranclp_induct)
  case base
  then show ?case by simp
next
  case (step s1 s2)
  have t: "now (members f ! a) = fleet_now f" using assms(1,2) by (simp add: fleet_inv_def)
  have "now s1 = fleet_now f" using sys_steps_now [OF step(1)] sys_step_now [OF step(2)] step(4) t by simp
  with step.IH have "fleet_step\<^sup>*\<^sup>* f (f\<lparr>members := (members f)[a := s1]\<rparr>)" by simp
  moreover have "fleet_step (f\<lparr>members := (members f)[a := s1]\<rparr>) (f\<lparr>members := (members f)[a := s2]\<rparr>)"
    using fleet_step.member [of a "f\<lparr>members := (members f)[a := s1]\<rparr>" s2] assms(2) step(2,4) by simp
  ultimately show ?case by (rule rtranclp.rtrancl_into_rtrancl)
qed

text \<open>The refiller a stopper waits for can leave, because the channel is closed.\<close>

lemma awaited_leaves:
  assumes "fleet_inv f" and "awaited f" and "i < length (stoppers f)" and "stoppers f ! i = Awaiting a as"
  shows "\<exists>s. inner_step\<^sup>*\<^sup>* (members f ! a) s \<and> Stop_returns (brk s) \<and> now s = fleet_now f \<and> calls s = calls (members f ! a)"
proof (cases "Stop_returns (brk (members f ! a))")
  case False
  have a: "a < length (members f)" using stopper_addr [OF assms(1,3)] assms(4) by simp
  then obtain k where k: "sys_run k (members f ! a)" using fleet_run_member [OF assms(1)] by blast
  have t: "now (members f ! a) = fleet_now f" using assms(1) a by (simp add: fleet_inv_def)
  have "stop_called (brk (members f ! a))" using assms(2-4) by (simp add: awaited_def)
  then have stop: "tokenStop (brk (members f ! a)) = Some True"
    using False by (cases "tokenStop (brk (members f ! a))") (auto simp: stop_called_def Stop_returns_def)
  have "tokens (brk (members f ! a)) \<noteq> None" using run_channel [OF k] stop by (simp add: channel_ok_def)
  from refiller_leaves [OF stop this] t show ?thesis by (auto simp: refiller_gone_def Stop_returns_def)
next
  case True
  have "a < length (members f)" using stopper_addr [OF assms(1,3)] assms(4) by simp
  then have "now (members f ! a) = fleet_now f" using assms(1) by (simp add: fleet_inv_def)
  with True show ?thesis by blast
qed

text \<open>A waiting stopper goes on once the refiller has left.\<close>

lemma stopper_goes_on:
  assumes "fleet_inv f" and "awaited f" and "i < length (stoppers f)" and "stoppers f ! i \<noteq> Stopping []"
  shows "\<exists>f'. fleet_step\<^sup>*\<^sup>* f f' \<and> i < length (stoppers f') \<and> work (stoppers f' ! i) < work (stoppers f ! i)"
proof -
  have own: "\<exists>f'. fleet_step\<^sup>*\<^sup>* g f' \<and> i < length (stoppers f') \<and> work (stoppers f' ! i) < work (stoppers f ! i)"
    if "stoppers g = stoppers f" "stopper_step i g = Some f'" for g f'
  proof (intro exI conjI)
    show "fleet_step\<^sup>*\<^sup>* g f'" using fleet_step.stopper that assms(3) by auto
    show "i < length (stoppers f')" using fleet_step_stoppers [OF fleet_step.stopper [OF _ that(2)]] that(1) assms(3) by simp
    show "work (stoppers f' ! i) < work (stoppers f ! i)" using stopper_works [OF that(2)] that(1) assms(3) by simp
  qed
  show ?thesis
  proof (cases "stoppers f ! i")
    case (Stopping as)
    with assms(4) obtain a as' where "as = a # as'" by (cases as) simp_all
    with Stopping own [of f] show ?thesis by (simp add: stopper_step_def)
  next
    case (Awaiting a as)
    have a: "a < length (members f)" using stopper_addr [OF assms(1,3)] Awaiting by simp
    obtain s where s: "inner_step\<^sup>*\<^sup>* (members f ! a) s" "Stop_returns (brk s)" "now s = fleet_now f"
      using awaited_leaves [OF assms(1-3) Awaiting] by blast
    let ?g = "f\<lparr>members := (members f)[a := s]\<rparr>"
    have steps: "fleet_step\<^sup>*\<^sup>* f ?g" using member_steps [OF assms(1) a inner_steps_sys [OF s(1)] s(3)] .
    have "Stop_returns (brk (members ?g ! a))" using a s(2) by simp
    with own [of ?g] Awaiting obtain f' where "fleet_step\<^sup>*\<^sup>* ?g f'" "i < length (stoppers f')"
      "work (stoppers f' ! i) < work (stoppers f ! i)" by (auto simp: stopper_step_def)
    with steps show ?thesis by (meson rtranclp_trans)
  qed
qed

lemma fleet_steps_awaited: "fleet_step\<^sup>*\<^sup>* f g \<Longrightarrow> fleet_inv f \<and> awaited f \<Longrightarrow> fleet_inv g \<and> awaited g"
  by (induction rule: rtranclp_induct) (use fleet_inv_step awaited_step in blast)+

interpretation stopping: progress fleet_step "\<lambda>f. (fleet_inv f \<and> awaited f) \<and> i < length (stoppers f)"
  "\<lambda>f. stoppers f ! i = Stopping []" "\<lambda>f. work (stoppers f ! i)" for i
proof
  fix f assume "(fleet_inv f \<and> awaited f) \<and> i < length (stoppers f)" "stoppers f ! i \<noteq> Stopping []"
  with stopper_goes_on [of f i] fleet_steps_awaited [of f]
  show "\<exists>g. fleet_step\<^sup>*\<^sup>* f g \<and> ((fleet_inv g \<and> awaited g) \<and> i < length (stoppers g)) \<and> work (stoppers g ! i) < work (stoppers f ! i)"
    by blast
qed

lemma stopper_ends:
  "fleet_inv f \<Longrightarrow> awaited f \<Longrightarrow> i < length (stoppers f) \<Longrightarrow> \<exists>f'. fleet_step\<^sup>*\<^sup>* f f' \<and> stoppers f' ! i = Stopping []"
  using stopping.reaches by blast

section \<open>Against the registry alone\<close>

text \<open>With nothing in between, the stops of a \<open>StopAll\<close> do to the heap what \<open>StopAll\<close> of the registry does.\<close>

lemma stop_members_heap:
  "\<forall>a \<in> set as. a < length (members f) \<Longrightarrow>
     world_of (fold stop_member as f) = (world_of f)\<lparr>heap := fold stop_at as (heap (world_of f))\<rparr>"
proof (induction as arbitrary: f)
  case (Cons a as)
  have "world_of (stop_member a f) = (world_of f)\<lparr>heap := stop_at a (heap (world_of f))\<rparr>"
    using Cons.prems by (simp add: world_of_def stop_member_def stop_at_def map_update)
  moreover have "\<forall>b \<in> set as. b < length (members (stop_member a f))" using Cons.prems by (simp add: stop_member_def)
  ultimately show ?case using Cons.IH by simp
qed simp

section \<open>Properties\<close>

text \<open>C17: Every breaker of a manager runs as a breaker of its own: whatever the clients create, remove and
  stop, and however the calls interleave, a registered name leads to a breaker with this name and
  with the configuration registered for it, which is in a state that its own steps reach from a new
  breaker, and between any two states of the manager it makes only its own steps. So all that holds
  of a breaker holds of each breaker of a manager; its bulkhead, for one, is the registered one.\<close>

theorem manager_breakers_run:
  assumes "fleet_step\<^sup>*\<^sup>* (new_fleet t) f" and "GetCircuitBreaker name (world_of f) = Some a"
  shows "(\<exists>k. sys_run k (members f ! a)) \<and> Name (brk (members f ! a)) = name \<and>
    (\<exists>cfg. map_of (m_cfg (registry f)) name = Some cfg \<and> cfg = config_of (brk (members f ! a)) \<and>
       (0 < bc_maxConcurrent cfg \<longrightarrow>
          int (length (filter (\<lambda>c. inside (c_pc c)) (calls (members f ! a)))) \<le> bc_maxConcurrent cfg)) \<and>
    (\<forall>f'. fleet_step\<^sup>*\<^sup>* f f' \<longrightarrow> sys_step\<^sup>*\<^sup>* (members f ! a) (members f' ! a))"
proof -
  note inv = fleet_reach(1) [OF assms(1)]
  have w: "mgr_ok (world_of f)" "linked (world_of f)" using inv by (simp_all add: fleet_inv_def)
  have "a < length (heap (world_of f))" using mgr_ok_registered [OF w(1), of a] assms(2) w(1) by (auto simp: mgr_ok_def)
  then have a: "a < length (members f)" by (simp add: world_of_def)
  then obtain k where k: "sys_run k (members f ! a)" using fleet_run_member [OF inv] by blast
  have "Name (heap (world_of f) ! a) = name \<and> map_of (m_cfg (mgr (world_of f))) name = Some (config_of (heap (world_of f) ! a))"
    using w(2) assms(2) unfolding linked_def by blast
  then have cfg: "Name (brk (members f ! a)) = name" "map_of (m_cfg (registry f)) name = Some (config_of (brk (members f ! a)))"
    using a by (simp_all add: world_of_def)
  then show ?thesis
    using k inside_bounded [OF k] fleet_steps_members [OF _ inv a] by (auto simp: config_of_def)
qed

definition shop :: fleet where
  "shop = adopt (snd (manager_NewCircuitBreaker 50 200 30 5 ''google'' (world_of (new_fleet 0)))) (new_fleet 0)"

lemma shop_reached: "fleet_step\<^sup>*\<^sup>* (new_fleet 0) shop"
  unfolding shop_def by (rule r_into_rtranclp, rule fleet_step.created, rule creates.new)

lemma shop_google: "GetCircuitBreaker ''google'' (world_of shop) = Some 0"
  by (simp add: shop_def adopt_def world_of_def new_fleet_def NewManager_def manager_NewCircuitBreaker_def register_def
      GetCircuitBreaker_def Let_def)

theorem manager_breakers_run_witness:
  "\<exists>k. sys_run k (members shop ! 0) \<and> Name (brk (members shop ! 0)) = ''google''"
  using manager_breakers_run [OF shop_reached shop_google] by blast

text \<open>C18: What a client can rely on when \<open>Remove\<close> or \<open>StopAll\<close> has returned: each breaker it was to stop has
  been told to stop and its refiller has ended, and this stays so, whatever calls, creations and
  other stops went on in the meantime and go on later.\<close>

theorem stop_completes:
  assumes "fleet_step\<^sup>*\<^sup>* (new_fleet t) f0" and "GetCircuitBreaker name (world_of f0) = Some a"
    and "f1 = remove_begin name f0 \<or> (\<forall>xs. mset (shuffle xs) = mset xs) \<and> f1 = stopAll_begin shuffle f0"
    and "fleet_step\<^sup>*\<^sup>* f1 f" and "stoppers f ! length (stoppers f0) = Stopping []" and "fleet_step\<^sup>*\<^sup>* f f'"
  shows "halted (members f' ! a) \<and> n_ticks (members f' ! a) = n_ticks (members f ! a)"
proof -
  let ?i = "length (stoppers f0)"
  note r0 = fleet_reach [OF assms(1)]
  have w: "mgr_ok (world_of f0)" using r0(1) by (simp add: fleet_inv_def)
  then have mem: "a \<in> set (map snd (m_cb (registry f0)))" "a < length (members f0)"
    using mgr_ok_registered [OF w, of a] assms(2) w by (auto simp: mgr_ok_def world_of_def)
  have step: "fleet_step f0 f1" using assms(3) by (auto intro: fleet_step.intros)
  have "to_halt ?i a f1"
    using assms(2,3) mem shuffle_set [of shuffle]
    by (auto simp: to_halt_def remove_begin_def stopAll_begin_def world_of_def GetCircuitBreaker_def simp del: set_map)
  note r1 = fleet_inv_step [OF step r0(1)] awaited_step [OF step r0]
  note h = to_halt_steps [OF assms(4) r1 \<open>to_halt ?i a f1\<close>]
  then have a: "a < length (members f)" "halted (members f ! a)" using assms(5) by (simp_all add: to_halt_def)
  have inv: "fleet_inv f" by (rule fleet_steps_inv [OF assms(4) r1(1)])
  have "sys_step\<^sup>*\<^sup>* (members f ! a) (members f' ! a)" using fleet_steps_members [OF assms(6) inv a(1)] by simp
  with steps_stop(2) [OF this a(2)] stopped_steps [OF this] a(2) show ?thesis
    by (simp add: halted_def)
qed

theorem stop_completes_witness:
  "\<exists>f. fleet_step\<^sup>*\<^sup>* (stopAll_begin id shop) f \<and> halted (members f ! 0)"
proof -
  have id: "\<forall>xs :: addr list. mset (id xs) = mset xs" by simp
  note r = fleet_reach [OF shop_reached]
  have step: "fleet_step shop (stopAll_begin id shop)" by (rule fleet_step.stopping_all [OF id])
  have one: "length (stoppers shop) < length (stoppers (stopAll_begin id shop))" by (simp add: stopAll_begin_def)
  from stopper_ends [OF fleet_inv_step [OF step r(1)] awaited_step [OF step r] one]
  obtain f where f: "fleet_step\<^sup>*\<^sup>* (stopAll_begin id shop) f" "stoppers f ! length (stoppers shop) = Stopping []" by blast
  have "halted (members f ! 0)"
    using stop_completes [OF shop_reached shop_google, of "stopAll_begin id shop" id f f] f id by simp
  with f(1) show ?thesis by blast
qed

text \<open>\<open>Remove\<close> and \<open>StopAll\<close> return: in every state a manager can reach, a goroutine inside one of
  them is never stuck for good, it can go on to its end.\<close>

theorem stop_terminates:
  assumes "fleet_step\<^sup>*\<^sup>* (new_fleet t) f" and "i < length (stoppers f)"
  shows "\<exists>f'. fleet_step\<^sup>*\<^sup>* f f' \<and> stoppers f' ! i = Stopping []"
  using stopper_ends [OF fleet_reach [OF assms(1)] assms(2)] .

theorem stop_terminates_witness:
  "\<exists>f'. fleet_step\<^sup>*\<^sup>* (remove_begin ''google'' shop) f' \<and> stoppers f' ! 0 = Stopping []"
proof -
  have "fleet_step\<^sup>*\<^sup>* (new_fleet 0) (remove_begin ''google'' shop)"
    using shop_reached fleet_step.removed by (rule rtranclp.rtrancl_into_rtrancl)
  moreover have "0 < length (stoppers (remove_begin ''google'' shop))"
    by (simp add: remove_begin_def split: option.splits)
  ultimately show ?thesis by (rule stop_terminates)
qed

end
