(* ===== verification/Fake_Server.thy ===== *)
theory Fake_Server
  imports Go_Time Go_Float Go_Strings
begin

text \<open>
  The counters of the test server of internal/fakeserver.go: what a request does when it arrives
  and when it ends, the monitor that runs every second, the delay bounds, binding and closing.
  Sockets and printing are left out; the outcome of \<open>net.Listen\<close> and the random draw are arguments.
\<close>

section \<open>The server\<close>

record fakeServer =
  currentConnections :: int
  maxSimultaneous :: int
  requestsPerSecond :: int
  maxRequestsPerSecond :: int
  totalRequests :: int
  startTime :: gotime
  server_Addr :: string
  fs_listener :: "string option"
  minDelay :: duration
  maxDelay :: duration
  fs_done :: bool

text \<open>\<open>fmt.Sprintf("%s:%d", server, port)\<close>.\<close>

definition show_int :: "int \<Rightarrow> string" where
  "show_int n = (if n < 0 then CHR ''-'' # dec_text (nat (- n)) else dec_text (nat n))"

definition NewFakeServer :: "gotime \<Rightarrow> string \<Rightarrow> int \<Rightarrow> fakeServer" where
  "NewFakeServer now server port =
     \<lparr>currentConnections = 0, maxSimultaneous = 0, requestsPerSecond = 0, maxRequestsPerSecond = 0,
      totalRequests = 0, startTime = now, server_Addr = server @ '':'' @ show_int port, fs_listener = None,
      minDelay = 1 * second, maxDelay = 5 * second, fs_done = False\<rparr>"

definition SetDelay :: "duration \<Rightarrow> duration \<Rightarrow> fakeServer \<Rightarrow> fakeServer" where
  "SetDelay low high f =
     (let high = (if high < low then low else high) in f\<lparr>minDelay := low, maxDelay := high\<rparr>)"

text \<open>
  \<open>handle\<close>: the update on arrival, the delay it sleeps (\<open>None\<close> when \<open>rand.Int63n\<close> panics, on an
  argument that is not positive), the deferred update at the end.
\<close>

definition handle_begin :: "fakeServer \<Rightarrow> fakeServer" where
  "handle_begin f =
     (let f = f\<lparr>currentConnections := currentConnections f + 1,
                requestsPerSecond := requestsPerSecond f + 1,
                totalRequests := totalRequests f + 1\<rparr>
      in if maxSimultaneous f < currentConnections f then f\<lparr>maxSimultaneous := currentConnections f\<rparr> else f)"

definition handle_delay :: "(int \<Rightarrow> int) \<Rightarrow> fakeServer \<Rightarrow> duration option" where
  "handle_delay rand_Int63n f =
     (if minDelay f < maxDelay f then
        let n = wrap64 (wrap64 (maxDelay f - minDelay f) + 1)
        in if n \<le> 0 then None else Some (wrap64 (minDelay f + rand_Int63n n))
      else Some (minDelay f))"

definition handle_end :: "fakeServer \<Rightarrow> fakeServer" where
  "handle_end f = f\<lparr>currentConnections := currentConnections f - 1\<rparr>"

text \<open>One tick of \<open>reset\<close>.\<close>

definition reset_tick :: "fakeServer \<Rightarrow> fakeServer" where
  "reset_tick f =
     (let f = (if maxRequestsPerSecond f < requestsPerSecond f
               then f\<lparr>maxRequestsPerSecond := requestsPerSecond f\<rparr> else f)
      in f\<lparr>requestsPerSecond := 0\<rparr>)"

text \<open>What one tick of \<open>stats\<close> prints: the two maxima and the average.\<close>

definition stats_tick :: "gotime \<Rightarrow> fakeServer \<Rightarrow> int \<times> int \<times> float64" where
  "stats_tick now f =
     (let elapsed = Seconds (time_sub now (startTime f));
          avg = (if 0 < elapsed then fdiv (float_of_int (totalRequests f)) elapsed else 0)
      in (maxSimultaneous f, maxRequestsPerSecond f, avg))"

text \<open>\<open>bind\<close>, \<open>Addr\<close> and \<open>Close\<close>.\<close>

datatype bind_error = ListenFailed string string

definition bind :: "(string \<Rightarrow> string + string) \<Rightarrow> fakeServer \<Rightarrow> (bind_error + fakeServer)" where
  "bind net_Listen f =
     (case net_Listen (server_Addr f) of
        Inl err \<Rightarrow> Inl (ListenFailed (server_Addr f) err)
      | Inr l \<Rightarrow> Inr (f\<lparr>fs_listener := Some l\<rparr>))"

definition Addr :: "fakeServer \<Rightarrow> string" where
  "Addr f = (case fs_listener f of None \<Rightarrow> '''' | Some l \<Rightarrow> l)"

definition Close :: "fakeServer \<Rightarrow> fakeServer" where
  "Close f = f\<lparr>fs_done := True\<rparr>"

section \<open>Histories\<close>

text \<open>The events of a server, in the order of the lock: a request ends only after it has begun.\<close>

datatype fs_event = Begin | End | Second

fun fs_run :: "fs_event list \<Rightarrow> fakeServer \<Rightarrow> fakeServer" where
  "fs_run [] f = f"
| "fs_run (Begin # evs) f = fs_run evs (handle_begin f)"
| "fs_run (End # evs) f = fs_run evs (handle_end f)"
| "fs_run (Second # evs) f = fs_run evs (reset_tick f)"

definition level :: "fs_event list \<Rightarrow> int" where
  "level evs = int (count_list evs Begin) - int (count_list evs End)"

definition this_second :: "fs_event list \<Rightarrow> int" where
  "this_second evs = int (length (filter ((=) Begin) (takeWhile ((\<noteq>) Second) (rev evs))))"

text \<open>The highest level of open requests, and the highest number of requests in a closed second.\<close>

definition peak_level :: "fs_event list \<Rightarrow> int" where
  "peak_level evs = Max ((\<lambda>k. level (take k evs)) ` {..length evs})"

definition peak_rate :: "fs_event list \<Rightarrow> int" where
  "peak_rate evs = Max (insert 0 ((\<lambda>k. this_second (take k evs)) ` {k. k < length evs \<and> evs ! k = Second}))"

lemma fs_run_append [simp]: "fs_run (evs @ fs) f = fs_run fs (fs_run evs f)"
  by (induction evs f rule: fs_run.induct) simp_all

lemma peak_level_snoc: "peak_level (evs @ [e]) = max (peak_level evs) (level (evs @ [e]))"
proof -
  have "(\<lambda>k. level (take k (evs @ [e]))) ` {..length (evs @ [e])} =
      insert (level (evs @ [e])) ((\<lambda>k. level (take k evs)) ` {..length evs})"
    by (auto simp: atMost_Suc image_insert intro!: image_cong)
  then show ?thesis by (simp add: peak_level_def max.commute)
qed

lemma peak_rate_snoc:
  "peak_rate (evs @ [e]) = (if e = Second then max (peak_rate evs) (this_second evs) else peak_rate evs)"
proof -
  let ?S = "\<lambda>evs. {k. k < length evs \<and> evs ! k = Second}"
  let ?R = "(\<lambda>k. this_second (take k evs)) ` ?S evs"
  have "?S (evs @ [e]) = (if e = Second then insert (length evs) (?S evs) else ?S evs)"
    by (auto simp: nth_append less_Suc_eq)
  moreover have "(\<lambda>k. this_second (take k (evs @ [e]))) ` ?S evs = ?R"
    by (auto intro!: image_cong)
  ultimately have "peak_rate (evs @ [e]) = Max (insert 0 (if e = Second then insert (this_second evs) ?R else ?R))"
    by (auto simp: peak_rate_def)
  moreover have "Max (insert 0 (insert (this_second evs) ?R)) = Max (insert (this_second evs) (insert 0 ?R))"
    by (simp only: insert_commute)
  then have "Max (insert 0 (insert (this_second evs) ?R)) = max (this_second evs) (Max (insert 0 ?R))"
    by (subst (asm) (2) Max_insert) simp_all
  ultimately show ?thesis by (simp add: peak_rate_def max.commute)
qed

lemma this_second_snoc:
  "this_second (evs @ [e]) = (if e = Second then 0 else this_second evs + (if e = Begin then 1 else 0))"
  by (simp add: this_second_def)

text \<open>The counters of the test server are exact for every history: the total is the number of
  requests that arrived, the current count those that have not ended, the peak the highest such
  count at any moment, and the peak rate the largest number of arrivals in a closed second.\<close>

lemma fake_server_counts:
  "let f = fs_run evs (NewFakeServer t server port)
   in totalRequests f = int (count_list evs Begin) \<and> currentConnections f = level evs \<and>
      maxSimultaneous f = peak_level evs \<and> requestsPerSecond f = this_second evs \<and>
      maxRequestsPerSecond f = peak_rate evs"
proof (induction evs rule: rev_induct)
  case Nil
  then show ?case by (simp add: NewFakeServer_def level_def peak_level_def this_second_def peak_rate_def)
next
  case (snoc e evs)
  have "level evs \<le> peak_level evs"
    unfolding peak_level_def by (rule Max_ge) (auto intro!: image_eqI [of _ _ "length evs"])
  with snoc show ?case
    by (cases e) (auto simp: Let_def handle_begin_def handle_end_def reset_tick_def peak_level_snoc peak_rate_snoc
        this_second_snoc level_def)
qed

text \<open>The delay of a request lies between the bounds, for non-negative bounds and a draw below its
  argument.\<close>

lemma handle_delay_bounds:
  assumes "0 \<le> minDelay f" and "minDelay f \<le> max_int64" and "maxDelay f < max_int64"
    and "\<forall>n > 0. 0 \<le> rand n \<and> rand n < n"
  shows "\<exists>d. handle_delay rand f = Some d \<and> minDelay f \<le> d \<and> d \<le> max (minDelay f) (maxDelay f)"
proof (cases "minDelay f < maxDelay f")
  case True
  then have w: "wrap64 (wrap64 (maxDelay f - minDelay f) + 1) = maxDelay f - minDelay f + 1"
    using assms(1,3) by (simp add: wrap64_in_range)
  have "0 < maxDelay f - minDelay f + 1" using True by simp
  with assms(4) have r: "0 \<le> rand (maxDelay f - minDelay f + 1)"
    "rand (maxDelay f - minDelay f + 1) < maxDelay f - minDelay f + 1" by blast+
  then have "wrap64 (minDelay f + rand (maxDelay f - minDelay f + 1)) = minDelay f + rand (maxDelay f - minDelay f + 1)"
    using assms(1,3) by (intro wrap64_in_range) auto
  with True w r show ?thesis by (simp add: handle_delay_def)
qed (simp add: handle_delay_def)

end
