(* ===== verification/Server_Run.thy ===== *)
theory Server_Run
  imports Fake_Server Go_Ticker
begin

text \<open>
  The test server as it runs: handlers that arrive, sleep and leave, the two monitor goroutines with
  their tickers, binding and closing, in any order. \<open>net/http\<close> calls the handler; nothing is assumed
  of it but that it does so after a \<open>Serve\<close> has begun.
\<close>

section \<open>Monitors\<close>

text \<open>
  A monitor: its ticker, whether it still runs and, for the statements, how many ticks it has taken.
  The two arms of its \<open>select\<close>: the closed \<open>done\<close> channel, and a tick.
\<close>

record monitor =
  mon_ticker :: ticker
  mon_running :: bool
  mon_ticks :: nat

definition new_monitor :: "duration \<Rightarrow> gotime \<Rightarrow> monitor" where
  "new_monitor d t = \<lparr>mon_ticker = NewTicker d t, mon_running = True, mon_ticks = 0\<rparr>"

definition monitor_done :: "fakeServer \<Rightarrow> monitor \<Rightarrow> monitor option" where
  "monitor_done f m = (if mon_running m \<and> fs_done f then Some (m\<lparr>mon_running := False\<rparr>) else None)"

definition monitor_tick :: "monitor \<Rightarrow> monitor option" where
  "monitor_tick m =
     (if mon_running m
      then map_option (\<lambda>tk. m\<lparr>mon_ticker := tk, mon_ticks := Suc (mon_ticks m)\<rparr>) (ticker_recv (mon_ticker m)) else None)"

definition monitor_fires :: "gotime \<Rightarrow> monitor \<Rightarrow> monitor option" where
  "monitor_fires t m = map_option (\<lambda>tk. m\<lparr>mon_ticker := tk\<rparr>) (ticker_fires t (mon_ticker m))"

section \<open>Handlers\<close>

datatype phase = Sleeping | Leaving | Gone

text \<open>A running \<open>handle\<close>; \<open>None\<close> for the delay when the draw panicked, which the deferred function survives.\<close>

record handler =
  h_start :: gotime
  h_delay :: "duration option"
  h_phase :: phase

definition arrived :: "(int \<Rightarrow> int) \<Rightarrow> gotime \<Rightarrow> fakeServer \<Rightarrow> handler" where
  "arrived rand t f =
     (case handle_delay rand f of
        None \<Rightarrow> \<lparr>h_start = t, h_delay = None, h_phase = Leaving\<rparr>
      | Some d \<Rightarrow> \<lparr>h_start = t, h_delay = Some d, h_phase = Sleeping\<rparr>)"

text \<open>\<open>time.Sleep(delay)\<close> is over, and the response is written.\<close>

definition awakes :: "gotime \<Rightarrow> handler \<Rightarrow> handler option" where
  "awakes t h =
     (case (h_phase h, h_delay h) of
        (Sleeping, Some d) \<Rightarrow> if h_start h + d \<le> t then Some (h\<lparr>h_phase := Leaving\<rparr>) else None
      | _ \<Rightarrow> None)"

section \<open>The server\<close>

text \<open>\<open>Start\<close> and \<open>Listen\<close>: the outcome of \<open>bind\<close>, and whether a \<open>Serve\<close> begins.\<close>

definition Start :: "(string \<Rightarrow> string + string) \<Rightarrow> fakeServer \<Rightarrow> bind_error option \<times> bool \<times> fakeServer" where
  "Start net_Listen f = (case bind net_Listen f of Inl err \<Rightarrow> (Some err, False, f) | Inr g \<Rightarrow> (None, True, g))"

text \<open>What \<open>Listen\<close> prints instead of returning it, and the \<open>Serve\<close> it blocks in.\<close>

definition Listen :: "(string \<Rightarrow> string + string) \<Rightarrow> fakeServer \<Rightarrow> bind_error list \<times> bool \<times> fakeServer" where
  "Listen net_Listen f = (case bind net_Listen f of Inl err \<Rightarrow> ([err], False, f) | Inr g \<Rightarrow> ([], True, g))"

record server_run =
  fs :: fakeServer
  served :: bool
  handlers :: "handler list"
  reset_loop :: monitor
  stats_loop :: monitor
  stats_lines :: "(int \<times> int \<times> float64) list"
  srv_now :: gotime
  srv_trace :: "fs_event list"

definition new_server :: "gotime \<Rightarrow> string \<Rightarrow> int \<Rightarrow> server_run" where
  "new_server t server port =
     \<lparr>fs = NewFakeServer t server port, served = False, handlers = [], reset_loop = new_monitor (1 * second) t,
      stats_loop = new_monitor (5 * second) t, stats_lines = [], srv_now = t, srv_trace = []\<rparr>"

inductive srv_step :: "server_run \<Rightarrow> server_run \<Rightarrow> bool" where
  starts: "Start net_Listen (fs s) = (err, serves, f) \<Longrightarrow> srv_step s (s\<lparr>fs := f, served := served s \<or> serves\<rparr>)"
| listens: "Listen net_Listen (fs s) = (lines, serves, f) \<Longrightarrow> srv_step s (s\<lparr>fs := f, served := served s \<or> serves\<rparr>)"
| closes: "srv_step s (s\<lparr>fs := Close (fs s)\<rparr>)"
| delays: "handlers s = [] \<Longrightarrow> srv_step s (s\<lparr>fs := SetDelay low high (fs s)\<rparr>)"
| arrives: "served s \<Longrightarrow> \<forall>n > 0. 0 \<le> rand n \<and> rand n < n \<Longrightarrow>
    srv_step s (s\<lparr>fs := handle_begin (fs s), handlers := handlers s @ [arrived rand (srv_now s) (handle_begin (fs s))],
      srv_trace := srv_trace s @ [Begin]\<rparr>)"
| awakes: "i < length (handlers s) \<Longrightarrow> awakes (srv_now s) (handlers s ! i) = Some h \<Longrightarrow>
    srv_step s (s\<lparr>handlers := (handlers s)[i := h]\<rparr>)"
| leaves: "i < length (handlers s) \<Longrightarrow> h_phase (handlers s ! i) = Leaving \<Longrightarrow>
    srv_step s (s\<lparr>fs := handle_end (fs s), handlers := (handlers s)[i := (handlers s ! i)\<lparr>h_phase := Gone\<rparr>],
      srv_trace := srv_trace s @ [End]\<rparr>)"
| reset_fires: "monitor_fires (srv_now s) (reset_loop s) = Some m \<Longrightarrow> srv_step s (s\<lparr>reset_loop := m\<rparr>)"
| resets: "monitor_tick (reset_loop s) = Some m \<Longrightarrow>
    srv_step s (s\<lparr>fs := reset_tick (fs s), reset_loop := m, srv_trace := srv_trace s @ [Second]\<rparr>)"
| reset_ends: "monitor_done (fs s) (reset_loop s) = Some m \<Longrightarrow> srv_step s (s\<lparr>reset_loop := m\<rparr>)"
| stats_fires: "monitor_fires (srv_now s) (stats_loop s) = Some m \<Longrightarrow> srv_step s (s\<lparr>stats_loop := m\<rparr>)"
| reports: "monitor_tick (stats_loop s) = Some m \<Longrightarrow>
    srv_step s (s\<lparr>stats_loop := m, stats_lines := stats_lines s @ [stats_tick (srv_now s) (fs s)]\<rparr>)"
| stats_ends: "monitor_done (fs s) (stats_loop s) = Some m \<Longrightarrow> srv_step s (s\<lparr>stats_loop := m\<rparr>)"
| passes: "srv_now s \<le> t \<Longrightarrow> srv_step s (s\<lparr>srv_now := t\<rparr>)"

text \<open>After \<open>n\<close> steps of a server made at \<open>t\<close>.\<close>

abbreviation srv_run :: "gotime \<Rightarrow> string \<Rightarrow> int \<Rightarrow> server_run \<Rightarrow> bool" where
  "srv_run t server port \<equiv> srv_step\<^sup>*\<^sup>* (new_server t server port)"

section \<open>The counters\<close>

definition counters :: "fakeServer \<Rightarrow> int \<times> int \<times> int \<times> int \<times> int" where
  "counters f = (currentConnections f, maxSimultaneous f, requestsPerSecond f, maxRequestsPerSecond f, totalRequests f)"

lemma counters_begin: "counters f = counters g \<Longrightarrow> counters (handle_begin f) = counters (handle_begin g)"
  by (simp add: counters_def handle_begin_def Let_def)

lemma counters_end: "counters f = counters g \<Longrightarrow> counters (handle_end f) = counters (handle_end g)"
  by (simp add: counters_def handle_end_def)

lemma counters_second: "counters f = counters g \<Longrightarrow> counters (reset_tick f) = counters (reset_tick g)"
  by (simp add: counters_def reset_tick_def Let_def)

lemma counters_other [simp]:
  "counters (Close f) = counters f" "counters (SetDelay low high f) = counters f"
  "Start net_Listen f = (err, serves, g) \<Longrightarrow> counters g = counters f"
  "Listen net_Listen f = (lines, serves, g) \<Longrightarrow> counters g = counters f"
  by (auto simp: counters_def Close_def SetDelay_def Let_def Start_def Listen_def bind_def split: sum.splits)

definition present :: "handler list \<Rightarrow> nat" where
  "present hs = length (filter (\<lambda>h. h_phase h \<noteq> Gone) hs)"

lemma present_update:
  "i < length hs \<Longrightarrow> present (hs[i := h]) + (if h_phase (hs ! i) \<noteq> Gone then 1 else 0) = present hs + (if h_phase h \<noteq> Gone then 1 else 0)"
  unfolding present_def by (rule length_filter_list_update)

definition counts_ok :: "server_run \<Rightarrow> bool" where
  "counts_ok s \<longleftrightarrow> counters (fs s) = counters (fs_run (srv_trace s) (NewFakeServer 0 [] 0)) \<and>
     count_list (srv_trace s) Begin = length (handlers s) \<and>
     count_list (srv_trace s) End + present (handlers s) = length (handlers s) \<and>
     count_list (srv_trace s) Second = mon_ticks (reset_loop s)"

lemma arrived_present: "h_phase (arrived rand t f) \<noteq> Gone"
  by (simp add: arrived_def split: option.splits)

lemma counts_step: "srv_step s s' \<Longrightarrow> counts_ok s \<Longrightarrow> counts_ok s'"
proof (induction rule: srv_step.induct)
  case (arrives s rand)
  then show ?case
    using counters_begin [of "fs s" "fs_run (srv_trace s) (NewFakeServer 0 [] 0)"] arrived_present [of rand] by (simp add: counts_ok_def present_def)
next
  case (awakes i s h)
  then have "h_phase (handlers s ! i) \<noteq> Gone" "h_phase h \<noteq> Gone"
    by (auto simp: awakes_def split: phase.splits option.splits if_splits)
  with present_update [OF awakes(1), of h] awakes show ?case by (simp add: counts_ok_def)
next
  case (leaves i s)
  with present_update [OF leaves(1), of "(handlers s ! i)\<lparr>h_phase := Gone\<rparr>"] counters_end [of "fs s" "fs_run (srv_trace s) (NewFakeServer 0 [] 0)"] show ?case
    by (simp add: counts_ok_def)
next
  case (resets s m)
  then show ?case using counters_second [of "fs s" "fs_run (srv_trace s) (NewFakeServer 0 [] 0)"] by (auto simp: counts_ok_def monitor_tick_def split: if_splits)
qed (auto simp: counts_ok_def monitor_fires_def monitor_done_def split: if_splits)

lemma srv_run_counts: "srv_run t server port s \<Longrightarrow> counts_ok s"
proof (induction rule: rtranclp_induct)
  case base
  show ?case by (simp add: counts_ok_def new_server_def counters_def NewFakeServer_def present_def new_monitor_def)
next
  case (step s s')
  then show ?case using counts_step by blast
qed

section \<open>The monitors\<close>

text \<open>The ticks taken since the server was made at \<open>t0\<close>.\<close>

definition mon_ok :: "duration \<Rightarrow> gotime \<Rightarrow> gotime \<Rightarrow> monitor \<Rightarrow> bool" where
  "mon_ok d t0 t m \<longleftrightarrow> ticker_ok d t0 t (mon_ticks m) (mon_ticker m)"

lemma mon_ok_fires: "mon_ok d t0 t m \<Longrightarrow> 0 < d \<Longrightarrow> monitor_fires t m = Some m' \<Longrightarrow> mon_ok d t0 t m'"
  by (auto simp: mon_ok_def monitor_fires_def intro: ticker_ok_fires)

lemma mon_ok_other:
  "mon_ok d t0 t m \<Longrightarrow> monitor_tick m = Some m' \<Longrightarrow> mon_ok d t0 t m'"
  "mon_ok d t0 t m \<Longrightarrow> monitor_done f m = Some m' \<Longrightarrow> mon_ok d t0 t m'"
  "mon_ok d t0 t m \<Longrightarrow> t \<le> u \<Longrightarrow> mon_ok d t0 u m"
  by (auto simp: mon_ok_def monitor_tick_def monitor_done_def split: if_splits intro: ticker_ok_recv ticker_ok_time)

lemma mon_ok_ticks: "mon_ok d t0 t m \<Longrightarrow> 0 < d \<Longrightarrow> int (mon_ticks m) * d \<le> t - t0"
  unfolding mon_ok_def by (rule ticker_ok_bound)

lemma mon_ok_new: "0 < d \<Longrightarrow> mon_ok d t t (new_monitor d t)"
  by (simp add: mon_ok_def new_monitor_def ticker_ok_new)

definition monitors_ok :: "gotime \<Rightarrow> server_run \<Rightarrow> bool" where
  "monitors_ok t0 s \<longleftrightarrow> mon_ok (1 * second) t0 (srv_now s) (reset_loop s) \<and> mon_ok (5 * second) t0 (srv_now s) (stats_loop s) \<and>
     (fs_done (fs s) \<or> mon_running (reset_loop s) \<and> mon_running (stats_loop s)) \<and>
     length (stats_lines s) = mon_ticks (stats_loop s)"

lemma done_simps [simp]:
  "fs_done (Close f)" "fs_done (SetDelay low high f) = fs_done f" "fs_done (handle_begin f) = fs_done f"
  "fs_done (handle_end f) = fs_done f" "fs_done (reset_tick f) = fs_done f"
  by (simp_all add: Close_def SetDelay_def handle_begin_def handle_end_def reset_tick_def Let_def)

lemma done_bind:
  "Start net_Listen f = (err, serves, g) \<Longrightarrow> fs_done g = fs_done f"
  "Listen net_Listen f = (lines, serves, g) \<Longrightarrow> fs_done g = fs_done f"
  by (auto simp: Start_def Listen_def bind_def split: sum.splits)

lemma monitor_frame:
  "monitor_fires t m = Some m' \<Longrightarrow> mon_ticks m' = mon_ticks m \<and> mon_running m' = mon_running m"
  "monitor_tick m = Some m' \<Longrightarrow> mon_ticks m' = Suc (mon_ticks m) \<and> mon_running m' = mon_running m"
  "monitor_done f m = Some m' \<Longrightarrow> mon_ticks m' = mon_ticks m \<and> fs_done f \<and> \<not> mon_running m'"
  by (auto simp: monitor_fires_def monitor_tick_def monitor_done_def split: if_splits)

lemma monitors_step: "srv_step s s' \<Longrightarrow> monitors_ok t0 s \<Longrightarrow> monitors_ok t0 s'"
proof (induction rule: srv_step.induct)
  case (reset_fires s m)
  then show ?case using mon_ok_fires [of "1 * second" t0 "srv_now s" "reset_loop s" m] monitor_frame(1) [OF reset_fires(1)] by (simp add: monitors_ok_def)
next
  case (stats_fires s m)
  then show ?case using mon_ok_fires [of "5 * second" t0 "srv_now s" "stats_loop s" m] monitor_frame(1) [OF stats_fires(1)] by (simp add: monitors_ok_def)
next
  case (resets s m)
  then show ?case using mon_ok_other(1) [of "1 * second" t0 "srv_now s" "reset_loop s" m] monitor_frame(2) [OF resets(1)] by (simp add: monitors_ok_def)
next
  case (reports s m)
  then show ?case using mon_ok_other(1) [of "5 * second" t0 "srv_now s" "stats_loop s" m] monitor_frame(2) [OF reports(1)] by (simp add: monitors_ok_def)
next
  case (reset_ends s m)
  then show ?case using mon_ok_other(2) [of "1 * second" t0 "srv_now s" "reset_loop s" "fs s" m] monitor_frame(3) [OF reset_ends(1)] by (simp add: monitors_ok_def)
next
  case (stats_ends s m)
  then show ?case using mon_ok_other(2) [of "5 * second" t0 "srv_now s" "stats_loop s" "fs s" m] monitor_frame(3) [OF stats_ends(1)] by (simp add: monitors_ok_def)
next
  case (passes s t)
  then show ?case using mon_ok_other(3) [of _ t0 "srv_now s" _ t] by (simp add: monitors_ok_def)
qed (auto simp: monitors_ok_def done_bind)

lemma srv_run_monitors: "srv_run t server port s \<Longrightarrow> monitors_ok t s"
proof (induction rule: rtranclp_induct)
  case base
  show ?case by (simp add: monitors_ok_def new_server_def mon_ok_new) (simp add: new_monitor_def)
next
  case (step s s')
  then show ?case using monitors_step by blast
qed

text \<open>A monitor that has left never comes back.\<close>

definition ended_after :: "server_run \<Rightarrow> server_run \<Rightarrow> bool" where
  "ended_after s s' \<longleftrightarrow> \<not> mon_running (reset_loop s') \<and> \<not> mon_running (stats_loop s') \<and>
     mon_ticks (reset_loop s') = mon_ticks (reset_loop s) \<and> mon_ticks (stats_loop s') = mon_ticks (stats_loop s)"

lemma idle_monitor:
  "\<not> mon_running m \<Longrightarrow> monitor_tick m = None" "\<not> mon_running m \<Longrightarrow> monitor_done f m = None"
  by (simp_all add: monitor_tick_def monitor_done_def)

lemma ended_step: "srv_step s s' \<Longrightarrow> ended_after s0 s \<Longrightarrow> ended_after s0 s'"
  by (induction rule: srv_step.induct) (auto simp: ended_after_def idle_monitor dest: monitor_frame(1))

lemma ended_steps: "srv_step\<^sup>*\<^sup>* s s' \<Longrightarrow> ended_after s s \<Longrightarrow> ended_after s s'"
proof (induction rule: rtranclp_induct)
  case (step s1 s2)
  then show ?case using ended_step by blast
qed

lemma both_end:
  assumes "fs_done (fs s)"
  shows "\<exists>s'. srv_step\<^sup>*\<^sup>* s s' \<and> \<not> mon_running (reset_loop s') \<and> \<not> mon_running (stats_loop s')"
proof -
  have "\<exists>s1. srv_step\<^sup>*\<^sup>* s s1 \<and> \<not> mon_running (reset_loop s1) \<and> fs_done (fs s1)"
  proof (cases "mon_running (reset_loop s)")
    case True
    let ?s = "s\<lparr>reset_loop := (reset_loop s)\<lparr>mon_running := False\<rparr>\<rparr>"
    have "srv_step s ?s" using True assms by (intro srv_step.reset_ends) (simp add: monitor_done_def)
    moreover have "\<not> mon_running (reset_loop ?s) \<and> fs_done (fs ?s)" using assms by simp
    ultimately show ?thesis by blast
  qed (use assms in blast)
  then obtain s1 where s1: "srv_step\<^sup>*\<^sup>* s s1" "\<not> mon_running (reset_loop s1)" "fs_done (fs s1)" by blast
  show ?thesis
  proof (cases "mon_running (stats_loop s1)")
    case True
    let ?s = "s1\<lparr>stats_loop := (stats_loop s1)\<lparr>mon_running := False\<rparr>\<rparr>"
    have "srv_step s1 ?s" using True s1(3) by (intro srv_step.stats_ends) (simp add: monitor_done_def)
    with s1(1) have "srv_step\<^sup>*\<^sup>* s ?s" by (rule rtranclp.rtrancl_into_rtrancl)
    moreover have "\<not> mon_running (reset_loop ?s) \<and> \<not> mon_running (stats_loop ?s)" using s1(2) by simp
    ultimately show ?thesis by blast
  qed (use s1 in blast)
qed

section \<open>The delays\<close>

text \<open>The bounds are in order, and they are fixed once there is a request.\<close>

definition slept :: "server_run \<Rightarrow> handler \<Rightarrow> bool" where
  "slept s h \<longleftrightarrow> (\<exists>d. h_delay h = Some d \<and> minDelay (fs s) \<le> d \<and> d \<le> maxDelay (fs s) \<and>
     (h_phase h \<noteq> Sleeping \<longrightarrow> h_start h + d \<le> srv_now s))"

definition delays_ok :: "server_run \<Rightarrow> bool" where
  "delays_ok s \<longleftrightarrow> minDelay (fs s) \<le> maxDelay (fs s) \<and>
     (0 \<le> minDelay (fs s) \<longrightarrow> maxDelay (fs s) < max_int64 \<longrightarrow> (\<forall>h \<in> set (handlers s). slept s h))"

lemma delay_simps [simp]:
  "minDelay (Close f) = minDelay f" "maxDelay (Close f) = maxDelay f"
  "minDelay (handle_begin f) = minDelay f" "maxDelay (handle_begin f) = maxDelay f"
  "minDelay (handle_end f) = minDelay f" "maxDelay (handle_end f) = maxDelay f"
  "minDelay (reset_tick f) = minDelay f" "maxDelay (reset_tick f) = maxDelay f"
  by (simp_all add: Close_def handle_begin_def handle_end_def reset_tick_def Let_def)

lemma delay_bind:
  "Start net_Listen f = (err, serves, g) \<Longrightarrow> minDelay g = minDelay f \<and> maxDelay g = maxDelay f"
  "Listen net_Listen f = (lines, serves, g) \<Longrightarrow> minDelay g = minDelay f \<and> maxDelay g = maxDelay f"
  by (auto simp: Start_def Listen_def bind_def split: sum.splits)

lemma delays_same:
  "delays_ok s \<Longrightarrow> minDelay (fs s') = minDelay (fs s) \<Longrightarrow> maxDelay (fs s') = maxDelay (fs s) \<Longrightarrow>
     srv_now s \<le> srv_now s' \<Longrightarrow> (\<And>h'. h' \<in> set (handlers s') \<Longrightarrow> \<exists>h \<in> set (handlers s). h_delay h' = h_delay h \<and>
       h_start h' = h_start h \<and> (h_phase h' = h_phase h \<or> h_phase h' \<noteq> Sleeping \<and>
         (h_phase h \<noteq> Sleeping \<or> (\<forall>d. h_delay h = Some d \<longrightarrow> h_start h + d \<le> srv_now s')))) \<Longrightarrow> delays_ok s'"
  by (fastforce simp: delays_ok_def slept_def)

lemma delays_step: "srv_step s s' \<Longrightarrow> delays_ok s \<Longrightarrow> delays_ok s'"
proof (induction rule: srv_step.induct)
  case (delays s low high)
  then show ?case by (simp add: delays_ok_def SetDelay_def Let_def)
next
  case (arrives s rand)
  let ?f = "handle_begin (fs s)"
  have "slept s (arrived rand (srv_now s) ?f)" if "0 \<le> minDelay (fs s)" "maxDelay (fs s) < max_int64"
    using handle_delay_bounds [of ?f rand] that arrives by (auto simp: delays_ok_def slept_def arrived_def)
  with arrives show ?case by (auto simp: delays_ok_def slept_def)
next
  case (awakes i s h)
  have "\<exists>h0 \<in> set (handlers s). h_delay h' = h_delay h0 \<and> h_start h' = h_start h0 \<and> (h_phase h' = h_phase h0 \<or>
      h_phase h' \<noteq> Sleeping \<and> (h_phase h0 \<noteq> Sleeping \<or> (\<forall>d. h_delay h0 = Some d \<longrightarrow> h_start h0 + d \<le> srv_now s)))"
    if h': "h' \<in> set ((handlers s)[i := h])" for h'
  proof (cases "h' = h")
    case True
    with awakes(2) show ?thesis
      using nth_mem [OF awakes(1)] by (intro bexI [of _ "handlers s ! i"]) (auto simp: awakes_def split: phase.splits option.splits if_splits)
  next
    case False
    with h' set_update_subset_insert [of "handlers s" i h] show ?thesis by (intro bexI [of _ h']) auto
  qed
  then show ?case by (intro delays_same [OF awakes(3)]) simp_all
next
  case (leaves i s)
  let ?h = "(handlers s ! i)\<lparr>h_phase := Gone\<rparr>"
  have "\<exists>h0 \<in> set (handlers s). h_delay h' = h_delay h0 \<and> h_start h' = h_start h0 \<and> (h_phase h' = h_phase h0 \<or>
      h_phase h' \<noteq> Sleeping \<and> (h_phase h0 \<noteq> Sleeping \<or> (\<forall>d. h_delay h0 = Some d \<longrightarrow> h_start h0 + d \<le> srv_now s)))"
    if h': "h' \<in> set ((handlers s)[i := ?h])" for h'
  proof (cases "h' = ?h")
    case True
    with leaves(2) show ?thesis using nth_mem [OF leaves(1)] by (intro bexI [of _ "handlers s ! i"]) auto
  next
    case False
    with h' set_update_subset_insert [of "handlers s" i ?h] show ?thesis by (intro bexI [of _ h']) auto
  qed
  then show ?case by (intro delays_same [OF leaves(3)]) simp_all
next
  case (passes s t)
  then show ?case by (intro delays_same [OF passes(2)]) auto
qed (auto simp: delays_ok_def slept_def delay_bind)

lemma srv_run_delays: "srv_run t server port s \<Longrightarrow> delays_ok s"
proof (induction rule: rtranclp_induct)
  case base
  show ?case by (simp add: delays_ok_def new_server_def NewFakeServer_def)
next
  case (step s s')
  then show ?case using delays_step by blast
qed

section \<open>Properties\<close>

text \<open>C36: The counters of the test server are exact in every state it can reach: the total is the number of
  requests that arrived, the current count those still inside, the peak the highest such count at
  any moment, the count of the second the arrivals since the last reset, and the peak rate the
  largest count between two resets; a request whose draw panics is not lost for the counts.\<close>

theorem server_counters_exact:
  assumes "srv_run t server port s"
  shows "totalRequests (fs s) = int (length (handlers s)) \<and> currentConnections (fs s) = int (present (handlers s)) \<and>
    maxSimultaneous (fs s) = peak_level (srv_trace s) \<and> requestsPerSecond (fs s) = this_second (srv_trace s) \<and>
    maxRequestsPerSecond (fs s) = peak_rate (srv_trace s) \<and> level (srv_trace s) = int (present (handlers s)) \<and>
    count_list (srv_trace s) Begin = length (handlers s) \<and> count_list (srv_trace s) Second = mon_ticks (reset_loop s)"
  using srv_run_counts [OF assms] fake_server_counts [of "srv_trace s" 0 "[]" 0]
  by (auto simp: counts_ok_def counters_def Let_def level_def)

definition serving_server :: server_run where
  "serving_server = (new_server 0 ''h'' 80)\<lparr>fs := (NewFakeServer 0 ''h'' 80)\<lparr>fs_listener := Some ''l''\<rparr>, served := True\<rparr>"

lemma serving: "srv_run 0 ''h'' 80 serving_server"
proof -
  have "Start (\<lambda>a. Inr ''l'') (fs (new_server 0 ''h'' 80)) = (None, True, (NewFakeServer 0 ''h'' 80)\<lparr>fs_listener := Some ''l''\<rparr>)"
    by (simp add: Start_def bind_def new_server_def)
  from srv_step.starts [OF this] have "srv_step (new_server 0 ''h'' 80) serving_server" by (simp add: serving_server_def)
  then show ?thesis by (rule r_into_rtranclp)
qed

lemma one_request:
  "\<exists>s. srv_run 0 ''h'' 80 s \<and> handlers s = [\<lparr>h_start = 0, h_delay = Some second, h_phase = Sleeping\<rparr>] \<and> srv_now s = 0 \<and>
     minDelay (fs s) = second \<and> maxDelay (fs s) = 5 * second"
proof -
  have draw: "\<forall>n > 0. 0 \<le> (\<lambda>n. 0 :: int) n \<and> (\<lambda>n. 0 :: int) n < n" by simp
  have "served serving_server" by (simp add: serving_server_def)
  from rtranclp.rtrancl_into_rtrancl [OF serving srv_step.arrives [OF this draw]]
  show ?thesis
    by (intro exI, rule conjI)
      (simp_all add: serving_server_def new_server_def NewFakeServer_def arrived_def handle_delay_def handle_begin_def Let_def wrap64_def)
qed

theorem server_counters_exact_witness:
  "\<exists>s. srv_run 0 ''h'' 80 s \<and> totalRequests (fs s) = 1 \<and> currentConnections (fs s) = 1"
proof -
  obtain s where s: "srv_run 0 ''h'' 80 s" "handlers s = [\<lparr>h_start = 0, h_delay = Some second, h_phase = Sleeping\<rparr>]"
    using one_request by blast
  from server_counters_exact [OF s(1)] s show ?thesis by (intro exI [of _ s]) (simp add: present_def)
qed

text \<open>The monitors of the test server run exactly until \<open>Close\<close>: before it both run; after it both can
  leave, and once they have they never act again; and up to then the peak rate is updated at most
  once for each second of the server's life and a line printed at most once for each five.\<close>

theorem server_monitors:
  assumes "srv_run t server port s"
  shows "(\<not> fs_done (fs s) \<longrightarrow> mon_running (reset_loop s) \<and> mon_running (stats_loop s)) \<and>
    (fs_done (fs s) \<longrightarrow> (\<exists>s'. srv_step\<^sup>*\<^sup>* s s' \<and> \<not> mon_running (reset_loop s') \<and> \<not> mon_running (stats_loop s'))) \<and>
    (\<not> mon_running (reset_loop s) \<longrightarrow> \<not> mon_running (stats_loop s) \<longrightarrow> srv_step\<^sup>*\<^sup>* s s' \<longrightarrow>
       count_list (srv_trace s') Second = count_list (srv_trace s) Second \<and> length (stats_lines s') = length (stats_lines s)) \<and>
    int (count_list (srv_trace s) Second) * second \<le> srv_now s - t \<and>
    int (length (stats_lines s)) * (5 * second) \<le> srv_now s - t"
proof (intro conjI impI)
  note m = srv_run_monitors [OF assms, unfolded monitors_ok_def] and c = srv_run_counts [OF assms, unfolded counts_ok_def]
  show "int (count_list (srv_trace s) Second) * second \<le> srv_now s - t"
    using m c mon_ok_ticks [of "1 * second" t "srv_now s" "reset_loop s"] by simp
  show "int (length (stats_lines s)) * (5 * second) \<le> srv_now s - t"
    using m mon_ok_ticks [of "5 * second" t "srv_now s" "stats_loop s"] by simp
  assume e: "\<not> mon_running (reset_loop s)" "\<not> mon_running (stats_loop s)" "srv_step\<^sup>*\<^sup>* s s'"
  have run: "srv_run t server port s'" using assms e(3) by (rule rtranclp_trans)
  note m' = srv_run_monitors [OF run, unfolded monitors_ok_def] and c' = srv_run_counts [OF run, unfolded counts_ok_def]
  show "count_list (srv_trace s') Second = count_list (srv_trace s) Second" and "length (stats_lines s') = length (stats_lines s)"
    using m c m' c' ended_steps [OF e(3)] e(1,2) by (simp_all add: ended_after_def)
qed (use srv_run_monitors [OF assms] both_end in \<open>auto simp: monitors_ok_def\<close>)

theorem server_monitors_witness:
  "\<exists>s s'. srv_run 0 ''h'' 80 s \<and> fs_done (fs s) \<and> srv_step\<^sup>*\<^sup>* s s' \<and> \<not> mon_running (reset_loop s')"
proof -
  obtain s0 where s0: "srv_run 0 ''h'' 80 s0" using serving by blast
  have run: "srv_run 0 ''h'' 80 (s0\<lparr>fs := Close (fs s0)\<rparr>)" using s0 srv_step.closes by (rule rtranclp.rtrancl_into_rtrancl)
  have "fs_done (fs (s0\<lparr>fs := Close (fs s0)\<rparr>))" by simp
  with server_monitors [OF run] run show ?thesis by blast
qed

text \<open>A request to the test server sleeps for a time between the configured bounds before it is
  answered: with bounds that are not negative (and below the largest duration) the draw never
  panics, the delay lies between the bounds, and no handler leaves before its delay is over.\<close>

theorem server_delays:
  assumes "srv_run t server port s" and "0 \<le> minDelay (fs s)" and "maxDelay (fs s) < max_int64" and "h \<in> set (handlers s)"
  shows "\<exists>d. h_delay h = Some d \<and> minDelay (fs s) \<le> d \<and> d \<le> maxDelay (fs s) \<and>
    (h_phase h \<noteq> Sleeping \<longrightarrow> h_start h + d \<le> srv_now s)"
  using srv_run_delays [OF assms(1)] assms(2-4) by (simp add: delays_ok_def slept_def)

theorem server_delays_witness:
  "\<exists>s. srv_run 0 ''h'' 80 s \<and> length (handlers s) = 1 \<and> (\<exists>d. h_delay (hd (handlers s)) = Some d \<and> d \<le> 5 * second)"
proof -
  obtain s where s: "srv_run 0 ''h'' 80 s" "handlers s = [\<lparr>h_start = 0, h_delay = Some second, h_phase = Sleeping\<rparr>]"
    "minDelay (fs s) = second" "maxDelay (fs s) = 5 * second"
    using one_request by blast
  from server_delays [OF s(1), of "hd (handlers s)"] s show ?thesis by (intro exI [of _ s]) auto
qed

end
