(* ===== verification/System_Live.thy ===== *)
theory System_Live
  imports System_Laws
begin

text \<open>
  Liveness of a breaker: from every state the system can reach, all calls in flight can end, by steps of
  their own, of the refiller and of the clock, without a \<open>Stop\<close>, a cancelled context or a new call. A
  call that holds a slot goes first; then each call in turn runs alone, with its rank as the cost.
\<close>

section \<open>Moves\<close>

definition moves :: "system \<Rightarrow> system \<Rightarrow> bool" where
  "moves s s' \<longleftrightarrow> inner_step s s' \<or> (\<exists>t \<ge> now s. s' = s\<lparr>now := t\<rparr>)"

lemma moves_sys: "moves s s' \<Longrightarrow> sys_step s s'"
  using inner_sys sys_step.time_passes by (auto simp: moves_def)

lemma moves_steps: "moves\<^sup>*\<^sup>* s s' \<Longrightarrow> sys_step\<^sup>*\<^sup>* s s'"
  by (erule rtranclp_mono [THEN predicate2D, rotated]) (auto dest: moves_sys)

lemma moves_run: "moves\<^sup>*\<^sup>* s s' \<Longrightarrow> \<exists>k. sys_run k s \<Longrightarrow> \<exists>k. sys_run k s'"
  by (induction rule: rtranclp_induct) (blast intro: moves_sys sys_run.step)+

lemma inner_moves: "inner_step\<^sup>*\<^sup>* s s' \<Longrightarrow> moves\<^sup>*\<^sup>* s s'"
  by (erule rtranclp_mono [THEN predicate2D, rotated]) (auto simp: moves_def)

lemma time_moves: "now s \<le> t \<Longrightarrow> moves\<^sup>*\<^sup>* s (s\<lparr>now := t\<rparr>)"
  by (rule r_into_rtranclp) (auto simp: moves_def)

section \<open>A bucket that is refilled\<close>

definition bucket_live :: "circuitBreaker \<Rightarrow> bool" where
  "bucket_live cb \<longleftrightarrow> (\<forall>ch. tokens cb = Some ch \<longrightarrow> 0 < ch_cap ch \<and> tokenStop cb \<noteq> None \<and>
     (tokenStop cb = Some False \<longrightarrow> refilling cb) \<and> 1 \<le> tokensPerTick cb)"

lemma bucket_live_new:
  assumes "tokens cb = None"
  shows "bucket_live (initTokenBucket cb)"
proof (cases "0 < maxRequests cb \<and> 0 < windowSeconds cb")
  case True
  then show ?thesis using initTokenBucket_on(1,2,3,5,6) [of cb] by (auto simp: bucket_live_def)
next
  case False
  then show ?thesis using assms initTokenBucket_off [of cb] by (auto simp: bucket_live_def)
qed

lemma bucket_live_step:
  assumes "sys_inv s" and "sys_step s s'" and "bucket_live (brk s)"
  shows "bucket_live (brk s')"
  using assms(2)
proof cases
  case (call_step i env inp cb c)
  have "metrics_ok (metrics (brk s))" using assms(1) by (simp add: sys_inv_def books_ok_def)
  from do_step_level [OF call_step(4) this] call_step_steady [OF call_step(4)] sys_step_tokens [OF assms(1,2)] assms(3) call_step(1)
  show ?thesis by (fastforce simp: bucket_live_def level_falls_def)
next
  case (refilled n cb)
  from refilled(2) show ?thesis
    by (cases rule: refill_one_cases) (use refilled(1) assms(3) in \<open>auto simp: bucket_live_def dest: ch.send_Some\<close>)
qed (use assms(3) in \<open>auto simp: bucket_live_def with_call_def Stop_def refiller_exit_def split: option.splits\<close>)

lemma run_bucket_live: "sys_run k s \<Longrightarrow> bucket_live (brk s)"
proof (induction rule: sys_run.induct)
  case (start opts name mc mr w n t)
  have "tokens (apply_options opts (newCircuitBreaker name mc mr w n)) = None"
    using fresh_options [OF start fresh_new] by (simp add: fresh_def)
  then show ?case by (simp add: NewCircuitBreakerWithOptions_def bucket_live_new)
next
  case (step k s s')
  then show ?case using bucket_live_step run_inv by blast
qed

text \<open>Only a call with a bucket waits for a token.\<close>

definition waits_for_token :: "call \<Rightarrow> bool" where
  "waits_for_token c \<longleftrightarrow> (\<exists>a t. c_pc c = AtTokenWait a t)"

lemma waits_frame [simp]:
  "waits_for_token (goto p c) = (\<exists>a t. p = AtTokenWait a t)" "\<not> waits_for_token (return_with r e c)" "\<not> waits_for_token (panic_with m c)"
  "waits_for_token (c\<lparr>c_ctx := x\<rparr>) = waits_for_token c"
  by (simp_all add: waits_for_token_def call_fun_defs)

lemma wait_failed_waits: "wait_failed env s e cb c = (b, d) \<Longrightarrow> \<not> waits_for_token d"
  using wait_failed_leaves [of env s e cb c] by (auto simp: waits_for_token_def)

lemma starts_waiting:
  assumes "do_step env inp cb c = Some (cb', c')" and "metrics_ok (metrics cb)" and "waits_for_token c'"
  shows "tokens cb \<noteq> None"
proof -
  have other: "tokens cb \<noteq> None" if "waits_at (c_pc c) = None"
  proof -
    have "control cb c c'" using do_step_control [OF assms(1,2)] by blast
    then show ?thesis using that assms(3) by cases (auto simp: step_cancel_def split: do_result.splits option.splits if_splits)
  qed
  have gate_no: "\<not> waits_for_token d" if "gate_outcome env a s g cb c = Some (b, d)" for a s g b d
    using that wait_failed_waits by (cases g) (auto simp: gate_outcome_def)
  have token_no: "\<not> waits_for_token d" if "token_outcome env a s w c cb = Some (b, d)" for a s w b d
    using that wait_failed_waits by (cases w) (auto simp: token_outcome_def)
  from assms(1) show ?thesis
  proof (cases rule: do_step_cases)
    case (gate a s)
    with gate_no assms(3) show ?thesis by blast
  next
    case (gate_sleep a s w arm)
    with gate_no assms(3) show ?thesis by blast
  next
    case (token_wait a s arm)
    with token_no assms(3) show ?thesis by blast
  next
    case (token a s)
    with assms(3) show ?thesis
      by (cases "tokens cb") (auto simp: step_token_def token_outcome_def waitForToken_def)
  qed (use assms(3) other in auto)
qed

definition waiters_ok :: "system \<Rightarrow> bool" where
  "waiters_ok s \<longleftrightarrow> (\<forall>c \<in> set (calls s). waits_for_token c \<longrightarrow> tokens (brk s) \<noteq> None)"

lemma waiters_ok_step:
  assumes "sys_inv s" and "sys_step s s'" and "waiters_ok s"
  shows "waiters_ok s'"
proof -
  have same: "(tokens (brk s') = None) = (tokens (brk s) = None)" using sys_step_tokens [OF assms(1,2)] by simp
  have "tokens (brk s) \<noteq> None" if "c \<in> set (calls s')" "waits_for_token c" for c
    using assms(2)
  proof cases
    case (enter env rq cl d)
    with that assms(3) Do_enter_start [OF enter(3)] show ?thesis by (auto simp: waiters_ok_def waits_for_token_def)
  next
    case (call_step i env inp cb d)
    have "metrics_ok (metrics (brk s))" using assms(1) by (simp add: sys_inv_def books_ok_def)
    with starts_waiting [OF call_step(4)] call_step(1) that assms(3) set_update_subset_insert [of "calls s" i d]
    show ?thesis by (auto simp: waiters_ok_def)
  next
    case (expired i t)
    with that assms(3) set_update_subset_insert [of "calls s" i] show ?thesis
      by (fastforce simp: waiters_ok_def with_call_def dest!: set_update_subset_insert [THEN subsetD])
  next
    case (cancelled i)
    with that assms(3) show ?thesis
      by (fastforce simp: waiters_ok_def with_call_def dest!: set_update_subset_insert [THEN subsetD])
  qed (use that assms(3) in \<open>auto simp: waiters_ok_def\<close>)
  with same show ?thesis by (simp add: waiters_ok_def)
qed

lemma run_waiters_ok: "sys_run k s \<Longrightarrow> waiters_ok s"
proof (induction rule: sys_run.induct)
  case (step k s s')
  then show ?case using waiters_ok_step run_inv by blast
qed (simp add: waiters_ok_def)

section \<open>A call can go on\<close>

text \<open>
  What the world may answer for a call to end well: responses and fresh bodies. Such a step records
  nothing a panic could come from.
\<close>

fun harmless :: "call_event \<Rightarrow> bool" where
  "harmless (Raised _) = False"
| "harmless (Got (TransportError _)) = False"
| "harmless (Got (TransportPanic _)) = False"
| "harmless _ = True"

fun benign :: "input \<Rightarrow> bool" where
  "benign (Reply (Answer _)) = True"
| "benign (Reply _) = False"
| "benign (Rewind r) = (r = FreshBody)"
| "benign _ = True"

definition adds_harmless :: "call \<Rightarrow> call \<Rightarrow> bool" where
  "adds_harmless c c' \<longleftrightarrow> (\<exists>es. c_log c' = c_log c @ es \<and> (\<forall>e \<in> set es. harmless e))"

lemma adds_harmless_intros:
  "c_log c' = c_log c \<Longrightarrow> adds_harmless c c'" "c_log c' = c_log c @ es \<Longrightarrow> \<forall>e \<in> set es. harmless e \<Longrightarrow> adds_harmless c c'"
  by (auto simp: adds_harmless_def)

lemma adds_harmless_trans: "adds_harmless c c' \<Longrightarrow> adds_harmless c' c'' \<Longrightarrow> adds_harmless c c''"
  by (fastforce simp: adds_harmless_def)

lemma benign_log:
  assumes "do_step env inp cb c = Some (cb', c')" and "metrics_ok (metrics cb)" and "benign inp"
  shows "adds_harmless c c'"
proof -
  have answered: "adds_harmless c c'" if "c_pc c = AtTransport a s \<or> c_pc c = AtRewind a s" for a s
    using assms(1)
  proof (cases rule: do_step_cases)
    case (rewind b t r)
    with assms(3) show ?thesis by (auto simp: step_rewind_def call_fun_defs adds_harmless_def split: if_splits)
  next
    case (transport b t r)
    then obtain resp where "r = Answer resp" using assms(3) by (cases r) simp_all
    with transport(3) assms(2) show ?thesis
      by (auto simp: step_transport_def transport_answered_def recorded_ok call_fun_defs adds_harmless_def split: if_splits)
  qed (use that in simp_all)
  have "control cb c c'" using do_step_control [OF assms(1,2)] by blast
  then show ?thesis
  proof cases
    case (finished res)
    then show ?thesis
      by (auto simp: step_cancel_def call_fun_defs intro!: adds_harmless_intros(1) split: do_result.splits option.splits)
  qed (use answered in \<open>auto simp: adds_harmless_def call_fun_defs log_all_def split: if_splits\<close>)
qed

definition can_go :: "system \<Rightarrow> call \<Rightarrow> bool" where
  "can_go s c \<longleftrightarrow> (\<exists>env inp cb c'. clock env = now s \<and> benign inp \<and> do_step env inp (brk s) c = Some (cb, c') \<and>
     \<not> (wait_stage (c_pc c) = 1 \<and> wait_stage (c_pc c') = 1))"

lemma can_goI:
  assumes "clock env = now s" and "benign inp" and "do_step env inp (brk s) c = Some x" and "wait_stage (c_pc c) \<noteq> 1"
  shows "can_go s c"
  using assms by (cases x) (auto simp: can_go_def)

definition env_now :: "system \<Rightarrow> env" where
  "env_now s = sample_env\<lparr>clock := now s\<rparr>"

lemma env_now [simp]: "clock (env_now s) = now s"
  by (simp add: env_now_def)

fun runs_now :: "pc \<Rightarrow> bool" where
  "runs_now AtSem = False"
| "runs_now (AtGateSleep _ _ _) = False"
| "runs_now (AtTokenWait _ _) = False"
| "runs_now (AtPause _ _) = False"
| "runs_now (AtRelease _) = False"
| "runs_now (Done _) = False"
| "runs_now _ = True"

fun wants :: "pc \<Rightarrow> input" where
  "wants (AtRewind _ _) = Rewind FreshBody"
| "wants (AtTransport _ _) = Reply (Answer sample_answer)"
| "wants _ = Run"

lemma go_now:
  assumes "runs_now (c_pc c)"
  shows "can_go s c"
proof -
  have "benign (wants (c_pc c))" "wait_stage (c_pc c) \<noteq> 1" using assms by (cases "c_pc c"; simp)+
  moreover have "\<exists>x. do_step (env_now s) (wants (c_pc c)) (brk s) c = Some x"
    using assms gate_fail_cases(2)
    by (cases "c_pc c"; cases "waitRetryAfterGate (now s) (brk s)") (auto simp: do_step_def gate_outcome_def)
  ultimately show ?thesis using can_goI env_now by blast
qed

lemma go_sem:
  assumes "sys_run k s" and "c_pc c = AtSem" and "slots (calls s) = 0"
  shows "can_go s c"
proof -
  have ok: "sem_ok (brk s) (calls s)" using run_inv [OF assms(1)] by (simp add: sys_inv_def)
  show ?thesis
  proof (cases "sem (brk s)")
    case None
    with assms(2) show ?thesis by (intro can_goI [OF env_now, where inp = Run]) (auto simp: do_step_def step_sem_def)
  next
    case (Some ch)
    with ok assms(3) have "ch_len ch < ch_cap ch" by (auto simp: sem_ok_def)
    with Some assms(2) show ?thesis
      by (intro can_goI [OF env_now, where inp = "Arm ArmSlot"]) (auto simp: do_step_def step_sem_def try_send_def)
  qed
qed

lemma go_release:
  assumes "sys_run k s" and "c \<in> set (calls s)" and "c_pc c = AtRelease res"
  shows "can_go s c"
proof -
  have inv: "sem_ok (brk s) (calls s)" "reach (brk s) c" using run_inv [OF assms(1)] assms(2) by (simp_all add: sys_inv_def)
  have law: "resource_law (brk s) c" by (rule resources.holds [OF inv(2)])
  have "\<exists>x. step_release res (brk s) c = Some x"
  proof (cases "c_slot c")
    case True
    then obtain ch where ch: "sem (brk s) = Some ch" using law assms(3) by (auto simp: resource_law_def)
    have "filter c_slot (calls s) \<noteq> []" using assms(2) True by (auto simp: filter_empty_conv)
    then have "0 < ch_len ch" using inv(1) ch by (simp add: sem_ok_def slots_filter)
    with True ch show ?thesis by (simp add: step_release_def try_recv_def)
  qed (simp add: step_release_def)
  then obtain x where "step_release res (brk s) c = Some x" by blast
  then show ?thesis using assms(3) by (intro can_goI [OF env_now, where inp = Run]) (auto simp: do_step_def)
qed

lemma go_pause:
  assumes "c_pc c = AtPause a w" and "w \<le> now s"
  shows "can_go s c"
  using assms by (intro can_goI [OF env_now, where inp = "Arm ArmTimer"]) (auto simp: do_step_def step_pause_def)

lemma go_gate:
  assumes "c_pc c = AtGateSleep a t w" and "w \<le> now s" and "retryAfterUntil (brk s) \<le> now s"
  shows "can_go s c"
proof -
  have "waitRetryAfterGate (now s) (brk s) = GateOpen" using assms(3) by (simp add: waitRetryAfterGate_def time_unix_0_def)
  with assms(1,2) have "do_step (env_now s) (Arm ArmTimer) (brk s) c = Some (brk s, goto (AtToken a t) c)"
    by (simp add: do_step_def waitRetryAfterGate_select_def gate_outcome_def)
  then show ?thesis unfolding can_go_def by (intro exI conjI) (auto simp: goto_def)
qed

lemma go_token:
  assumes "c_pc c = AtTokenWait a t" and "tokenStop (brk s) = Some True \<or> (\<exists>ch. tokens (brk s) = Some ch \<and> 0 < ch_len ch)"
  shows "can_go s c"
proof (cases "tokenStop (brk s) = Some True")
  case True
  with assms(1) show ?thesis
    by (intro can_goI [OF env_now, where inp = "Arm ArmStop"]) (auto simp: do_step_def waitForToken_select_def token_outcome_def)
next
  case False
  with assms obtain ch where "tokens (brk s) = Some ch" "0 < ch_len ch" by blast
  with assms(1) show ?thesis
    by (intro can_goI [OF env_now, where inp = "Arm ArmToken"])
      (auto simp: do_step_def waitForToken_select_def token_outcome_def try_recv_def)
qed

text \<open>An empty bucket fills: the ticker fires, the refiller takes the tick and sends.\<close>

lemma bucket_fills:
  assumes "tokens (brk s) = Some ch" and "chan_ok ch" and "bucket_live (brk s)" and "tokenStop (brk s) = Some False"
  shows "\<exists>s1 d. moves\<^sup>*\<^sup>* s s1 \<and> calls s1 = calls s \<and> tokens (brk s1) = Some d \<and> 0 < ch_len d"
proof -
  have live: "0 < ch_cap ch" "refilling (brk s)" "1 \<le> tokensPerTick (brk s)" using assms by (auto simp: bucket_live_def)
  have sends: "\<exists>s1 d. moves\<^sup>*\<^sup>* u s1 \<and> calls s1 = calls u \<and> tokens (brk s1) = Some d \<and> 0 < ch_len d"
    if u: "tokens (brk u) = Some ch" "0 < refill_left u" for u
  proof -
    have "u\<lparr>refill_left := refill_left u\<rparr> = u" by simp
    with refills_all [OF u(1), of "refill_left u"]
    have "inner_step\<^sup>*\<^sup>* u (u\<lparr>brk := (brk u)\<lparr>tokens := Some (refill (refill_left u) ch)\<rparr>, refill_left := 0\<rparr>)" by simp
    moreover have "0 < ch_len (refill (refill_left u) ch)" using refill_level(1) [OF assms(2)] live(1) u(2) by simp
    ultimately show ?thesis using inner_moves by fastforce
  qed
  show ?thesis
  proof (cases "0 < refill_left s")
    case True
    with sends assms(1) show ?thesis by blast
  next
    case False
    let ?s1 = "s\<lparr>now := max (now s) (tk_due (tick_at s))\<rparr>"
    obtain tk where tk: "ticker_fires (now ?s1) (tick_at s) = Some tk" "tk_ready tk" by (auto simp: ticker_fires_def)
    let ?s2 = "?s1\<lparr>tick_at := tk\<rparr>"
    let ?s3 = "?s2\<lparr>tick_at := tk\<lparr>tk_ready := False\<rparr>, refill_left := nat (tokensPerTick (brk ?s2)), n_ticks := Suc (n_ticks ?s2)\<rparr>"
    have "moves\<^sup>*\<^sup>* s ?s1" by (rule time_moves) simp
    moreover have "inner_step ?s1 ?s2" using inner_step.fires [of ?s1 tk] live(2) tk(1) by simp
    moreover have "inner_step ?s2 ?s3" using False live(2) tk(2) by (intro inner_step.ticks) (simp_all add: ticker_recv_def)
    ultimately have m: "moves\<^sup>*\<^sup>* s ?s3" by (meson inner_moves r_into_rtranclp rtranclp_trans)
    obtain s4 d where "moves\<^sup>*\<^sup>* ?s3 s4" "calls s4 = calls s" "tokens (brk s4) = Some d" "0 < ch_len d"
      using sends [of ?s3] assms(1) live(3) by auto
    with m show ?thesis by (metis rtranclp_trans)
  qed
qed

text \<open>A call that has yet to take its slot needs the slots of the others free.\<close>

fun before_slot :: "pc \<Rightarrow> bool" where
  "before_slot AtAllow = True"
| "before_slot AtSem = True"
| "before_slot _ = False"

definition ready :: "nat \<Rightarrow> system \<Rightarrow> bool" where
  "ready i s \<longleftrightarrow> (before_slot (c_pc (calls s ! i)) \<longrightarrow> (\<forall>j < length (calls s). j \<noteq> i \<longrightarrow> \<not> c_slot (calls s ! j)))"

lemma ready_slots:
  assumes "sys_run k s" and "i < length (calls s)" and "ready i s" and "c_pc (calls s ! i) = AtSem"
  shows "slots (calls s) = 0"
proof -
  have "reach (brk s) (calls s ! i)" using run_inv [OF assms(1)] assms(2) by (simp add: sys_inv_def)
  then have "\<not> c_slot (calls s ! i)" using resources.holds assms(4) by (fastforce simp: resource_law_def)
  then have "\<forall>j < length (calls s). \<not> c_slot (calls s ! j)" using assms(3,4) by (auto simp: ready_def)
  then have "filter c_slot (calls s) = []" by (auto simp: filter_empty_conv in_set_conv_nth)
  then show ?thesis by (simp add: slots_filter)
qed

lemma enabled:
  assumes "sys_run k s" and "i < length (calls s)" and "\<nexists>res. c_pc (calls s ! i) = Done res" and "ready i s"
  shows "\<exists>s1. moves\<^sup>*\<^sup>* s s1 \<and> calls s1 = calls s \<and> can_go s1 (calls s ! i)"
proof -
  define c where "c = calls s ! i"
  have mem: "c \<in> set (calls s)" using assms(2) by (simp add: c_def)
  have now: ?thesis if "can_go s c" using that c_def by blast
  have later: ?thesis if "can_go (s\<lparr>now := t\<rparr>) c" "now s \<le> t" for t
    using that time_moves [of s t] c_def by (intro exI [of _ "s\<lparr>now := t\<rparr>"]) simp
  show ?thesis
  proof (cases "c_pc c")
    case AtSem
    with ready_slots [OF assms(1,2,4)] go_sem [OF assms(1)] now show ?thesis by (simp add: c_def)
  next
    case (AtGateSleep a t w)
    show ?thesis
      by (rule later [of "max (now s) (max w (retryAfterUntil (brk s)))"]) (simp_all add: go_gate [OF AtGateSleep])
  next
    case (AtPause a w)
    show ?thesis by (rule later [of "max (now s) w"]) (simp_all add: go_pause [OF AtPause])
  next
    case (AtRelease res)
    with go_release [OF assms(1) mem] now show ?thesis by blast
  next
    case (AtTokenWait a t)
    then have "tokens (brk s) \<noteq> None" using run_waiters_ok [OF assms(1)] mem by (auto simp: waiters_ok_def waits_for_token_def)
    then obtain ch where ch: "tokens (brk s) = Some ch" by blast
    have live: "bucket_live (brk s)" by (rule run_bucket_live [OF assms(1)])
    show ?thesis
    proof (cases "tokenStop (brk s) = Some True")
      case True
      with go_token [OF AtTokenWait] now show ?thesis by blast
    next
      case False
      with live ch have "tokenStop (brk s) = Some False" by (cases "tokenStop (brk s)") (auto simp: bucket_live_def)
      moreover have "chan_ok ch" using run_inv [OF assms(1)] ch by (simp add: sys_inv_def bucket_ok_def)
      ultimately obtain s1 d where "moves\<^sup>*\<^sup>* s s1" "calls s1 = calls s" "tokens (brk s1) = Some d" "0 < ch_len d"
        using bucket_fills [OF ch _ live] by blast
      with go_token [OF AtTokenWait] show ?thesis unfolding c_def by blast
    qed
  next
    case (Done res)
    with assms(3) c_def show ?thesis by blast
  qed (use go_now now in simp_all)
qed

section \<open>One call\<close>

text \<open>Only call \<open>i\<close> has moved, and nothing went wrong for it.\<close>

definition alone :: "nat \<Rightarrow> system \<Rightarrow> system \<Rightarrow> bool" where
  "alone i s s' \<longleftrightarrow> length (calls s') = length (calls s) \<and> (\<forall>j. j \<noteq> i \<longrightarrow> calls s' ! j = calls s ! j) \<and>
     adds_harmless (calls s ! i) (calls s' ! i) \<and> same_config (brk s) (brk s')"

lemma alone_refl: "alone i s s"
  by (simp add: alone_def adds_harmless_def)

lemma alone_trans: "alone i s s' \<Longrightarrow> alone i s' s'' \<Longrightarrow> alone i s s''"
  using adds_harmless_trans same_config_trans by (fastforce simp: alone_def)

lemma moves_config: "moves\<^sup>*\<^sup>* s s' \<Longrightarrow> sys_run k s \<Longrightarrow> same_config (brk s) (brk s')"
  using moves_steps steps_config by blast

lemma alone_moves: "moves\<^sup>*\<^sup>* s s' \<Longrightarrow> sys_run k s \<Longrightarrow> calls s' = calls s \<Longrightarrow> alone i s s'"
  using moves_config by (simp add: alone_def adds_harmless_def)

definition call_rank :: "nat \<Rightarrow> system \<Rightarrow> nat" where
  "call_rank i s = rank (MaxRetries (brk s)) (c_pc (calls s ! i))"

lemma before_slot_control: "control cb c c' \<Longrightarrow> before_slot (c_pc c') \<Longrightarrow> before_slot (c_pc c)"
  by (erule control.cases) (auto simp: step_cancel_def split: do_result.splits option.splits if_splits elim!: before_slot.elims)

lemma call_advances:
  assumes "sys_run k s" and "i < length (calls s)" and "\<nexists>res. c_pc (calls s ! i) = Done res" and "ready i s"
  shows "\<exists>s'. moves\<^sup>*\<^sup>* s s' \<and> alone i s s' \<and> ready i s' \<and> call_rank i s' < call_rank i s"
proof -
  let ?c = "calls s ! i"
  obtain s1 where s1: "moves\<^sup>*\<^sup>* s s1" "calls s1 = calls s" "can_go s1 ?c" using enabled [OF assms] by blast
  then obtain env inp cb c' where go: "clock env = now s1" "benign inp" "do_step env inp (brk s1) ?c = Some (cb, c')"
    "\<not> (wait_stage (c_pc ?c) = 1 \<and> wait_stage (c_pc c') = 1)"
    by (auto simp: can_go_def)
  let ?s = "s1\<lparr>brk := cb, calls := (calls s1)[i := c']\<rparr>"
  obtain k1 where run: "sys_run k1 s1" using moves_run [OF s1(1)] assms(1) by blast
  have books: "metrics_ok (metrics (brk s1))" using run_inv [OF run] by (simp add: sys_inv_def books_ok_def)
  have con: "control (brk s1) ?c c'" "same_config (brk s1) cb" using do_step_control [OF go(3) books] by (auto simp: keeps_def)
  have "inner_step s1 ?s" using go(1,3) s1(2) assms(2) by (intro inner_step.call) simp_all
  then have "moves\<^sup>*\<^sup>* s ?s" using s1(1) by (auto simp: moves_def intro: rtranclp.rtrancl_into_rtrancl)
  moreover have "alone i s1 ?s"
    using con(2) benign_log [OF go(3) books go(2)] s1(2) assms(2) by (simp add: alone_def)
  moreover have "alone i s s1" by (rule alone_moves [OF s1(1) assms(1) s1(2)])
  moreover have "ready i ?s"
    using assms(2,4) s1(2) before_slot_control [OF con(1)] by (simp add: ready_def)
  moreover have "call_rank i ?s < call_rank i s"
    using rank_step [OF con(1)] go(4) con(2) s1(2) assms(2) moves_config [OF s1(1) assms(1)]
    by (auto simp: call_rank_def same_config_def)
  ultimately show ?thesis using alone_trans by blast
qed

definition finished :: "nat \<Rightarrow> system \<Rightarrow> bool" where
  "finished i s \<longleftrightarrow> (\<exists>res. c_pc (calls s ! i) = Done res)"

definition running_alone :: "nat \<Rightarrow> system \<Rightarrow> system \<Rightarrow> bool" where
  "running_alone i s0 s \<longleftrightarrow> (\<exists>k. sys_run k s) \<and> i < length (calls s) \<and> ready i s \<and> alone i s0 s"

interpretation one_call: progress moves "running_alone i s0" "finished i" "call_rank i" for i s0
proof
  fix s assume *: "running_alone i s0 s" "\<not> finished i s"
  then obtain k where k: "sys_run k s" "i < length (calls s)" "ready i s" "alone i s0 s" by (auto simp: running_alone_def)
  with * call_advances [of k s i] obtain s' where
    s': "moves\<^sup>*\<^sup>* s s'" "alone i s s'" "ready i s'" "call_rank i s' < call_rank i s" by (auto simp: finished_def)
  have "running_alone i s0 s'"
    using k s' moves_run [OF s'(1)] alone_trans [OF k(4) s'(2)] by (auto simp: running_alone_def alone_def [of i s])
  with s' show "\<exists>s'. moves\<^sup>*\<^sup>* s s' \<and> running_alone i s0 s' \<and> call_rank i s' < call_rank i s" by blast
qed

section \<open>All calls\<close>

definition settled :: "system \<Rightarrow> bool" where
  "settled s \<longleftrightarrow> (\<forall>i < length (calls s). finished i s)"

definition unfinished :: "system \<Rightarrow> nat" where
  "unfinished s = card {i. i < length (calls s) \<and> \<not> finished i s}"

definition settling :: "system \<Rightarrow> system \<Rightarrow> bool" where
  "settling s0 s \<longleftrightarrow> (\<exists>k. sys_run k s) \<and> length (calls s) = length (calls s0) \<and> same_config (brk s0) (brk s) \<and>
     (\<forall>i < length (calls s). adds_harmless (calls s0 ! i) (calls s ! i))"

text \<open>A call that holds a slot goes first.\<close>

lemma next_call:
  assumes "sys_run k s" and "\<not> settled s"
  shows "\<exists>i < length (calls s). \<not> finished i s \<and> ready i s"
proof -
  have law: "resource_law (brk s) (calls s ! j)" if "j < length (calls s)" for j
    using resources.holds run_inv [OF assms(1)] that by (simp add: sys_inv_def)
  show ?thesis
  proof (cases "\<exists>i < length (calls s). c_slot (calls s ! i)")
    case True
    then obtain i where i: "i < length (calls s)" "c_slot (calls s ! i)" by blast
    with law [OF i(1)] have "\<not> finished i s" "\<not> before_slot (c_pc (calls s ! i))"
      by (auto simp: finished_def resource_law_def elim!: before_slot.elims)
    with i show ?thesis by (auto simp: ready_def)
  next
    case False
    with assms(2) show ?thesis by (auto simp: settled_def ready_def)
  qed
qed

interpretation all_calls: progress moves "settling s0" settled unfinished for s0
proof
  fix s assume *: "settling s0 s" "\<not> settled s"
  then obtain k where k: "sys_run k s" by (auto simp: settling_def)
  obtain i where i: "i < length (calls s)" "\<not> finished i s" "ready i s" using next_call [OF k *(2)] by blast
  then have "running_alone i s s" using k alone_refl by (auto simp: running_alone_def)
  from one_call.reaches [OF this] obtain s' where
    s': "moves\<^sup>*\<^sup>* s s'" "\<exists>k. sys_run k s'" "alone i s s'" "finished i s'" by (auto simp: running_alone_def)
  have "{j. j < length (calls s') \<and> \<not> finished j s'} \<subset> {j. j < length (calls s) \<and> \<not> finished j s}"
    using i(1,2) s'(3,4) by (auto simp: alone_def finished_def)
  then have "unfinished s' < unfinished s" unfolding unfinished_def by (intro psubset_card_mono) simp_all
  moreover have "settling s0 s'"
    unfolding settling_def
  proof (intro conjI allI impI)
    show "\<exists>k. sys_run k s'" by (rule s'(2))
    show "length (calls s') = length (calls s0)" using *(1) s'(3) by (simp add: settling_def alone_def)
    show "same_config (brk s0) (brk s')"
      using *(1) s'(3) same_config_trans [of "brk s0" "brk s"] by (simp add: settling_def alone_def)
    fix j assume j: "j < length (calls s')"
    then have "adds_harmless (calls s0 ! j) (calls s ! j)" using *(1) s'(3) by (simp add: settling_def alone_def)
    moreover have "adds_harmless (calls s ! j) (calls s' ! j)"
      using s'(3) by (cases "j = i") (simp_all add: alone_def adds_harmless_intros(1))
    ultimately show "adds_harmless (calls s0 ! j) (calls s' ! j)" by (rule adds_harmless_trans)
  qed
  ultimately show "\<exists>s'. moves\<^sup>*\<^sup>* s s' \<and> settling s0 s' \<and> unfinished s' < unfinished s" using s'(1) by blast
qed

lemma settled_slots:
  assumes "sys_run k s" and "settled s"
  shows "slots (calls s) = 0"
proof -
  have "\<not> c_slot (calls s ! i)" if "i < length (calls s)" for i
  proof -
    have "reach (brk s) (calls s ! i)" using run_inv [OF assms(1)] that by (simp add: sys_inv_def)
    moreover obtain res where "c_pc (calls s ! i) = Done res" using assms(2) \<open>i < length (calls s)\<close> by (auto simp: settled_def finished_def)
    ultimately show ?thesis using resources.holds by (fastforce simp: resource_law_def)
  qed
  then have "filter c_slot (calls s) = []" by (auto simp: filter_empty_conv in_set_conv_nth)
  then show ?thesis by (simp add: slots_filter)
qed

lemma calls_settle:
  assumes "sys_run k s"
  shows "\<exists>s'. moves\<^sup>*\<^sup>* s s' \<and> settling s s' \<and> settled s'"
proof -
  have "settling s s" using assms by (auto simp: settling_def adds_harmless_def)
  then show ?thesis by (rule all_calls.reaches)
qed

section \<open>Properties\<close>

text \<open>Nothing that could make the call panic has happened to it.\<close>

definition calm :: "circuitBreaker \<Rightarrow> call \<Rightarrow> bool" where
  "calm cb c \<longleftrightarrow> (\<forall>m. Raised m \<notin> set (c_log c) \<and> Got (TransportPanic m) \<notin> set (c_log c)) \<and>
     (\<forall>e m. Got (TransportError e) \<in> set (c_log c) \<longrightarrow> retryable cb e \<noteq> PolicyPanic m)"

lemma calm_adds:
  assumes "calm cb c" and "adds_harmless c c'" and "same_config cb cb'"
  shows "calm cb' c'"
proof -
  obtain es where es: "c_log c' = c_log c @ es" "\<forall>e \<in> set es. harmless e" using assms(2) by (auto simp: adds_harmless_def)
  have "retryable cb' = retryable cb" using assms(3) by (simp add: retryable_def same_config_def)
  moreover have "e \<in> set (c_log c)" if "e \<in> set (c_log c')" "\<not> harmless e" for e using es that by auto
  ultimately show ?thesis using assms(1) by (fastforce simp: calm_def)
qed

lemma calm_returns: "reach cb c \<Longrightarrow> calm cb c \<Longrightarrow> c_pc c = Done res \<Longrightarrow> \<exists>r e. res = Returned r e"
  using panics.holds [of cb c] by (cases res) (auto simp: panic_law_def panicked_below_def calm_def)

text \<open>C15: No call of a breaker is stuck: from every state the system can reach all calls in flight can
  come to their end by themselves, with no \<open>Stop\<close>, no cancelled or expired context and no other client
  doing anything, provided the transport answers and \<open>GetBody\<close> gives a body; the slots are free then,
  and a call that had not met a panic ends without one.\<close>

theorem calls_can_end:
  assumes "sys_run k s"
  shows "\<exists>s'. moves\<^sup>*\<^sup>* s s' \<and> length (calls s') = length (calls s) \<and> slots (calls s') = 0 \<and>
    (\<forall>i < length (calls s). \<exists>res. c_pc (calls s' ! i) = Done res \<and>
       (calm (brk s) (calls s ! i) \<longrightarrow> (\<exists>r e. res = Returned r e)))"
proof -
  obtain s' where s': "moves\<^sup>*\<^sup>* s s'" "settling s s'" "settled s'" using calls_settle [OF assms] by blast
  obtain k' where k': "sys_run k' s'" using moves_run [OF s'(1)] assms by blast
  have len: "length (calls s') = length (calls s)" using s'(2) by (simp add: settling_def)
  have reach: "reach (brk s') (calls s' ! i)" if "i < length (calls s)" for i
    using run_inv [OF k'] that len by (simp add: sys_inv_def)
  have ends: "\<exists>res. c_pc (calls s' ! i) = Done res" if "i < length (calls s)" for i
    using s'(3) that len by (simp add: settled_def finished_def)
  have "slots (calls s') = 0" by (rule settled_slots [OF k' s'(3)])
  moreover have "\<exists>r e. res = Returned r e"
    if "i < length (calls s)" "c_pc (calls s' ! i) = Done res" "calm (brk s) (calls s ! i)" for i res
    using calm_returns [OF reach [OF that(1)] _ that(2)] calm_adds [OF that(3)] s'(2) that(1) len by (auto simp: settling_def)
  ultimately show ?thesis using s'(1) len ends by blast
qed

theorem calls_can_end_witness:
  "\<exists>s s' c d. sys_run 15 s \<and> calls s = [c, d] \<and> c_pc d = AtLoop 0 \<and> moves\<^sup>*\<^sup>* s s' \<and> slots (calls s') = 0 \<and>
     (\<exists>res. c_pc (calls s' ! 1) = Done res)"
proof -
  obtain s c d where s: "sys_run 15 s" "calls s = [c, d]" "c_pc d = AtLoop 0"
    by (rule small_final) blast
  from calls_can_end [OF s(1)] obtain s' where "moves\<^sup>*\<^sup>* s s'" "slots (calls s') = 0"
    "\<forall>i < length (calls s). \<exists>res. c_pc (calls s' ! i) = Done res" by blast
  moreover have "1 < length (calls s)" by (simp add: s(2))
  ultimately show ?thesis using s by blast
qed

end
