(* ===== verification/Demo.thy ===== *)
theory Demo
  imports Fleet Server_Run System_Live
begin

text \<open>
  The demonstration program, cmd/main.go, as a client of a manager: it starts the test server, creates
  one breaker, runs 3000 goroutines that make a call each, waits for them and stops the breakers.
  The answers to the requests are inputs of the calls, as everywhere.
\<close>

section \<open>State\<close>

definition demo_total :: nat where
  "demo_total = 3000"

text \<open>What a goroutine prints: the error, or the status of the response, whose body it closes.\<close>

datatype line = ErrorLine go_error | OkLine int

text \<open>A goroutine: spawned, inside the call of \<open>Do\<close> with the given index, or ended after its line.\<close>

datatype job = Created | Calling nat | Ended line

datatype main_pc = Spawning nat | Joining | StoppingAll | Exited duration | Crashed string

record demo =
  d_main :: main_pc
  d_server :: fakeServer
  d_fleet :: fleet
  d_cb :: addr
  d_wg :: nat
  d_jobs :: "job list"
  d_start :: gotime

section \<open>The program\<close>

text \<open>\<open>main\<close> up to its loop: the error of \<open>Start\<close> ends it.\<close>

definition main_begin :: "(string \<Rightarrow> string + string) \<Rightarrow> gotime \<Rightarrow> bind_error + demo" where
  "main_begin net_Listen t =
     (case Start net_Listen (NewFakeServer t ''localhost'' 8080) of
        (Some err, _, _) \<Rightarrow> Inl err
      | (None, _, srv) \<Rightarrow>
          let m = new_fleet t;
              (cb, w) = manager_NewCircuitBreaker 50 200 30 5 ''google'' (world_of m)
          in Inr \<lparr>d_main = Spawning 0, d_server = srv, d_fleet = adopt w m, d_cb = cb, d_wg = 0, d_jobs = [], d_start = t\<rparr>)"

text \<open>\<open>http.NewRequest("GET", "http://" + addr + "/teste", nil)\<close> and the client of a goroutine.\<close>

definition teste_request :: "string \<Rightarrow> request" where
  "teste_request addr =
     \<lparr>URL = Some \<lparr>Host = addr, Path = ''/teste''\<rparr>, has_Body = False, has_GetBody = False, Ctx = background\<rparr>"

definition teste_client :: client where
  "teste_client = \<lparr>client_Timeout = 10 * second\<rparr>"

definition d_breaker :: "demo \<Rightarrow> system" where
  "d_breaker d = members (d_fleet d) ! d_cb d"

definition with_breaker :: "system \<Rightarrow> demo \<Rightarrow> demo" where
  "with_breaker s d = d\<lparr>d_fleet := (d_fleet d)\<lparr>members := (members (d_fleet d))[d_cb d := s]\<rparr>\<rparr>"

text \<open>
  The end of a goroutine: its line and \<open>wg.Done()\<close>. A panic of \<open>Do\<close> goes through the deferred
  \<open>wg.Done\<close> and ends the program, and so does reading a response that is not there.
\<close>

definition job_end :: "nat \<Rightarrow> do_result \<Rightarrow> demo \<Rightarrow> demo" where
  "job_end j res d =
     (case res of
        Returned r (Some e) \<Rightarrow> d\<lparr>d_jobs := (d_jobs d)[j := Ended (ErrorLine e)], d_wg := d_wg d - 1\<rparr>
      | Returned (Some r) None \<Rightarrow> d\<lparr>d_jobs := (d_jobs d)[j := Ended (OkLine (StatusCode r))], d_wg := d_wg d - 1\<rparr>
      | Returned None None \<Rightarrow> d\<lparr>d_main := Crashed ''nil pointer dereference''\<rparr>
      | Panicked m \<Rightarrow> d\<lparr>d_main := Crashed m\<rparr>)"

text \<open>What happens inside the breaker between the calls and returns of \<open>Do\<close>.\<close>

inductive breaker_step :: "system \<Rightarrow> system \<Rightarrow> bool" where
  own: "inner_step s s' \<Longrightarrow> breaker_step s s'"
| expires: "i < length (calls s) \<Longrightarrow> ctx_deadline (c_ctx (calls s ! i)) = Some t \<Longrightarrow> t \<le> now s \<Longrightarrow>
    breaker_step s (with_call i (\<lambda>c. c\<lparr>c_ctx := ctx_finish CtxDeadlineExceeded (c_ctx c)\<rparr>) s)"

definition alive :: "demo \<Rightarrow> bool" where
  "alive d \<longleftrightarrow> (case d_main d of Exited _ \<Rightarrow> False | Crashed _ \<Rightarrow> False | _ \<Rightarrow> True)"

inductive demo_step :: "demo \<Rightarrow> demo \<Rightarrow> bool" where
  spawn: "d_main d = Spawning i \<Longrightarrow> i < demo_total \<Longrightarrow>
    demo_step d (d\<lparr>d_main := Spawning (Suc i), d_wg := Suc (d_wg d), d_jobs := d_jobs d @ [Created]\<rparr>)"
| spawned: "d_main d = Spawning demo_total \<Longrightarrow> demo_step d (d\<lparr>d_main := Joining\<rparr>)"
| call: "alive d \<Longrightarrow> j < length (d_jobs d) \<Longrightarrow> d_jobs d ! j = Created \<Longrightarrow> clock env = fleet_now (d_fleet d) \<Longrightarrow>
    Do_enter env (brk (d_breaker d)) (Some (teste_request (Addr (d_server d)))) (Some teste_client) = Inr c \<Longrightarrow>
    demo_step d (with_breaker ((d_breaker d)\<lparr>calls := calls (d_breaker d) @ [c]\<rparr>)
      (d\<lparr>d_jobs := (d_jobs d)[j := Calling (length (calls (d_breaker d)))]\<rparr>))"
| no_call: "alive d \<Longrightarrow> j < length (d_jobs d) \<Longrightarrow> d_jobs d ! j = Created \<Longrightarrow> clock env = fleet_now (d_fleet d) \<Longrightarrow>
    Do_enter env (brk (d_breaker d)) (Some (teste_request (Addr (d_server d)))) (Some teste_client) = Inl res \<Longrightarrow>
    demo_step d (job_end j res d)"
| inner: "alive d \<Longrightarrow> breaker_step (d_breaker d) s \<Longrightarrow> demo_step d (with_breaker s d)"
| time: "alive d \<Longrightarrow> fleet_now (d_fleet d) \<le> t \<Longrightarrow>
    demo_step d (d\<lparr>d_fleet := (d_fleet d)\<lparr>members := map (\<lambda>s. s\<lparr>now := t\<rparr>) (members (d_fleet d)), fleet_now := t\<rparr>\<rparr>)"
| returns: "alive d \<Longrightarrow> j < length (d_jobs d) \<Longrightarrow> d_jobs d ! j = Calling n \<Longrightarrow>
    c_pc (calls (d_breaker d) ! n) = Done res \<Longrightarrow> demo_step d (job_end j res d)"
| joined: "d_main d = Joining \<Longrightarrow> d_wg d = 0 \<Longrightarrow> \<forall>xs. mset (shuffle xs) = mset xs \<Longrightarrow>
    demo_step d (d\<lparr>d_main := StoppingAll, d_fleet := stopAll_begin shuffle (d_fleet d)\<rparr>)"
| stop: "d_main d = StoppingAll \<Longrightarrow> stopper_step 0 (d_fleet d) = Some f \<Longrightarrow> demo_step d (d\<lparr>d_fleet := f\<rparr>)"
| stopped: "d_main d = StoppingAll \<Longrightarrow> stoppers (d_fleet d) ! 0 = Stopping [] \<Longrightarrow>
    demo_step d (d\<lparr>d_main := Exited (time_sub (fleet_now (d_fleet d)) (d_start d)), d_server := Close (d_server d)\<rparr>)"

section \<open>The demonstration is a client of the manager\<close>

lemma breaker_sys: "breaker_step s s' \<Longrightarrow> sys_step s s' \<and> now s' = now s \<and> length (calls s') = length (calls s)"
proof (induction rule: breaker_step.induct)
  case (expires i s t)
  from sys_step.expired [OF this] show ?case by (simp add: with_call_def)
qed (rule inner_sys)

lemma do_step_done: "c_pc c = Done res \<Longrightarrow> do_step env inp cb c = None"
  by (simp add: do_step_def)

lemma breaker_done: "breaker_step s s' \<Longrightarrow> c_pc (calls s ! n) = Done res \<Longrightarrow> c_pc (calls s' ! n) = Done res"
proof (induction rule: breaker_step.induct)
  case (own s s')
  then show ?case
  proof (induction rule: inner_step.induct)
    case (call i s env inp cb c)
    then show ?case by (cases "n = i") (simp_all add: do_step_done)
  qed simp_all
next
  case (expires i s t)
  then show ?case by (cases "n = i") (simp_all add: with_call_def)
qed

lemma job_end_frame [simp]:
  "d_fleet (job_end j res d) = d_fleet d" "d_cb (job_end j res d) = d_cb d" "d_server (job_end j res d) = d_server d"
  "d_breaker (job_end j res d) = d_breaker d" "length (d_jobs (job_end j res d)) = length (d_jobs d)"
  by (simp_all add: job_end_def d_breaker_def split: do_result.splits option.splits)

definition client_ok :: "demo \<Rightarrow> bool" where
  "client_ok d \<longleftrightarrow> fleet_inv (d_fleet d) \<and> d_cb d < length (members (d_fleet d))"

lemma breaker_now: "client_ok d \<Longrightarrow> now (d_breaker d) = fleet_now (d_fleet d)"
  by (simp add: client_ok_def d_breaker_def fleet_inv_def)

lemma with_breaker_step:
  assumes "client_ok d" and "sys_step (d_breaker d) s" and "now s = fleet_now (d_fleet d)"
  shows "fleet_step (d_fleet d) (d_fleet (with_breaker s d))"
  using fleet_step.member [of "d_cb d" "d_fleet d" s] assms by (simp add: client_ok_def d_breaker_def with_breaker_def)

lemma with_breaker_frame [simp]:
  "d_main (with_breaker s d) = d_main d" "d_jobs (with_breaker s d) = d_jobs d" "d_wg (with_breaker s d) = d_wg d"
  "d_cb (with_breaker s d) = d_cb d" "stoppers (d_fleet (with_breaker s d)) = stoppers (d_fleet d)"
  "registry (d_fleet (with_breaker s d)) = registry (d_fleet d)"
  by (simp_all add: with_breaker_def)

lemma with_breaker_at [simp]: "d_cb d < length (members (d_fleet d)) \<Longrightarrow> d_breaker (with_breaker s d) = s"
  by (simp add: with_breaker_def d_breaker_def)

lemma demo_fleet_step:
  assumes "demo_step d d'" and "client_ok d" and "d_main d = StoppingAll \<Longrightarrow> 0 < length (stoppers (d_fleet d))"
  shows "fleet_step\<^sup>*\<^sup>* (d_fleet d) (d_fleet d')"
  using assms(1)
proof cases
  case (call j env c)
  have "sys_step (d_breaker d) ((d_breaker d)\<lparr>calls := calls (d_breaker d) @ [c]\<rparr>)"
    using call(5,6) breaker_now [OF assms(2)] by (intro sys_step.enter) auto
  from with_breaker_step [OF assms(2) this] breaker_now [OF assms(2)] call(1) show ?thesis
    by (simp add: with_breaker_def d_breaker_def r_into_rtranclp)
next
  case (inner s)
  from with_breaker_step [OF assms(2)] breaker_sys [OF inner(3)] breaker_now [OF assms(2)] inner(1) show ?thesis
    by (simp add: r_into_rtranclp)
next
  case (time t)
  then show ?thesis using fleet_step.time by auto
next
  case (joined shuffle)
  then show ?thesis using fleet_step.stopping_all by auto
next
  case (stop f)
  then show ?thesis using fleet_step.stopper [of 0 "d_fleet d" f] assms(3) by auto
qed auto

section \<open>The invariant\<close>

fun open_job :: "job \<Rightarrow> bool" where
  "open_job (Ended _) = False"
| "open_job _ = True"

definition jobs_ok :: "demo \<Rightarrow> bool" where
  "jobs_ok d \<longleftrightarrow> d_wg d = length (filter open_job (d_jobs d)) \<and>
     length (calls (d_breaker d)) + length (filter ((=) Created) (d_jobs d)) \<le> length (d_jobs d) \<and>
     (\<forall>n < length (calls (d_breaker d)). Calling n \<in> set (d_jobs d) \<or> (\<exists>res. c_pc (calls (d_breaker d) ! n) = Done res)) \<and>
     (\<forall>n. Calling n \<in> set (d_jobs d) \<longrightarrow> n < length (calls (d_breaker d)))"

fun phase_ok :: "demo \<Rightarrow> main_pc \<Rightarrow> bool" where
  "phase_ok d (Spawning i) = (i \<le> demo_total \<and> length (d_jobs d) = i \<and> stoppers (d_fleet d) = [])"
| "phase_ok d Joining = (length (d_jobs d) = demo_total \<and> stoppers (d_fleet d) = [])"
| "phase_ok d StoppingAll = (length (d_jobs d) = demo_total \<and> d_wg d = 0 \<and> to_halt 0 (d_cb d) (d_fleet d))"
| "phase_ok d (Exited _) = (length (d_jobs d) = demo_total \<and> d_wg d = 0 \<and> halted (d_breaker d))"
| "phase_ok d (Crashed m) = (length (d_jobs d) \<le> demo_total \<and> (\<exists>c \<in> set (calls (d_breaker d)). c_pc c = Done (Panicked m)))"

definition demo_fleet :: "gotime \<Rightarrow> fleet" where
  "demo_fleet t = adopt (snd (manager_NewCircuitBreaker 50 200 30 5 ''google'' (world_of (new_fleet t)))) (new_fleet t)"

definition demo_inv :: "gotime \<Rightarrow> demo \<Rightarrow> bool" where
  "demo_inv t d \<longleftrightarrow> fleet_step\<^sup>*\<^sup>* (demo_fleet t) (d_fleet d) \<and> d_cb d = 0 \<and>
     GetCircuitBreaker ''google'' (world_of (d_fleet d)) = Some 0 \<and> jobs_ok d \<and> phase_ok d (d_main d)"

lemma demo_fleet_reached: "fleet_step\<^sup>*\<^sup>* (new_fleet t) (demo_fleet t)"
  unfolding demo_fleet_def by (rule r_into_rtranclp, rule fleet_step.created, rule creates.new)

lemma demo_fleet_fields:
  "members (demo_fleet t) = [new_system (NewCircuitBreaker ''google'' 50 200 30 5) t]"
  "GetCircuitBreaker ''google'' (world_of (demo_fleet t)) = Some 0" "stoppers (demo_fleet t) = []"
  by (simp_all add: demo_fleet_def adopt_def world_of_def new_fleet_def NewManager_def manager_NewCircuitBreaker_def
      register_def GetCircuitBreaker_def Let_def)

lemma demo_reach:
  assumes "demo_inv t d"
  shows "fleet_inv (d_fleet d)" and "awaited (d_fleet d)" and "client_ok d"
proof -
  have later: "fleet_step\<^sup>*\<^sup>* (demo_fleet t) (d_fleet d)" and cb: "d_cb d = 0" using assms by (simp_all add: demo_inv_def)
  note r = fleet_reach [OF rtranclp_trans [OF demo_fleet_reached later]]
  show "fleet_inv (d_fleet d)" "awaited (d_fleet d)" by (rule r)+
  have "0 < length (members (demo_fleet t))" by (simp add: demo_fleet_fields)
  from fleet_steps_members [OF later fleet_reach(1) [OF demo_fleet_reached] this] r(1) cb
  show "client_ok d" by (simp add: client_ok_def)
qed

lemma main_begin_inv: "main_begin net_Listen t = Inr d \<Longrightarrow> demo_inv t d"
proof -
  assume b: "main_begin net_Listen t = Inr d"
  have cb: "fst (manager_NewCircuitBreaker 50 200 30 5 ''google'' (world_of (new_fleet t))) = 0"
    by (simp add: manager_NewCircuitBreaker_def register_def world_of_def new_fleet_def NewManager_def Let_def)
  have d: "d_main d = Spawning 0" "d_fleet d = demo_fleet t" "d_cb d = 0" "d_wg d = 0" "d_jobs d = []"
    using b cb by (auto simp: main_begin_def demo_fleet_def Let_def split: prod.splits option.splits)
  then have "d_breaker d = new_system (NewCircuitBreaker ''google'' 50 200 30 5) t" by (simp add: d_breaker_def demo_fleet_fields)
  with d show ?thesis by (simp add: demo_inv_def jobs_ok_def demo_fleet_fields)
qed

text \<open>What the jobs require of the breaker's calls and the counter.\<close>

lemma jobs_okI:
  assumes "d_wg d = length (filter open_job (d_jobs d))"
    and "length (calls (d_breaker d)) + length (filter ((=) Created) (d_jobs d)) \<le> length (d_jobs d)"
    and "\<And>n. n < length (calls (d_breaker d)) \<Longrightarrow> Calling n \<notin> set (d_jobs d) \<Longrightarrow> \<exists>res. c_pc (calls (d_breaker d) ! n) = Done res"
    and "\<And>n. Calling n \<in> set (d_jobs d) \<Longrightarrow> n < length (calls (d_breaker d))"
  shows "jobs_ok d"
  using assms unfolding jobs_ok_def by blast

lemma jobs_okD:
  assumes "jobs_ok d"
  shows "d_wg d = length (filter open_job (d_jobs d))"
    and "length (calls (d_breaker d)) + length (filter ((=) Created) (d_jobs d)) \<le> length (d_jobs d)"
    and "n < length (calls (d_breaker d)) \<Longrightarrow> Calling n \<notin> set (d_jobs d) \<Longrightarrow> \<exists>res. c_pc (calls (d_breaker d) ! n) = Done res"
    and "Calling n \<in> set (d_jobs d) \<Longrightarrow> n < length (calls (d_breaker d))"
  using assms unfolding jobs_ok_def by blast+

lemma jobs_end:
  assumes "jobs_ok d" and "j < length (d_jobs d)" and "open_job (d_jobs d ! j)"
    and "\<And>n. d_jobs d ! j = Calling n \<Longrightarrow> c_pc (calls (d_breaker d) ! n) = Done res"
  shows "jobs_ok (job_end j res d)"
proof -
  have ended: "jobs_ok (d\<lparr>d_jobs := (d_jobs d)[j := Ended l], d_wg := d_wg d - 1\<rparr>)" (is "jobs_ok ?d") for l
  proof (rule jobs_okI)
    have b: "d_breaker ?d = d_breaker d" by (simp add: d_breaker_def)
    show "d_wg ?d = length (filter open_job (d_jobs ?d))"
      using length_filter_list_update [OF assms(2), of open_job "Ended l"] assms(3) jobs_okD(1) [OF assms(1)] by simp
    have "length (filter ((=) Created) ((d_jobs d)[j := Ended l])) \<le> length (filter ((=) Created) (d_jobs d))"
      using length_filter_list_update [OF assms(2), of "(=) Created" "Ended l"] by (simp split: if_splits)
    with jobs_okD(2) [OF assms(1)]
    show "length (calls (d_breaker ?d)) + length (filter ((=) Created) (d_jobs ?d)) \<le> length (d_jobs ?d)"
      unfolding b by simp
    show "n < length (calls (d_breaker ?d))" if "Calling n \<in> set (d_jobs ?d)" for n
      using that jobs_okD(4) [OF assms(1)] set_update_old [of "Calling n" "d_jobs d" j "Ended l"] unfolding b by simp
    show "\<exists>res. c_pc (calls (d_breaker ?d) ! n) = Done res"
      if "n < length (calls (d_breaker ?d))" "Calling n \<notin> set (d_jobs ?d)" for n
    proof (cases "d_jobs d ! j = Calling n")
      case True
      then show ?thesis using assms(4) unfolding b by blast
    next
      case False
      with that(2) have "Calling n \<notin> set (d_jobs d)" using set_update_other [of "Calling n" "d_jobs d" j] by auto
      with that(1) jobs_okD(3) [OF assms(1)] show ?thesis unfolding b by blast
    qed
  qed
  have "jobs_ok (d\<lparr>d_main := x\<rparr>)" for x using assms(1) by (simp add: jobs_ok_def d_breaker_def)
  with ended show ?thesis by (simp add: job_end_def split: do_result.splits option.splits)
qed

lemma jobs_same:
  assumes "jobs_ok d" and "d_jobs d' = d_jobs d" and "d_wg d' = d_wg d" and "length (calls (d_breaker d')) = length (calls (d_breaker d))"
    and "\<And>n res. c_pc (calls (d_breaker d) ! n) = Done res \<Longrightarrow> c_pc (calls (d_breaker d') ! n) = Done res"
  shows "jobs_ok d'"
proof (rule jobs_okI)
  show "\<exists>res. c_pc (calls (d_breaker d') ! n) = Done res"
    if "n < length (calls (d_breaker d'))" "Calling n \<notin> set (d_jobs d')" for n
  proof -
    have "\<exists>res. c_pc (calls (d_breaker d) ! n) = Done res" using jobs_okD(3) [OF assms(1), of n] that assms(2,4) by simp
    with assms(5) show ?thesis by blast
  qed
qed (use jobs_okD(1,2,4) [OF assms(1)] assms(2-4) in simp_all)

lemma jobs_spawn:
  assumes "jobs_ok d"
  shows "jobs_ok (d\<lparr>d_main := x, d_wg := Suc (d_wg d), d_jobs := d_jobs d @ [Created]\<rparr>)" (is "jobs_ok ?d")
proof (rule jobs_okI)
  have b: "d_breaker ?d = d_breaker d" by (simp add: d_breaker_def)
  show "\<exists>res. c_pc (calls (d_breaker ?d) ! n) = Done res"
    if "n < length (calls (d_breaker ?d))" "Calling n \<notin> set (d_jobs ?d)" for n
    using jobs_okD(3) [OF assms, of n] that unfolding b by simp
  show "n < length (calls (d_breaker ?d))" if "Calling n \<in> set (d_jobs ?d)" for n
    using jobs_okD(4) [OF assms, of n] that unfolding b by simp
qed (use jobs_okD(1,2) [OF assms] in \<open>simp_all add: d_breaker_def\<close>)

lemma jobs_call:
  assumes "jobs_ok d" and "client_ok d" and "j < length (d_jobs d)" and "d_jobs d ! j = Created"
  shows "jobs_ok (with_breaker ((d_breaker d)\<lparr>calls := calls (d_breaker d) @ [c]\<rparr>)
      (d\<lparr>d_jobs := (d_jobs d)[j := Calling (length (calls (d_breaker d)))]\<rparr>))" (is "jobs_ok ?d")
proof (rule jobs_okI)
  let ?m = "length (calls (d_breaker d))"
  have b: "calls (d_breaker ?d) = calls (d_breaker d) @ [c]"
    using assms(2) by (subst with_breaker_at) (simp_all add: client_ok_def)
  show "d_wg ?d = length (filter open_job (d_jobs ?d))"
    using length_filter_list_update [OF assms(3), of open_job "Calling ?m"] jobs_okD(1) [OF assms(1)] assms(4) by simp
  show "length (calls (d_breaker ?d)) + length (filter ((=) Created) (d_jobs ?d)) \<le> length (d_jobs ?d)"
    using length_filter_list_update [OF assms(3), of "(=) Created" "Calling ?m"] jobs_okD(2) [OF assms(1)] assms(4) unfolding b by simp
  show "n < length (calls (d_breaker ?d))" if "Calling n \<in> set (d_jobs ?d)" for n
    using that jobs_okD(4) [OF assms(1), of n] set_update_old [of "Calling n" "d_jobs d" j "Calling ?m"]
    unfolding b by (cases "n = ?m") auto
  show "\<exists>res. c_pc (calls (d_breaker ?d) ! n) = Done res"
    if "n < length (calls (d_breaker ?d))" "Calling n \<notin> set (d_jobs ?d)" for n
  proof (cases "n = ?m")
    case True
    have "Calling ?m \<in> set (d_jobs ?d)" using assms(3) by (simp add: set_update_memI)
    with True that(2) show ?thesis by blast
  next
    case False
    with that(1) have n: "n < ?m" unfolding b by simp
    have "Calling n \<notin> set (d_jobs d)"
      using that(2) assms(4) set_update_other [of "Calling n" "d_jobs d" j "Calling ?m"] by auto
    with n jobs_okD(3) [OF assms(1)] show ?thesis unfolding b by (simp add: nth_append)
  qed
qed

text \<open>Every step keeps the parts of the invariant.\<close>

lemma stopper_registry: "stopper_step i f = Some f' \<Longrightarrow> registry f' = registry f"
  by (auto simp: stopper_step_def stop_member_def split: stopper.splits list.splits if_splits)

lemma demo_frame:
  assumes "demo_step d d'"
  shows "d_cb d' = d_cb d" and "registry (d_fleet d') = registry (d_fleet d)"
  using assms by (auto elim!: demo_step.cases simp: stopAll_begin_def stopper_registry)

lemma request_enters: "Do_enter env cb (Some (teste_request addr)) cl \<noteq> Inl res"
  by (simp add: Do_enter_def teste_request_def Let_def)

lemma stopper_calls:
  assumes "stopper_step i f = Some f'" and "a < length (members f)"
  shows "calls (members f' ! a) = calls (members f ! a)"
  using assms by (auto simp: stopper_step_def stop_member_def nth_list_update split: stopper.splits list.splits if_splits)
    (metis nth_list_update_eq nth_list_update_neq system.select_convs(2) system.surjective system.update_convs(1))

lemma demo_jobs_step:
  assumes "demo_step d d'" and "jobs_ok d" and "client_ok d"
  shows "jobs_ok d'"
  using assms(1)
proof cases
  case (spawn i)
  then show ?thesis using jobs_spawn [OF assms(2)] by simp
next
  case spawned
  then show ?thesis by (intro jobs_same [OF assms(2)]) (simp_all add: d_breaker_def)
next
  case (call j env c)
  then show ?thesis using jobs_call [OF assms(2,3)] by simp
next
  case (no_call j env res)
  then show ?thesis using request_enters by blast
next
  case (inner s)
  have "d_breaker d' = s" using inner(1) assms(3) by (simp add: client_ok_def)
  then show ?thesis using inner(1) breaker_sys [OF inner(3)] breaker_done [OF inner(3)]
    by (intro jobs_same [OF assms(2)]) simp_all
next
  case (time t)
  have "calls (d_breaker d') = calls (d_breaker d)" using time(1) assms(3) by (simp add: d_breaker_def client_ok_def)
  then show ?thesis using time(1) by (intro jobs_same [OF assms(2)]) simp_all
next
  case (returns j n res)
  then show ?thesis using jobs_end [OF assms(2) returns(3), of res] by simp
next
  case (joined shuffle)
  then show ?thesis by (intro jobs_same [OF assms(2)]) (simp_all add: d_breaker_def stopAll_begin_def)
next
  case (stop f)
  have "calls (d_breaker d') = calls (d_breaker d)"
    using stop(1) stopper_calls [OF stop(3)] assms(3) by (simp add: d_breaker_def client_ok_def)
  then show ?thesis using stop(1) by (intro jobs_same [OF assms(2)]) simp_all
next
  case stopped
  then show ?thesis by (intro jobs_same [OF assms(2)]) (simp_all add: d_breaker_def)
qed

lemma phase_same:
  assumes "phase_ok d p" and "length (d_jobs d') = length (d_jobs d)" and "stoppers (d_fleet d') = stoppers (d_fleet d)"
    and "d_wg d = 0 \<longrightarrow> d_wg d' = 0" and "to_halt 0 (d_cb d) (d_fleet d) \<longrightarrow> to_halt 0 (d_cb d') (d_fleet d')"
    and "(case p of Exited _ \<Rightarrow> False | Crashed _ \<Rightarrow> False | _ \<Rightarrow> True)"
  shows "phase_ok d' p"
  using assms by (cases p) simp_all

lemma to_halt_fleet:
  assumes "demo_inv t d" and "fleet_step\<^sup>*\<^sup>* (d_fleet d) (d_fleet d')" and "d_cb d' = d_cb d"
  shows "to_halt 0 (d_cb d) (d_fleet d) \<longrightarrow> to_halt 0 (d_cb d') (d_fleet d')"
  using to_halt_steps [OF assms(2) demo_reach(1,2) [OF assms(1)]] assms(3) by simp

lemma job_end_phase:
  assumes "demo_inv t d" and "alive d" and "Calling n \<in> set (d_jobs d)" and "c_pc (calls (d_breaker d) ! n) = Done res"
  shows "phase_ok (job_end j res d) (d_main (job_end j res d))"
proof -
  have ok: "jobs_ok d" "phase_ok d (d_main d)" using assms(1) by (simp_all add: demo_inv_def)
  have n: "calls (d_breaker d) ! n \<in> set (calls (d_breaker d))" using jobs_okD(4) [OF ok(1) assms(3)] by simp
  obtain k where "sys_run k (d_breaker d)"
    using fleet_run_member [OF demo_reach(1) [OF assms(1)]] demo_reach(3) [OF assms(1)]
    by (auto simp: client_ok_def d_breaker_def)
  then have "reach (brk (d_breaker d)) (calls (d_breaker d) ! n)" using run_inv n by (auto simp: sys_inv_def)
  from resources.holds [OF this] assms(4) have one: "one_of res" by (simp add: resource_law_def)
  have jobs: "length (d_jobs d) \<le> demo_total" using ok(2) assms(2) by (auto simp: alive_def split: main_pc.splits)
  consider (panic) m where "res = Panicked m" | (line) l where
      "job_end j res d = d\<lparr>d_jobs := (d_jobs d)[j := Ended l], d_wg := d_wg d - 1\<rparr>"
    using one by (cases res) (auto simp: job_end_def split: option.splits)
  then show ?thesis
  proof cases
    case panic
    with assms(4) n jobs show ?thesis by (auto simp: job_end_def d_breaker_def)
  next
    case line
    show ?thesis
      unfolding line using assms(2) ok(2) by (auto simp: alive_def intro!: phase_same [OF ok(2)] split: main_pc.splits)
  qed
qed

lemma demo_phase_step:
  assumes "demo_step d d'" and "demo_inv t d" and f: "fleet_step\<^sup>*\<^sup>* (d_fleet d) (d_fleet d')"
  shows "phase_ok d' (d_main d')"
proof -
  have ok: "jobs_ok d" "phase_ok d (d_main d)" "d_cb d = 0" using assms(2) by (simp_all add: demo_inv_def)
  note halt = to_halt_fleet [OF assms(2) f demo_frame(1) [OF assms(1)]]
  from assms(1) show ?thesis
  proof cases
    case (call j env c)
    have "phase_ok d' (d_main d)" using call halt by (intro phase_same [OF ok(2)]) (simp_all add: alive_def)
    then show ?thesis using call(1) by simp
  next
    case (no_call j env res)
    then show ?thesis using request_enters by blast
  next
    case (inner s)
    have "phase_ok d' (d_main d)" using inner halt by (intro phase_same [OF ok(2)]) (simp_all add: alive_def)
    then show ?thesis using inner(1) by simp
  next
    case (time u)
    have "phase_ok d' (d_main d)" using time halt by (intro phase_same [OF ok(2)]) (simp_all add: alive_def)
    then show ?thesis using time(1) by simp
  next
    case (returns j n res)
    then show ?thesis using job_end_phase [OF assms(2), of n res j] nth_mem [of j "d_jobs d"] by simp
  next
    case (joined shuffle)
    have "GetCircuitBreaker ''google'' (world_of (d_fleet d)) = Some 0" using assms(2) by (simp add: demo_inv_def)
    then have "0 \<in> set (map snd (m_cb (registry (d_fleet d))))"
      by (force simp: GetCircuitBreaker_def world_of_def dest!: map_of_SomeD)
    with shuffle_set [OF joined(4)] have "0 \<in> set (shuffle (map snd (m_cb (registry (d_fleet d)))))" by blast
    moreover have "0 < length (members (d_fleet d))" using demo_reach(3) [OF assms(2)] ok(3) by (simp add: client_ok_def)
    ultimately show ?thesis using joined(1-3) ok by (simp add: to_halt_def stopAll_begin_def)
  next
    case (stop f)
    then show ?thesis using ok(2) halt by simp
  next
    case stopped
    then show ?thesis using ok(2) by (simp add: to_halt_def d_breaker_def)
  qed (use ok in simp_all)
qed

lemma demo_step_fleet:
  assumes "demo_step d d'" and "demo_inv t d"
  shows "fleet_step\<^sup>*\<^sup>* (d_fleet d) (d_fleet d')"
proof (rule demo_fleet_step [OF assms(1) demo_reach(3) [OF assms(2)]])
  show "0 < length (stoppers (d_fleet d))" if "d_main d = StoppingAll"
    using assms(2) that by (simp add: demo_inv_def to_halt_def)
qed

lemma demo_inv_step:
  assumes "demo_step d d'" and "demo_inv t d"
  shows "demo_inv t d'"
proof -
  note f = demo_step_fleet [OF assms]
  have "jobs_ok d'" using demo_jobs_step [OF assms(1) _ demo_reach(3) [OF assms(2)]] assms(2) by (simp add: demo_inv_def)
  moreover have "phase_ok d' (d_main d')" by (rule demo_phase_step [OF assms f])
  ultimately show ?thesis
    using assms(2) rtranclp_trans [OF _ f] demo_frame [OF assms(1)]
    by (auto simp: demo_inv_def GetCircuitBreaker_def world_of_def)
qed

lemma demo_runs: "demo_step\<^sup>*\<^sup>* d d' \<Longrightarrow> demo_inv t d \<Longrightarrow> demo_inv t d'"
  by (induction rule: rtranclp_induct) (use demo_inv_step in auto)

section \<open>Properties\<close>

lemma google_bucket:
  "tokens (NewCircuitBreaker ''google'' 50 200 30 5) = Some \<lparr>ch_len = 200, ch_cap = 200\<rparr>"
  "tokensPerTick (NewCircuitBreaker ''google'' 50 200 30 5) = 1"
  "tokenInterval (NewCircuitBreaker ''google'' 50 200 30 5) = 150 * millisecond"
  "MaxConcurrent (NewCircuitBreaker ''google'' 50 200 30 5) = 50"
  "MaxRetries (NewCircuitBreaker ''google'' 50 200 30 5) = 5"
proof -
  let ?cb = "newCircuitBreaker ''google'' 50 200 30 5"
  show "tokens (NewCircuitBreaker ''google'' 50 200 30 5) = Some \<lparr>ch_len = 200, ch_cap = 200\<rparr>"
    using initTokenBucket_on(1) [of ?cb]
    by (simp add: NewCircuitBreaker_def newCircuitBreaker_def bucket_capacity_def maxBucketCapacity_def)
  show "tokensPerTick (NewCircuitBreaker ''google'' 50 200 30 5) = 1"
    "tokenInterval (NewCircuitBreaker ''google'' 50 200 30 5) = 150 * millisecond"
    by (simp_all add: NewCircuitBreaker_def initTokenBucket_def newCircuitBreaker_def startTokenBucket_def Let_def
        minTokenInterval_def wrap64_def signed_divide_int_def)
qed (simp_all add: NewCircuitBreaker_def newCircuitBreaker_def frame_simps)

lemma attempts_at_most: "attempts_at n c p \<Longrightarrow> 0 \<le> n \<Longrightarrow> n_sent c \<le> n + 1"
  by (cases p) (auto simp: before_def in_flight_def counts_iff ended_def empty_counts)

lemma demo_breaker_run:
  assumes "demo_inv t d"
  shows "sys_step\<^sup>*\<^sup>* (new_system (NewCircuitBreaker ''google'' 50 200 30 5) t) (d_breaker d)"
proof -
  have later: "fleet_step\<^sup>*\<^sup>* (demo_fleet t) (d_fleet d)" "d_cb d = 0" using assms by (simp_all add: demo_inv_def)
  have "0 < length (members (demo_fleet t))" by (simp add: demo_fleet_fields)
  from fleet_steps_members [OF later(1) fleet_reach(1) [OF demo_fleet_reached] this] later(2) show ?thesis
    by (simp add: demo_fleet_fields d_breaker_def)
qed

lemma phase_jobs: "phase_ok d p \<Longrightarrow> length (d_jobs d) \<le> demo_total"
  by (cases p) simp_all

lemma all_ended:
  assumes "jobs_ok d" and "d_wg d = 0"
  shows "\<forall>j \<in> set (d_jobs d). \<exists>l. j = Ended l"
proof
  fix j assume "j \<in> set (d_jobs d)"
  moreover have "filter open_job (d_jobs d) = []" using assms(2) jobs_okD(1) [OF assms(1)] by simp
  ultimately have "\<not> open_job j" by (simp add: filter_empty_conv)
  then show "\<exists>l. j = Ended l" by (cases j) simp_all
qed

definition demo_reaches :: "gotime \<Rightarrow> demo \<Rightarrow> bool" where
  "demo_reaches t d \<longleftrightarrow> (\<exists>net_Listen d0. main_begin net_Listen t = Inr d0 \<and> demo_step\<^sup>*\<^sup>* d0 d)"

lemma demo_reaches_inv: "demo_reaches t d \<Longrightarrow> demo_inv t d"
  using main_begin_inv demo_runs by (auto simp: demo_reaches_def)

text \<open>C34: The demonstration waits for everything it started: \<open>main\<close> gets past \<open>wg.Wait\<close> only when each of
  its 3000 goroutines has printed a line and no call is left in the breaker, with no slot of the
  semaphore taken; when it exits, the refiller has ended; and it crashes only when a call of \<open>Do\<close>
  has panicked, never by reading a response that is not there.\<close>

theorem demo_joins:
  assumes "demo_reaches t d"
  shows "(d_main d = StoppingAll \<or> (\<exists>e. d_main d = Exited e) \<longrightarrow>
      length (d_jobs d) = 3000 \<and> (\<forall>j \<in> set (d_jobs d). \<exists>l. j = Ended l) \<and>
      (\<forall>c \<in> set (calls (d_breaker d)). \<exists>res. c_pc c = Done res \<and> \<not> c_slot c)) \<and>
    (\<forall>e. d_main d = Exited e \<longrightarrow> halted (d_breaker d)) \<and>
    (\<forall>m. d_main d = Crashed m \<longrightarrow> (\<exists>c \<in> set (calls (d_breaker d)). c_pc c = Done (Panicked m)))"
proof (intro conjI impI allI)
  note inv = demo_reaches_inv [OF assms]
  have ok: "jobs_ok d" "phase_ok d (d_main d)" using inv by (simp_all add: demo_inv_def)
  have "\<exists>k. sys_run k (d_breaker d)"
    using fleet_run_member [OF demo_reach(1) [OF inv]] demo_reach(3) [OF inv] by (simp add: client_ok_def d_breaker_def)
  then have reach: "\<forall>c \<in> set (calls (d_breaker d)). reach (brk (d_breaker d)) c" using run_inv by (auto simp: sys_inv_def)
  show "halted (d_breaker d)" if "d_main d = Exited e" for e using ok(2) that by simp
  show "\<exists>c \<in> set (calls (d_breaker d)). c_pc c = Done (Panicked m)" if "d_main d = Crashed m" for m using ok(2) that by simp
  assume "d_main d = StoppingAll \<or> (\<exists>e. d_main d = Exited e)"
  then have p: "length (d_jobs d) = demo_total" "d_wg d = 0" using ok(2) by auto
  then show "length (d_jobs d) = 3000" by (simp add: demo_total_def)
  show all: "\<forall>j \<in> set (d_jobs d). \<exists>l. j = Ended l" by (rule all_ended [OF ok(1) p(2)])
  show "\<forall>c \<in> set (calls (d_breaker d)). \<exists>res. c_pc c = Done res \<and> \<not> c_slot c"
  proof
    fix c assume c: "c \<in> set (calls (d_breaker d))"
    then obtain n where n: "n < length (calls (d_breaker d))" "c = calls (d_breaker d) ! n" by (auto simp: in_set_conv_nth)
    have "Calling n \<notin> set (d_jobs d)" using all by blast
    with jobs_okD(3) [OF ok(1) n(1)] n(2) obtain res where res: "c_pc c = Done res" by blast
    with resources.holds [of "brk (d_breaker d)" c] reach c show "\<exists>res. c_pc c = Done res \<and> \<not> c_slot c"
      by (auto simp: resource_law_def)
  qed
qed

lemma demo_starts:
  "\<exists>d. demo_reaches 0 d \<and> d_main d = Spawning 0 \<and> d_fleet d = demo_fleet 0 \<and> d_cb d = 0 \<and> d_jobs d = [] \<and> d_wg d = 0"
proof -
  have "\<exists>d. main_begin (\<lambda>a. Inr a) 0 = Inr d \<and> d_main d = Spawning 0 \<and> d_fleet d = demo_fleet 0 \<and> d_cb d = 0 \<and> d_jobs d = [] \<and> d_wg d = 0"
    by (simp add: main_begin_def Start_def bind_def demo_fleet_def manager_NewCircuitBreaker_def register_def world_of_def
        new_fleet_def NewManager_def Let_def)
  then show ?thesis by (auto simp: demo_reaches_def)
qed

text \<open>C35: The limits the demonstration configures hold over its whole run: at most 3000 calls are made, at
  most 50 are inside the breaker at any moment, each sends at most 6 requests, and all calls together
  have sent at most 200 requests and one more for each 150 milliseconds that have passed.\<close>

theorem demo_limits:
  assumes "demo_reaches t d"
  shows "length (calls (d_breaker d)) \<le> 3000 \<and>
    length (filter (\<lambda>c. inside (c_pc c)) (calls (d_breaker d))) \<le> 50 \<and>
    (\<forall>c \<in> set (calls (d_breaker d)). n_sent c \<le> 6) \<and>
    (\<Sum>c \<leftarrow> calls (d_breaker d). n_sent c) \<le> 200 + (now (d_breaker d) - t) div (150 * millisecond)"
proof (intro conjI)
  note inv = demo_reaches_inv [OF assms]
  have ok: "jobs_ok d" "phase_ok d (d_main d)" using inv by (simp_all add: demo_inv_def)
  show "length (calls (d_breaker d)) \<le> 3000"
    using jobs_okD(2) [OF ok(1)] phase_jobs [OF ok(2)] by (simp add: demo_total_def)
  have "made (NewCircuitBreaker ''google'' 50 200 30 5)" by (rule made_new)
  then obtain k where k: "sys_run k (new_system (NewCircuitBreaker ''google'' 50 200 30 5) t)" using made_runs by blast
  from run_spends [OF demo_breaker_run [OF inv] k] obtain k' where
    sp: "spends (new_system (NewCircuitBreaker ''google'' 50 200 30 5) t) (d_breaker d)" and k': "sys_run k' (d_breaker d)" by blast
  have reach: "\<forall>c \<in> set (calls (d_breaker d)). reach (brk (d_breaker d)) c" using run_inv [OF k'] by (simp add: sys_inv_def)
  have cfg: "MaxConcurrent (brk (d_breaker d)) = 50" "MaxRetries (brk (d_breaker d)) = 5"
    using steps_config [OF demo_breaker_run [OF inv] k] google_bucket by (simp_all add: same_config_def)
  show "length (filter (\<lambda>c. inside (c_pc c)) (calls (d_breaker d))) \<le> 50"
    using inside_bounded [OF k'] cfg(1) by simp
  show "\<forall>c \<in> set (calls (d_breaker d)). n_sent c \<le> 6"
  proof
    fix c assume "c \<in> set (calls (d_breaker d))"
    with reach have "reach (brk (d_breaker d)) c" by blast
    from attempts.holds [OF this] cfg(2) have "attempts_at 5 c (c_pc c)" by (simp add: attempts_law_def)
    then show "n_sent c \<le> 6" using attempts_at_most by fastforce
  qed
  have opts: "\<forall>opt \<in> set []. opt = None \<or> (\<exists>f. opt = Some f \<and> package_option f)" by simp
  have steps: "sys_step\<^sup>*\<^sup>* (new_system (NewCircuitBreakerWithOptions ''google'' 50 200 30 5 []) t) (d_breaker d)"
    using demo_breaker_run [OF inv] by (simp add: NewCircuitBreaker_def NewCircuitBreakerWithOptions_def)
  obtain ch where ch: "tokens (brk (d_breaker d)) = Some ch" "ch_cap ch = 200" "tokensPerTick (brk (d_breaker d)) = 1"
    using sp by (auto simp: spends_def google_bucket)
  have "tokenInterval (brk (d_breaker d)) = 150 * millisecond"
    using steps_timed [OF demo_breaker_run [OF inv] k timed_new] google_bucket(3) by (simp add: timed_from_def)
  with taken_since_start [OF opts steps ch(1)] ch
  have "all_taken (d_breaker d) \<le> 200 + (now (d_breaker d) - t) div (150 * millisecond)" by simp
  moreover have "(\<Sum>c \<leftarrow> calls (d_breaker d). n_sent c) \<le> all_taken (d_breaker d)"
    unfolding all_taken_def using reach sent_taken by (intro sum_list_mono) blast
  ultimately show "(\<Sum>c \<leftarrow> calls (d_breaker d). n_sent c) \<le> 200 + (now (d_breaker d) - t) div (150 * millisecond)" by simp
qed

theorem demo_limits_witness:
  "\<exists>d. demo_reaches 0 d \<and> (\<Sum>c \<leftarrow> calls (d_breaker d). n_sent c) \<le> 200 + (now (d_breaker d) - 0) div (150 * millisecond)"
proof -
  obtain d where "demo_reaches 0 d" using demo_starts by blast
  with demo_limits [OF this] show ?thesis by blast
qed

end
