(* ===== verification/Demo_Live.thy ===== *)
theory Demo_Live
  imports Demo
begin

text \<open>
  The demonstration can always come to its end: \<open>main\<close> joins its goroutines, stops the breaker and
  exits, as long as the transport has not panicked. The breaker's own liveness (System\_Live) brings
  the calls to an end, that of the manager (Fleet) the stop.
\<close>

section \<open>The breaker inside the demonstration\<close>

text \<open>Nothing but the breaker, the clock and what it is the clock of has changed.\<close>

definition still :: "demo \<Rightarrow> demo \<Rightarrow> bool" where
  "still d d' \<longleftrightarrow> d_main d' = d_main d \<and> d_jobs d' = d_jobs d \<and> d_wg d' = d_wg d \<and>
     registry (d_fleet d') = registry (d_fleet d) \<and> stoppers (d_fleet d') = stoppers (d_fleet d) \<and>
     length (members (d_fleet d')) = length (members (d_fleet d))"

lemma still_refl: "still d d"
  by (simp add: still_def)

lemma still_trans: "still d d' \<Longrightarrow> still d' d'' \<Longrightarrow> still d d''"
  by (simp add: still_def)

lemma still_alive: "still d d' \<Longrightarrow> alive d' = alive d"
  by (simp add: still_def alive_def)

lemma moves_demo:
  assumes "moves\<^sup>*\<^sup>* (d_breaker d) s" and "demo_inv t d" and "alive d"
  shows "\<exists>d'. demo_step\<^sup>*\<^sup>* d d' \<and> d_breaker d' = s \<and> still d d'"
  using assms(1)
proof (induction rule: rtranclp_induct)
  case base
  then show ?case using still_refl by blast
next
  case (step s1 s2)
  then obtain d1 where d1: "demo_step\<^sup>*\<^sup>* d d1" "d_breaker d1 = s1" "still d d1" by blast
  have ok: "client_ok d1" by (rule demo_reach(3) [OF demo_runs [OF d1(1) assms(2)]])
  have al: "alive d1" using still_alive [OF d1(3)] assms(3) by simp
  from step(2) consider "inner_step s1 s2" | u where "now s1 \<le> u" "s2 = s1\<lparr>now := u\<rparr>" by (auto simp: moves_def)
  then have "\<exists>d'. demo_step d1 d' \<and> d_breaker d' = s2 \<and> still d1 d'"
  proof cases
    case 1
    have "demo_step d1 (with_breaker s2 d1)" using 1 d1(2) al by (intro demo_step.inner breaker_step.own) simp_all
    moreover have "d_breaker (with_breaker s2 d1) = s2" using ok by (simp add: client_ok_def)
    moreover have "still d1 (with_breaker s2 d1)" by (simp add: still_def with_breaker_def)
    ultimately show ?thesis by blast
  next
    case 2
    let ?d = "d1\<lparr>d_fleet := (d_fleet d1)\<lparr>members := map (\<lambda>s. s\<lparr>now := u\<rparr>) (members (d_fleet d1)), fleet_now := u\<rparr>\<rparr>"
    have "demo_step d1 ?d" using 2 d1(2) al breaker_now [OF ok] by (intro demo_step.time) simp_all
    moreover have "d_breaker ?d = s2" using ok 2 d1(2) by (simp add: d_breaker_def client_ok_def)
    moreover have "still d1 ?d" by (simp add: still_def)
    ultimately show ?thesis by blast
  qed
  then obtain d' where d': "demo_step d1 d'" "d_breaker d' = s2" "still d1 d'" by blast
  have "demo_step\<^sup>*\<^sup>* d d'" using d1(1) d'(1) by (rule rtranclp.rtrancl_into_rtrancl)
  with d'(2) still_trans [OF d1(3) d'(3)] show ?case by blast
qed

lemma demo_steps_fleet: "demo_step\<^sup>*\<^sup>* d d' \<Longrightarrow> demo_inv t d \<Longrightarrow> fleet_step\<^sup>*\<^sup>* (d_fleet d) (d_fleet d') \<and> d_cb d' = d_cb d"
proof (induction rule: rtranclp_induct)
  case (step d1 d2)
  have "fleet_step\<^sup>*\<^sup>* (d_fleet d1) (d_fleet d2)" using demo_step_fleet [OF step(2) demo_runs [OF step(1,4)]] .
  with step.IH [OF step(4)] demo_frame(1) [OF step(2)] show ?case by (auto intro: rtranclp_trans)
qed simp

lemma demo_steps_config:
  assumes "demo_step\<^sup>*\<^sup>* d d'" and "demo_inv t d"
  shows "same_config (brk (d_breaker d)) (brk (d_breaker d'))"
proof -
  have ok: "fleet_inv (d_fleet d)" "d_cb d < length (members (d_fleet d))"
    using demo_reach [OF assms(2)] by (simp_all add: client_ok_def)
  obtain k where "sys_run k (d_breaker d)" using fleet_run_member [OF ok] by (auto simp: d_breaker_def)
  moreover have "sys_step\<^sup>*\<^sup>* (d_breaker d) (d_breaker d')"
    using demo_steps_fleet [OF assms] fleet_steps_members [OF _ ok] by (simp add: d_breaker_def)
  ultimately show ?thesis using steps_config by blast
qed

section \<open>Going on\<close>

definition calm_demo :: "demo \<Rightarrow> bool" where
  "calm_demo d \<longleftrightarrow> (\<forall>c \<in> set (calls (d_breaker d)). calm (brk (d_breaker d)) c)"

text \<open>One breaker, no panic so far.\<close>

definition healthy :: "gotime \<Rightarrow> demo \<Rightarrow> bool" where
  "healthy t d \<longleftrightarrow> demo_inv t d \<and> length (members (d_fleet d)) = 1 \<and> calm_demo d \<and> (\<forall>m. d_main d \<noteq> Crashed m)"

lemma calm_config: "calm cb c \<Longrightarrow> same_config cb cb' \<Longrightarrow> calm cb' c"
  using calm_adds [of cb c c cb'] by (simp add: adds_harmless_intros(1))

text \<open>It stays healthy when the calls stay, gain harmless events, or are new.\<close>

lemma healthy_steps:
  assumes "healthy t d" and "demo_step\<^sup>*\<^sup>* d d'" and "length (members (d_fleet d')) = length (members (d_fleet d))"
    and "\<forall>m. d_main d' \<noteq> Crashed m"
    and "\<And>c'. c' \<in> set (calls (d_breaker d')) \<Longrightarrow> c_log c' = [] \<or> (\<exists>c \<in> set (calls (d_breaker d)). adds_harmless c c')"
  shows "healthy t d'"
proof -
  have inv: "demo_inv t d" using assms(1) by (simp add: healthy_def)
  have cfg: "same_config (brk (d_breaker d)) (brk (d_breaker d'))" by (rule demo_steps_config [OF assms(2) inv])
  have "calm (brk (d_breaker d')) c'" if c': "c' \<in> set (calls (d_breaker d'))" for c'
    using assms(5) [OF c']
  proof
    assume "\<exists>c \<in> set (calls (d_breaker d)). adds_harmless c c'"
    then show ?thesis using assms(1) calm_adds [OF _ _ cfg] by (auto simp: healthy_def calm_demo_def)
  qed (simp add: calm_def)
  then show ?thesis using assms demo_runs [OF assms(2) inv] by (simp add: healthy_def calm_demo_def)
qed

lemma healthy_same:
  assumes "healthy t d" and "demo_step\<^sup>*\<^sup>* d d'" and "length (members (d_fleet d')) = length (members (d_fleet d))"
    and "\<forall>m. d_main d' \<noteq> Crashed m" and "calls (d_breaker d') = calls (d_breaker d)"
  shows "healthy t d'"
  by (rule healthy_steps [OF assms(1-4)]) (use assms(5) adds_harmless_intros(1) in auto)

fun job_cost :: "job \<Rightarrow> nat" where
  "job_cost Created = 2"
| "job_cost (Calling _) = 1"
| "job_cost (Ended _) = 0"

definition jobs_cost :: "demo \<Rightarrow> nat" where
  "jobs_cost d = sum_list (map job_cost (d_jobs d))"

definition stop_cost :: "demo \<Rightarrow> nat" where
  "stop_cost d = 2 * length (m_cb (registry (d_fleet d)))"

definition exit_cost :: "demo \<Rightarrow> nat" where
  "exit_cost d =
     (case d_main d of
        Spawning i \<Rightarrow> 3 * (demo_total - i) + jobs_cost d + stop_cost d + 3
      | Joining \<Rightarrow> jobs_cost d + stop_cost d + 2
      | StoppingAll \<Rightarrow> work (stoppers (d_fleet d) ! 0) + 1
      | _ \<Rightarrow> 0)"

definition exited :: "demo \<Rightarrow> bool" where
  "exited d \<longleftrightarrow> (\<exists>e. d_main d = Exited e)"

definition goes_on :: "gotime \<Rightarrow> demo \<Rightarrow> bool" where
  "goes_on t d \<longleftrightarrow> (\<exists>d'. demo_step\<^sup>*\<^sup>* d d' \<and> healthy t d' \<and> exit_cost d' < exit_cost d)"

lemma job_cost_update:
  "j < length js \<Longrightarrow> sum_list (map job_cost (js[j := x])) + job_cost (js ! j) = sum_list (map job_cost js) + job_cost x"
  by (induction js arbitrary: j) (auto simp: less_Suc_eq_0_disj add.commute add.left_commute split: nat.splits)

lemma spawning_goes_on:
  assumes "healthy t d" and "d_main d = Spawning i"
  shows "goes_on t d"
proof -
  have "i \<le> demo_total" using assms by (simp add: healthy_def demo_inv_def)
  then consider "i < demo_total" | "i = demo_total" by linarith
  then show ?thesis
  proof cases
    case 1
    let ?d = "d\<lparr>d_main := Spawning (Suc i), d_wg := Suc (d_wg d), d_jobs := d_jobs d @ [Created]\<rparr>"
    have step: "demo_step\<^sup>*\<^sup>* d ?d" using demo_step.spawn [OF assms(2) 1] by blast
    moreover have "healthy t ?d" by (rule healthy_same [OF assms(1) step]) (simp_all add: d_breaker_def)
    moreover have "exit_cost ?d < exit_cost d" using 1 assms(2) by (simp add: exit_cost_def jobs_cost_def stop_cost_def)
    ultimately show ?thesis unfolding goes_on_def by blast
  next
    case 2
    let ?d = "d\<lparr>d_main := Joining\<rparr>"
    have step: "demo_step\<^sup>*\<^sup>* d ?d" using demo_step.spawned assms(2) 2 by blast
    moreover have "healthy t ?d" by (rule healthy_same [OF assms(1) step]) (simp_all add: d_breaker_def)
    moreover have "exit_cost ?d < exit_cost d" using assms(2) by (simp add: exit_cost_def jobs_cost_def stop_cost_def)
    ultimately show ?thesis unfolding goes_on_def by blast
  qed
qed

lemma created_goes_on:
  assumes "healthy t d" and "d_main d = Joining" and "j < length (d_jobs d)" and "d_jobs d ! j = Created"
  shows "goes_on t d"
proof -
  have al: "alive d" using assms(2) by (simp add: alive_def)
  have ok: "client_ok d" using demo_reach(3) assms(1) by (auto simp: healthy_def)
  let ?env = "sample_env\<lparr>clock := fleet_now (d_fleet d)\<rparr>"
  obtain c where c: "Do_enter ?env (brk (d_breaker d)) (Some (teste_request (Addr (d_server d)))) (Some teste_client) = Inr c"
    using request_enters by (metis old.sum.exhaust)
  let ?n = "length (calls (d_breaker d))"
  let ?d = "with_breaker ((d_breaker d)\<lparr>calls := calls (d_breaker d) @ [c]\<rparr>) (d\<lparr>d_jobs := (d_jobs d)[j := Calling ?n]\<rparr>)"
  have step: "demo_step\<^sup>*\<^sup>* d ?d" using demo_step.call [OF al assms(3,4) _ c] by auto
  have calls: "calls (d_breaker ?d) = calls (d_breaker d) @ [c]"
    using ok by (subst with_breaker_at) (simp_all add: client_ok_def)
  have "healthy t ?d"
    by (rule healthy_steps [OF assms(1) step])
      (use assms(2) calls Do_enter_start [OF c] adds_harmless_intros(1) in \<open>auto simp: with_breaker_def\<close>)
  moreover have "exit_cost ?d < exit_cost d"
    using assms(2) job_cost_update [OF assms(3), of "Calling ?n"] assms(4)
    by (simp add: exit_cost_def jobs_cost_def stop_cost_def)
  ultimately show ?thesis using step unfolding goes_on_def by blast
qed

lemma healthy_run:
  assumes "healthy t d"
  shows "\<exists>k. sys_run k (d_breaker d)"
  using fleet_run_member demo_reach(1,3) [of t d] assms by (auto simp: healthy_def client_ok_def d_breaker_def)

text \<open>The calls in flight come to their end while the rest stands still.\<close>

lemma calls_settle_demo:
  assumes "healthy t d" and "alive d"
  shows "\<exists>d1. demo_step\<^sup>*\<^sup>* d d1 \<and> still d d1 \<and> healthy t d1 \<and> settled (d_breaker d1)"
proof -
  have inv: "demo_inv t d" using assms(1) by (simp add: healthy_def)
  obtain s where s: "moves\<^sup>*\<^sup>* (d_breaker d) s" "settling (d_breaker d) s" "settled s"
    using healthy_run [OF assms(1)] calls_settle by blast
  obtain d1 where d1: "demo_step\<^sup>*\<^sup>* d d1" "d_breaker d1 = s" "still d d1" using moves_demo [OF s(1) inv assms(2)] by blast
  have "healthy t d1"
  proof (rule healthy_steps [OF assms(1) d1(1)])
    show "length (members (d_fleet d1)) = length (members (d_fleet d))" using d1(3) by (simp add: still_def)
    show "\<forall>m. d_main d1 \<noteq> Crashed m" using d1(3) assms(1) by (simp add: still_def healthy_def)
    fix c' assume "c' \<in> set (calls (d_breaker d1))"
    then obtain i where "i < length (calls s)" "c' = calls s ! i" using d1(2) by (auto simp: in_set_conv_nth)
    then have "calls (d_breaker d) ! i \<in> set (calls (d_breaker d))" "adds_harmless (calls (d_breaker d) ! i) c'"
      using s(2) by (simp_all add: settling_def)
    then show "c_log c' = [] \<or> (\<exists>c \<in> set (calls (d_breaker d)). adds_harmless c c')" by blast
  qed
  with d1 s(3) show ?thesis by blast
qed

text \<open>A goroutine whose call has ended prints its line.\<close>

lemma ended_call_prints:
  assumes "healthy t d" and "alive d" and "j < length (d_jobs d)" and "d_jobs d ! j = Calling n"
    and "c_pc (calls (d_breaker d) ! n) = Done res"
  shows "\<exists>l. demo_step d (d\<lparr>d_jobs := (d_jobs d)[j := Ended l], d_wg := d_wg d - 1\<rparr>)"
proof -
  have "Calling n \<in> set (d_jobs d)" using assms(3,4) nth_mem by metis
  then have n: "n < length (calls (d_breaker d))" using assms(1) jobs_okD(4) by (auto simp: healthy_def demo_inv_def)
  obtain k where "sys_run k (d_breaker d)" using healthy_run [OF assms(1)] by blast
  then have reach: "reach (brk (d_breaker d)) (calls (d_breaker d) ! n)" using run_inv n by (simp add: sys_inv_def)
  have "calm (brk (d_breaker d)) (calls (d_breaker d) ! n)" using assms(1) n by (simp add: healthy_def calm_demo_def)
  then obtain r e where ret: "res = Returned r e" using calm_returns [OF reach _ assms(5)] by blast
  have "one_of res" using resources.holds [OF reach] assms(5) by (simp add: resource_law_def)
  with ret obtain l where "job_end j res d = d\<lparr>d_jobs := (d_jobs d)[j := Ended l], d_wg := d_wg d - 1\<rparr>"
    by (auto simp: job_end_def split: option.splits)
  with demo_step.returns [OF assms(2-5)] show ?thesis by metis
qed

lemma calling_goes_on:
  assumes "healthy t d" and "d_main d = Joining" and "j < length (d_jobs d)" and "d_jobs d ! j = Calling n"
  shows "goes_on t d"
proof -
  have "alive d" using assms(2) by (simp add: alive_def)
  from calls_settle_demo [OF assms(1) this] obtain d1 where
    d1: "demo_step\<^sup>*\<^sup>* d d1" "still d d1" "healthy t d1" "settled (d_breaker d1)" by blast
  have main: "d_main d1 = Joining" and j: "j < length (d_jobs d1)" "d_jobs d1 ! j = Calling n"
    using d1(2) assms(2-4) by (simp_all add: still_def)
  then have "alive d1" by (simp add: alive_def)
  have "Calling n \<in> set (d_jobs d1)" using j nth_mem by metis
  then have "n < length (calls (d_breaker d1))" using d1(3) jobs_okD(4) by (auto simp: healthy_def demo_inv_def)
  then obtain res where "c_pc (calls (d_breaker d1) ! n) = Done res" using d1(4) by (auto simp: settled_def finished_def)
  from ended_call_prints [OF d1(3) \<open>alive d1\<close> j this] obtain l where
    step: "demo_step\<^sup>*\<^sup>* d1 (d1\<lparr>d_jobs := (d_jobs d1)[j := Ended l], d_wg := d_wg d1 - 1\<rparr>)" (is "demo_step\<^sup>*\<^sup>* d1 ?d") by blast
  have "healthy t ?d" by (rule healthy_same [OF d1(3) step]) (simp_all add: main d_breaker_def)
  moreover have "exit_cost ?d < exit_cost d"
    using main assms(2) d1(2) job_cost_update [OF j(1), of "Ended l"] j(2)
    by (simp add: exit_cost_def jobs_cost_def stop_cost_def still_def)
  moreover have "demo_step\<^sup>*\<^sup>* d ?d" using d1(1) step by (rule rtranclp_trans)
  ultimately show ?thesis unfolding goes_on_def by blast
qed

lemma joined_goes_on:
  assumes "healthy t d" and "d_main d = Joining" and "\<forall>j \<in> set (d_jobs d). \<not> open_job j"
  shows "goes_on t d"
proof -
  have inv: "demo_inv t d" using assms(1) by (simp add: healthy_def)
  have "filter open_job (d_jobs d) = []" using assms(3) by (simp add: filter_empty_conv)
  then have wg: "d_wg d = 0" using inv jobs_okD(1) by (simp add: demo_inv_def)
  have none: "stoppers (d_fleet d) = []" using inv assms(2) by (simp add: demo_inv_def)
  let ?d = "d\<lparr>d_main := StoppingAll, d_fleet := stopAll_begin id (d_fleet d)\<rparr>"
  have step: "demo_step\<^sup>*\<^sup>* d ?d" using demo_step.joined [OF assms(2) wg, of id] by simp
  moreover have "healthy t ?d" by (rule healthy_same [OF assms(1) step]) (simp_all add: d_breaker_def stopAll_begin_def)
  moreover have "exit_cost ?d < exit_cost d" using assms(2) none by (simp add: exit_cost_def stop_cost_def stopAll_begin_def)
  ultimately show ?thesis unfolding goes_on_def by blast
qed

lemma stop_goes_on:
  assumes "healthy t d" and "d_main d = StoppingAll" and "stopper_step 0 (d_fleet d) = Some f"
  shows "goes_on t d"
proof -
  have inv: "demo_inv t d" using assms(1) by (simp add: healthy_def)
  have st: "0 < length (stoppers (d_fleet d))" using inv assms(2) by (simp add: demo_inv_def to_halt_def)
  have ok: "client_ok d" by (rule demo_reach(3) [OF inv])
  let ?d = "d\<lparr>d_fleet := f\<rparr>"
  have step: "demo_step\<^sup>*\<^sup>* d ?d" using demo_step.stop [OF assms(2,3)] by blast
  have len: "length (members f) = length (members (d_fleet d))" using assms(3) st by (cases rule: stopper_step_cases) simp_all
  have "healthy t ?d"
    by (rule healthy_same [OF assms(1) step])
      (use len assms(2) ok stopper_calls [OF assms(3)] in \<open>simp_all add: d_breaker_def client_ok_def\<close>)
  moreover have "exit_cost ?d < exit_cost d" using stopper_works [OF assms(3) st] assms(2) by (simp add: exit_cost_def)
  ultimately show ?thesis using step unfolding goes_on_def by blast
qed

lemma stopping_goes_on:
  assumes "healthy t d" and "d_main d = StoppingAll"
  shows "goes_on t d"
proof -
  have inv: "demo_inv t d" and one: "length (members (d_fleet d)) = 1" using assms(1) by (simp_all add: healthy_def)
  have al: "alive d" using assms(2) by (simp add: alive_def)
  have st: "0 < length (stoppers (d_fleet d))" using inv assms(2) by (simp add: demo_inv_def to_halt_def)
  show ?thesis
  proof (cases "stoppers (d_fleet d) ! 0")
    case (Stopping as)
    show ?thesis
    proof (cases as)
      case Nil
      let ?d = "d\<lparr>d_main := Exited (time_sub (fleet_now (d_fleet d)) (d_start d)), d_server := Close (d_server d)\<rparr>"
      have step: "demo_step\<^sup>*\<^sup>* d ?d" using demo_step.stopped [OF assms(2)] Stopping Nil by blast
      moreover have "healthy t ?d" by (rule healthy_same [OF assms(1) step]) (simp_all add: d_breaker_def)
      moreover have "exit_cost ?d < exit_cost d" using assms(2) by (simp add: exit_cost_def)
      ultimately show ?thesis unfolding goes_on_def by blast
    next
      case (Cons a as')
      with Stopping stop_goes_on [OF assms] show ?thesis by (simp add: stopper_step_def)
    qed
  next
    case (Awaiting a as)
    have "a = 0" using stopper_addr [OF demo_reach(1) [OF inv] st] Awaiting one by simp
    then have a: "members (d_fleet d) ! a = d_breaker d" using inv by (simp add: d_breaker_def demo_inv_def)
    obtain s where s: "inner_step\<^sup>*\<^sup>* (d_breaker d) s" "Stop_returns (brk s)" "calls s = calls (d_breaker d)"
      using awaited_leaves [OF demo_reach(1,2) [OF inv] st Awaiting] unfolding a by blast
    obtain d1 where d1: "demo_step\<^sup>*\<^sup>* d d1" "d_breaker d1 = s" "still d d1"
      using moves_demo [OF inner_moves [OF s(1)] inv al] by blast
    have h1: "healthy t d1" by (rule healthy_same [OF assms(1) d1(1)]) (use d1 s(3) assms(2) in \<open>simp_all add: still_def\<close>)
    then have "d_cb d1 = 0" by (simp add: healthy_def demo_inv_def)
    with d1 s(2) \<open>a = 0\<close> have "Stop_returns (brk (members (d_fleet d1) ! a))" by (simp add: d_breaker_def)
    moreover have "stoppers (d_fleet d1) ! 0 = Awaiting a as" using d1(3) Awaiting by (simp add: still_def)
    ultimately have "goes_on t d1" using stop_goes_on [OF h1] d1(3) assms(2) by (simp add: stopper_step_def still_def)
    moreover have "exit_cost d1 = exit_cost d" using d1(3) assms(2) by (simp add: exit_cost_def still_def)
    ultimately show ?thesis using d1(1) by (auto simp: goes_on_def intro: rtranclp_trans)
  qed
qed

interpretation exiting: progress demo_step "healthy t" exited exit_cost for t
proof
  fix d assume h: "healthy t d" "\<not> exited d"
  then consider i where "d_main d = Spawning i" | "d_main d = Joining" | "d_main d = StoppingAll"
    by (cases "d_main d") (auto simp: healthy_def exited_def)
  then have "goes_on t d"
  proof cases
    case 2
    show ?thesis
    proof (cases "\<forall>j \<in> set (d_jobs d). \<not> open_job j")
      case False
      then obtain j where j: "j < length (d_jobs d)" "open_job (d_jobs d ! j)" by (auto simp: in_set_conv_nth)
      with created_goes_on [OF h(1) 2 j(1)] calling_goes_on [OF h(1) 2 j(1)] show ?thesis by (cases "d_jobs d ! j") simp_all
    qed (rule joined_goes_on [OF h(1) 2])
  qed (use spawning_goes_on stopping_goes_on h(1) in blast)+
  then show "\<exists>d'. demo_step\<^sup>*\<^sup>* d d' \<and> healthy t d' \<and> exit_cost d' < exit_cost d" by (simp add: goes_on_def)
qed

section \<open>Properties\<close>

lemma stopper_members: "stopper_step i f = Some f' \<Longrightarrow> length (members f') = length (members f)"
  by (auto simp: stopper_step_def stop_member_def split: stopper.splits list.splits if_splits)

lemma demo_members: "demo_step d d' \<Longrightarrow> length (members (d_fleet d')) = length (members (d_fleet d))"
  by (induction rule: demo_step.induct) (simp_all add: with_breaker_def stopAll_begin_def stopper_members)

lemma demo_one_breaker:
  assumes "demo_reaches t d"
  shows "length (members (d_fleet d)) = 1"
proof -
  obtain net_Listen d0 where d0: "main_begin net_Listen t = Inr d0" "demo_step\<^sup>*\<^sup>* d0 d" using assms by (auto simp: demo_reaches_def)
  have "d_fleet d0 = demo_fleet t"
    using d0(1) by (auto simp: main_begin_def demo_fleet_def Let_def split: prod.splits option.splits)
  then have "length (members (d_fleet d0)) = 1" by (simp add: demo_fleet_fields)
  with d0(2) show ?thesis by (induction rule: rtranclp_induct) (use demo_members in auto)
qed

text \<open>The demonstration gives its breaker no retry policy.\<close>

lemma demo_policy:
  assumes "demo_inv t d"
  shows "retryPolicy (brk (d_breaker d)) = None"
proof -
  have "made (NewCircuitBreaker ''google'' 50 200 30 5)" by (rule made_new)
  then obtain k where "sys_run k (new_system (NewCircuitBreaker ''google'' 50 200 30 5) t)" using made_runs by blast
  from steps_config [OF demo_breaker_run [OF assms] this]
  show ?thesis by (simp add: same_config_def NewCircuitBreaker_def newCircuitBreaker_def frame_simps)
qed

lemma healthy_reached:
  assumes "demo_reaches t d" and "\<forall>m. d_main d \<noteq> Crashed m"
    and "\<forall>c \<in> set (calls (d_breaker d)). \<forall>m. Got (TransportPanic m) \<notin> set (c_log c) \<and> Raised m \<notin> set (c_log c)"
  shows "healthy t d"
  using assms demo_reaches_inv [OF assms(1)] demo_one_breaker [OF assms(1)] demo_policy [OF demo_reaches_inv [OF assms(1)]]
  by (simp add: healthy_def calm_demo_def calm_def retryable_def)

lemma healthy_exits:
  assumes "demo_reaches t d" and "healthy t d"
  shows "\<exists>d' e. demo_step\<^sup>*\<^sup>* d d' \<and> demo_reaches t d' \<and> d_main d' = Exited e"
proof -
  obtain d' where d': "demo_step\<^sup>*\<^sup>* d d'" "exited d'" using exiting.reaches [OF assms(2)] by blast
  moreover have "demo_reaches t d'" using assms(1) d'(1) by (auto simp: demo_reaches_def intro: rtranclp_trans)
  ultimately show ?thesis by (auto simp: exited_def)
qed

text \<open>The demonstration can always finish: from every state it can reach, with any number of goroutines
  spawned, calling, retrying or waiting, it can go on until \<open>main\<close> exits, every goroutine having printed
  its line and the refiller having ended, unless the transport has panicked.\<close>

theorem demo_can_exit:
  assumes "demo_reaches t d" and "\<forall>m. d_main d \<noteq> Crashed m"
    and "\<forall>c \<in> set (calls (d_breaker d)). \<forall>m. Got (TransportPanic m) \<notin> set (c_log c) \<and> Raised m \<notin> set (c_log c)"
  shows "\<exists>d' e. demo_step\<^sup>*\<^sup>* d d' \<and> d_main d' = Exited e \<and> (\<forall>j \<in> set (d_jobs d'). \<exists>l. j = Ended l) \<and> halted (d_breaker d')"
proof -
  obtain d' e where d': "demo_step\<^sup>*\<^sup>* d d'" "demo_reaches t d'" "d_main d' = Exited e"
    using healthy_exits [OF assms(1) healthy_reached [OF assms]] by blast
  have ok: "jobs_ok d'" "phase_ok d' (Exited e)" using demo_reaches_inv [OF d'(2)] d'(3) by (simp_all add: demo_inv_def)
  have "\<exists>l. j = Ended l" if "j \<in> set (d_jobs d')" for j
    using all_ended [OF ok(1)] ok(2) that by simp
  with d' ok(2) show ?thesis by (auto simp: halted_def)
qed

lemma demo_start_healthy: "\<exists>d. demo_reaches 0 d \<and> d_main d = Spawning 0 \<and> calls (d_breaker d) = []"
  using demo_starts by (auto simp: d_breaker_def demo_fleet_fields)

theorem demo_can_exit_witness:
  "\<exists>d d' e. demo_reaches 0 d \<and> d_main d = Spawning 0 \<and> demo_step\<^sup>*\<^sup>* d d' \<and> d_main d' = Exited e"
proof -
  obtain d where d: "demo_reaches 0 d" "d_main d = Spawning 0" "calls (d_breaker d) = []" using demo_start_healthy by blast
  from demo_can_exit [OF d(1)] d show ?thesis by auto
qed

theorem demo_joins_witness:
  "\<exists>d e. demo_reaches 0 d \<and> d_main d = Exited e \<and> length (d_jobs d) = 3000 \<and> halted (d_breaker d)"
proof -
  obtain d where d: "demo_reaches 0 d" "d_main d = Spawning 0" "calls (d_breaker d) = []" using demo_start_healthy by blast
  then have "healthy 0 d" by (intro healthy_reached) simp_all
  from healthy_exits [OF d(1) this] obtain d' e where d': "demo_reaches 0 d'" "d_main d' = Exited e" by blast
  with demo_joins [OF d'(1)] show ?thesis by blast
qed

end
