(* ===== verification/Fair_Runs.thy ===== *)
theory Fair_Runs
  imports Prelude
begin

text \<open>
  Fairness. An infinite run is a sequence of states in which each step is one of the system or leaves
  the state as it is. A run is weakly fair when an action that stays possible is taken at some time, as
  a scheduler does that lets every goroutine run, and strongly fair to an action when one that is
  possible again and again is taken. The locale \<open>fair_progress\<close> is the rule for what every fair run
  comes to: in each state one action is named that helps, and nothing else undoes it.
\<close>

section \<open>Runs\<close>

definition run_of :: "('s \<Rightarrow> 's \<Rightarrow> bool) \<Rightarrow> (nat \<Rightarrow> 's) \<Rightarrow> bool" where
  "run_of step r \<longleftrightarrow> (\<forall>n. r (Suc n) = r n \<or> step (r n) (r (Suc n)))"

definition weakly_fair :: "('a \<Rightarrow> 's \<Rightarrow> 's \<Rightarrow> bool) \<Rightarrow> (nat \<Rightarrow> 's) \<Rightarrow> bool" where
  "weakly_fair act r \<longleftrightarrow> (\<forall>a n. (\<forall>m \<ge> n. \<exists>s. act a (r m) s) \<longrightarrow> (\<exists>m \<ge> n. act a (r m) (r (Suc m))))"

definition strongly_fair :: "('s \<Rightarrow> 's \<Rightarrow> bool) \<Rightarrow> (nat \<Rightarrow> 's) \<Rightarrow> bool" where
  "strongly_fair act r \<longleftrightarrow> (\<forall>n. (\<forall>k \<ge> n. \<exists>m \<ge> k. \<exists>s. act (r m) s) \<longrightarrow> (\<exists>m \<ge> n. act (r m) (r (Suc m))))"

lemma run_of_step: "run_of step r \<Longrightarrow> r (Suc n) = r n \<or> step (r n) (r (Suc n))"
  by (simp add: run_of_def)

lemma run_of_steps:
  assumes "run_of step r" and "n \<le> m"
  shows "step\<^sup>*\<^sup>* (r n) (r m)"
  using assms(2)
proof (induction m rule: dec_induct)
  case (step m)
  from run_of_step [OF assms(1), of m] step.IH show ?case by (auto intro: rtranclp.rtrancl_into_rtrancl)
qed simp

lemma weakly_fairD: "weakly_fair act r \<Longrightarrow> (\<And>m. n \<le> m \<Longrightarrow> \<exists>s. act a (r m) s) \<Longrightarrow> \<exists>m \<ge> n. act a (r m) (r (Suc m))"
  by (simp add: weakly_fair_def)

text \<open>Fairness to one of the actions.\<close>

lemma weakly_fair_one: "weakly_fair act r \<Longrightarrow> weakly_fair (\<lambda>_ :: unit. act a) r"
  by (simp add: weakly_fair_def)

lemma run_of_mono: "run_of step r \<Longrightarrow> (\<And>s s'. step s s' \<Longrightarrow> step' s s') \<Longrightarrow> run_of step' r"
  by (auto simp: run_of_def)

text \<open>From some index on.\<close>

lemma run_of_shift: "run_of step r \<Longrightarrow> run_of step (\<lambda>n. r (k + n))"
  by (simp add: run_of_def)

lemma weakly_fair_shift:
  assumes "weakly_fair act r"
  shows "weakly_fair act (\<lambda>n. r (k + n))"
  unfolding weakly_fair_def
proof (intro allI impI)
  fix a n assume *: "\<forall>m \<ge> n. \<exists>s. act a (r (k + m)) s"
  have "\<exists>s. act a (r m) s" if "k + n \<le> m" for m
    using *[rule_format, of "m - k"] that by simp
  from weakly_fairD [OF assms this] obtain m where "k + n \<le> m" "act a (r m) (r (Suc m))" by blast
  then show "\<exists>m \<ge> n. act a (r (k + m)) (r (k + Suc m))" by (intro exI [of _ "m - k"]) simp
qed

lemma weakly_fair_suffix:
  assumes "weakly_fair act (\<lambda>n. r (k + n))"
  shows "weakly_fair act r"
  unfolding weakly_fair_def
proof (intro allI impI)
  fix a n assume "\<forall>m \<ge> n. \<exists>s. act a (r m) s"
  then have "\<exists>s. act a (r (k + m)) s" if "n \<le> m" for m using that by simp
  from weakly_fairD [OF assms this] obtain m where "n \<le> m" "act a (r (k + m)) (r (Suc (k + m)))" by auto
  then show "\<exists>m \<ge> n. act a (r m) (r (Suc m))" by (intro exI [of _ "k + m"]) simp
qed

lemma strongly_fair_suffix:
  assumes "strongly_fair act (\<lambda>n. r (k + n))"
  shows "strongly_fair act r"
  unfolding strongly_fair_def
proof (intro allI impI)
  fix n assume *: "\<forall>j \<ge> n. \<exists>m \<ge> j. \<exists>s. act (r m) s"
  have "\<exists>m \<ge> j. \<exists>s. act (r (k + m)) s" if "n \<le> j" for j
  proof -
    from that have "n \<le> k + j" by simp
    with * obtain m where m: "k + j \<le> m" "\<exists>s. act (r m) s" by blast
    then have "j \<le> m - k" "r (k + (m - k)) = r m" by simp_all
    with m(2) show ?thesis by metis
  qed
  with assms obtain m where "n \<le> m" "act (r (k + m)) (r (k + Suc m))" unfolding strongly_fair_def by blast
  then show "\<exists>m \<ge> n. act (r m) (r (Suc m))" by (intro exI [of _ "k + m"]) simp
qed

text \<open>A run may begin with any steps that lead to its first state.\<close>

lemma run_prefix:
  assumes "step\<^sup>*\<^sup>* s (r 0)" and "run_of step r"
  obtains r' k where "r' 0 = s" "run_of step r'" "\<And>n. r' (k + n) = r n" "\<And>n. n \<le> k \<Longrightarrow> step\<^sup>*\<^sup>* s (r' n)"
proof -
  obtain k f where f: "f 0 = s" "f k = r 0" "\<forall>i < k. step (f i) (f (Suc i))"
    using rtranclp_imp_relpowp [OF assms(1)] relpowp_fun_conv [of _ step s "r 0"] by blast
  define r' where "r' n = (if n < k then f n else r (n - k))" for n
  have "r' (Suc n) = r' n \<or> step (r' n) (r' (Suc n))" for n
  proof (cases "n < k")
    case True
    then have "r' (Suc n) = f (Suc n)" using f(2) by (auto simp: r'_def not_less_eq less_Suc_eq)
    with True f(3) show ?thesis by (simp add: r'_def)
  next
    case False
    with run_of_step [OF assms(2), of "n - k"] show ?thesis by (simp add: r'_def Suc_diff_le)
  qed
  then have run: "run_of step r'" by (simp add: run_of_def)
  have start: "r' 0 = s" using f(1,2) by (cases k) (auto simp: r'_def)
  show ?thesis
    by (rule that [OF start run]) (use run_of_steps [OF run, of 0] start in \<open>auto simp: r'_def\<close>)
qed

lemma strongly_fair_shift:
  assumes "strongly_fair act r"
  shows "strongly_fair act (\<lambda>n. r (k + n))"
  unfolding strongly_fair_def
proof (intro allI impI)
  fix n assume *: "\<forall>j \<ge> n. \<exists>m \<ge> j. \<exists>s. act (r (k + m)) s"
  have "\<exists>m \<ge> j. \<exists>s. act (r m) s" if "k + n \<le> j" for j
  proof -
    from that have "n \<le> j - k" by simp
    with * obtain m where "j - k \<le> m" "\<exists>s. act (r (k + m)) s" by blast
    then show ?thesis by (intro exI [of _ "k + m"]) auto
  qed
  then obtain m where "k + n \<le> m" "act (r m) (r (Suc m))" using assms unfolding strongly_fair_def by blast
  then show "\<exists>m \<ge> n. act (r (k + m)) (r (k + Suc m))" by (intro exI [of _ "m - k"]) simp
qed

section \<open>What a fair run comes to\<close>

locale fair_progress =
  fixes step :: "'s \<Rightarrow> 's \<Rightarrow> bool"
    and act :: "'a \<Rightarrow> 's \<Rightarrow> 's \<Rightarrow> bool"
    and inv :: "'s \<Rightarrow> bool"
    and goal :: "'s \<Rightarrow> bool"
    and helper :: "'s \<Rightarrow> 'a"
    and cost :: "'s \<Rightarrow> 'c :: wellorder"
  assumes inv_step: "inv s \<Longrightarrow> step s s' \<Longrightarrow> inv s'"
    and helps: "inv s \<Longrightarrow> \<not> goal s \<Longrightarrow> \<exists>s'. act (helper s) s s'"
    and lowers: "inv s \<Longrightarrow> \<not> goal s \<Longrightarrow> act (helper s) s s' \<Longrightarrow> goal s' \<or> cost s' < cost s"
    and keeps: "inv s \<Longrightarrow> \<not> goal s \<Longrightarrow> step s s' \<Longrightarrow>
      goal s' \<or> cost s' < cost s \<or> cost s' = cost s \<and> helper s' = helper s"
begin

lemma inv_run:
  assumes "run_of step r" and "inv (r n)" and "n \<le> m"
  shows "inv (r m)"
  using assms(3)
proof (induction m rule: dec_induct)
  case (step m)
  with run_of_step [OF assms(1), of m] inv_step show ?case by metis
qed (rule assms(2))

text \<open>The helper is the same until the cost falls.\<close>

lemma falls:
  assumes "run_of step r" and "weakly_fair act r" and "inv (r n)" and "\<forall>m \<ge> n. \<not> goal (r m)"
  shows "\<exists>m \<ge> n. cost (r m) < cost (r n)"
proof (rule ccontr)
  assume no: "\<not> (\<exists>m \<ge> n. cost (r m) < cost (r n))"
  have inv: "inv (r m)" if "n \<le> m" for m using inv_run [OF assms(1,3) that] .
  have same: "cost (r m) = cost (r n) \<and> helper (r m) = helper (r n)" if "n \<le> m" for m
    using that
  proof (induction m rule: dec_induct)
    case (step m)
    have "\<not> cost (r (Suc m)) < cost (r n)" "\<not> goal (r m)" "\<not> goal (r (Suc m))" using no assms(4) step.hyps by simp_all
    with keeps [OF inv, of m "r (Suc m)"] run_of_step [OF assms(1), of m] step show ?case by auto
  qed simp
  have "\<exists>s. act (helper (r n)) (r m) s" if "n \<le> m" for m
    using helps [OF inv [OF that]] same [OF that] assms(4) that by simp
  from weakly_fairD [OF assms(2) this] obtain m where m: "n \<le> m" "act (helper (r n)) (r m) (r (Suc m))" by blast
  have "\<not> goal (r m)" "\<not> goal (r (Suc m))" using assms(4) m(1) by simp_all
  then have "cost (r (Suc m)) < cost (r n)"
    using lowers [OF inv [OF m(1)], of "r (Suc m)"] same [OF m(1)] m(2) by simp
  with no m(1) show False using le_SucI by blast
qed

theorem comes_to:
  assumes "run_of step r" and "weakly_fair act r" and "inv (r n)"
  shows "\<exists>m \<ge> n. goal (r m)"
  using assms(3)
proof (induction "cost (r n)" arbitrary: n rule: less_induct)
  case less
  show ?case
  proof (rule ccontr)
    assume no: "\<not> (\<exists>m \<ge> n. goal (r m))"
    with falls [OF assms(1,2) less.prems] obtain m where m: "n \<le> m" "cost (r m) < cost (r n)" by blast
    from less.hyps [OF m(2) inv_run [OF assms(1) less.prems m(1)]] m(1) no show False by (meson le_trans)
  qed
qed

end

end
