(* ===== verification/System_Fair.thy ===== *)
theory System_Fair
  imports System_Live Fair_Runs "HOL-Library.Product_Lexorder"
begin

text \<open>
  What fair runs of a breaker come to: when the scheduler lets each goroutine that can go on run at some
  time, the ticker fires when it is due and time goes on, then all calls end, whatever the transport
  answers and whoever cancels or stops in between. The cost that falls: the ranks of the calls, the time
  their sleeps at the gate have yet to be prolonged, the calls that cannot move, and how far the refiller
  is from its next token.
\<close>

section \<open>The actions a scheduler owes\<close>

datatype sys_action = CallMoves nat | RefillerMoves | TickerFires | ClockReaches gotime

fun sys_act :: "sys_action \<Rightarrow> system \<Rightarrow> system \<Rightarrow> bool" where
  "sys_act (CallMoves i) s s' = (i < length (calls s) \<and> (\<exists>env inp cb c. clock env = now s \<and>
     do_step env inp (brk s) (calls s ! i) = Some (cb, c) \<and> s' = s\<lparr>brk := cb, calls := (calls s)[i := c]\<rparr>))"
| "sys_act RefillerMoves s s' =
     ((\<exists>n cb. refill_one (refill_left s) (brk s) = Some (n, cb) \<and> s' = s\<lparr>brk := cb, refill_left := n\<rparr>) \<or>
      (\<exists>tk. refilling (brk s) \<and> refill_left s = 0 \<and> ticker_recv (tick_at s) = Some tk \<and>
        s' = s\<lparr>tick_at := tk, refill_left := nat (tokensPerTick (brk s)), n_ticks := Suc (n_ticks s)\<rparr>))"
| "sys_act TickerFires s s' =
     (\<exists>tk. refilling (brk s) \<and> ticker_fires (now s) (tick_at s) = Some tk \<and> s' = s\<lparr>tick_at := tk\<rparr>)"
| "sys_act (ClockReaches t) s s' = (now s < t \<and> (\<exists>u \<ge> t. s' = s\<lparr>now := u\<rparr>))"

lemma sys_act_step: "sys_act a s s' \<Longrightarrow> sys_step s s'"
  by (cases a) (auto intro: sys_step.intros)

text \<open>The steps after the last call has entered.\<close>

definition same_calls :: "system \<Rightarrow> system \<Rightarrow> bool" where
  "same_calls s s' \<longleftrightarrow> sys_step s s' \<and> length (calls s') = length (calls s)"

section \<open>Which calls can move\<close>

definition mobile :: "system \<Rightarrow> call \<Rightarrow> bool" where
  "mobile s c \<longleftrightarrow>
     (case c_pc c of
        AtSem \<Rightarrow> (case sem (brk s) of None \<Rightarrow> True | Some ch \<Rightarrow> ch_len ch < ch_cap ch)
      | AtGateSleep _ _ w \<Rightarrow> w \<le> now s
      | AtTokenWait _ _ \<Rightarrow> tokenStop (brk s) = Some True \<or> (\<exists>ch. tokens (brk s) = Some ch \<and> 0 < ch_len ch)
      | AtPause _ w \<Rightarrow> w \<le> now s
      | Done _ \<Rightarrow> False
      | _ \<Rightarrow> True)"

lemma mobile_moves:
  assumes "sys_run k s" and "i < length (calls s)" and "mobile s (calls s ! i)"
  shows "\<exists>s'. sys_act (CallMoves i) s s'"
proof -
  let ?c = "calls s ! i"
  have moves: ?thesis if "clock env = now s" "do_step env inp (brk s) ?c \<noteq> None" for env inp
  proof -
    from that(2) obtain cb c where "do_step env inp (brk s) ?c = Some (cb, c)" by auto
    with that(1) assms(2) have "sys_act (CallMoves i) s (s\<lparr>brk := cb, calls := (calls s)[i := c]\<rparr>)"
      by (simp del: ex_simps) blast
    then show ?thesis by (rule exI)
  qed
  have goes: ?thesis if "can_go s ?c" using that moves by (fastforce simp: can_go_def)
  show ?thesis
  proof (cases "c_pc ?c")
    case AtSem
    show ?thesis
    proof (cases "sem (brk s)")
      case None
      with AtSem show ?thesis by (intro moves [of "env_now s" Run]) (simp_all add: do_step_def step_sem_def)
    next
      case (Some ch)
      with AtSem assms(3) show ?thesis
        by (intro moves [of "env_now s" "Arm ArmSlot"]) (simp_all add: mobile_def do_step_def step_sem_def try_send_def)
    qed
  next
    case (AtGateSleep a t w)
    with assms(3) gate_fail_cases(2) show ?thesis
      by (intro moves [of "env_now s" "Arm ArmTimer"])
        (auto simp: mobile_def do_step_def waitRetryAfterGate_select_def gate_outcome_def split: gate_result.splits)
  next
    case (AtTokenWait a t)
    with go_token [OF AtTokenWait] assms(3) goes show ?thesis by (simp add: mobile_def)
  next
    case (AtPause a w)
    with go_pause [OF AtPause] assms(3) goes show ?thesis by (simp add: mobile_def)
  next
    case (AtRelease res)
    with go_release [OF assms(1) _ AtRelease] assms(2) goes show ?thesis by simp
  next
    case (Done res)
    with assms(3) show ?thesis by (simp add: mobile_def)
  qed (use go_now goes in simp_all)
qed

section \<open>The cost\<close>

text \<open>What the calls have left to do, and by how much their sleeps at the gate fall short of its instant.\<close>

fun sleep_left :: "int \<Rightarrow> pc \<Rightarrow> nat" where
  "sleep_left u (AtGateSleep _ _ w) = nat (u - w)"
| "sleep_left _ _ = 0"

definition work_left :: "system \<Rightarrow> nat" where
  "work_left s = (\<Sum>c \<leftarrow> calls s. rank (MaxRetries (brk s)) (c_pc c))"

definition sleeps_left :: "system \<Rightarrow> nat" where
  "sleeps_left s = (\<Sum>c \<leftarrow> calls s. sleep_left (retryAfterUntil (brk s)) (c_pc c))"

lemma sum_update_less:
  fixes f :: "'a \<Rightarrow> nat"
  assumes "i < length xs" and "f y < f (xs ! i)"
  shows "sum_list (map f (xs[i := y])) < sum_list (map f xs)"
proof -
  have "sum_list (map f ((xs[i := y])[i := xs ! i])) = sum_list (map f (xs[i := y])) + (f (xs ! i) - f y)"
    using assms by (intro sum_list_update_add) simp_all
  with assms show ?thesis by simp
qed

text \<open>A sleep is prolonged only up to the present instant of the gate.\<close>

lemma resleep:
  assumes "do_step env inp cb c = Some (cb', c')" and "metrics_ok (metrics cb)"
    and "wait_stage (c_pc c) = 1" and "wait_stage (c_pc c') = 1"
  shows "cb' = cb" and "rank n (c_pc c') = rank n (c_pc c)"
    and "sleep_left (retryAfterUntil cb) (c_pc c') < sleep_left (retryAfterUntil cb) (c_pc c)"
proof -
  obtain a s w where at: "c_pc c = AtGateSleep a s w" using assms(3) by (cases "c_pc c") simp_all
  obtain arm where out: "gate_outcome env a s (waitRetryAfterGate_select arm (c_ctx c) w (clock env) cb) cb c = Some (cb', c')"
    using assms(1) at by (cases rule: do_step_cases) simp_all
  have "waitRetryAfterGate_select arm (c_ctx c) w (clock env) cb \<noteq> GateFail e" for e
    using out assms(4) wait_failed_leaves [of env s e cb c] by (auto simp: gate_outcome_def)
  then obtain d where d: "waitRetryAfterGate_select arm (c_ctx c) w (clock env) cb = GateSleep d"
    using out assms(4)
    by (cases "waitRetryAfterGate_select arm (c_ctx c) w (clock env) cb") (auto simp: gate_outcome_def goto_def)
  then have w: "w \<le> clock env" and g: "waitRetryAfterGate (clock env) cb = GateSleep d"
    by (auto simp: waitRetryAfterGate_select_def split: select_arm.splits option.splits if_splits)
  then have "\<not> d \<le> 0" "clock env < retryAfterUntil cb"
    by (auto simp: waitRetryAfterGate_def Let_def time_unix_0_def split: if_splits)
  with out d w at show "cb' = cb" "rank n (c_pc c') = rank n (c_pc c)"
    "sleep_left (retryAfterUntil cb) (c_pc c') < sleep_left (retryAfterUntil cb) (c_pc c)"
    by (auto simp: gate_outcome_def goto_def time_add_def)
qed

lemma call_lowers:
  assumes "sys_run k s" and "sys_act (CallMoves i) s s'"
  shows "work_left s' < work_left s \<or> work_left s' = work_left s \<and> sleeps_left s' < sleeps_left s"
proof -
  obtain env inp cb c where step: "i < length (calls s)" "do_step env inp (brk s) (calls s ! i) = Some (cb, c)"
    and s': "s' = s\<lparr>brk := cb, calls := (calls s)[i := c]\<rparr>" using assms(2) by auto
  have books: "metrics_ok (metrics (brk s))" using run_inv [OF assms(1)] by (simp add: sys_inv_def books_ok_def)
  have con: "control (brk s) (calls s ! i) c" and max: "MaxRetries cb = MaxRetries (brk s)"
    using do_step_control [OF step(2) books] by (simp_all add: keeps_def same_config_def)
  from rank_step [OF con] show ?thesis
  proof
    assume "rank (MaxRetries (brk s)) (c_pc c) < rank (MaxRetries (brk s)) (c_pc (calls s ! i))"
    with step(1) have "work_left s' < work_left s" unfolding s' work_left_def by (simp add: max sum_update_less)
    then show ?thesis by blast
  next
    assume "wait_stage (c_pc (calls s ! i)) = 1 \<and> wait_stage (c_pc c) = 1"
    then have r: "cb = brk s" "rank n (c_pc c) = rank n (c_pc (calls s ! i))"
      "sleep_left (retryAfterUntil (brk s)) (c_pc c) < sleep_left (retryAfterUntil (brk s)) (c_pc (calls s ! i))" for n
      using resleep [OF step(2) books] by blast+
    with step(1) have "work_left s' = work_left s" unfolding s' work_left_def by (simp add: sum_list_update_cong)
    moreover have "sleeps_left s' < sleeps_left s" unfolding s' sleeps_left_def using r step(1) by (simp add: sum_update_less)
    ultimately show ?thesis by blast
  qed
qed

text \<open>The calls that cannot move, and the instants the sleeping ones wait for.\<close>

definition stuck :: "system \<Rightarrow> nat set" where
  "stuck s = {i. i < length (calls s) \<and> \<not> mobile s (calls s ! i) \<and> \<not> finished i s}"

definition movers :: "system \<Rightarrow> nat list" where
  "movers s = filter (\<lambda>i. mobile s (calls s ! i)) [0..<length (calls s)]"

fun wakes :: "pc \<Rightarrow> gotime option" where
  "wakes (AtGateSleep _ _ w) = Some w"
| "wakes (AtPause _ w) = Some w"
| "wakes _ = None"

definition wake_times :: "system \<Rightarrow> gotime list" where
  "wake_times s = List.map_filter wakes (map c_pc (calls s))"

text \<open>How far the refiller is from its next token.\<close>

definition refill_phase :: "system \<Rightarrow> nat" where
  "refill_phase s =
     (if 0 < refill_left s then 0 else if tk_ready (tick_at s) then 1
      else if tk_due (tick_at s) \<le> now s then 2 else 3)"

definition sys_helper :: "system \<Rightarrow> sys_action" where
  "sys_helper s =
     (case movers s of i # _ \<Rightarrow> CallMoves i
      | [] \<Rightarrow> (case wake_times s of w # _ \<Rightarrow> ClockReaches w
         | [] \<Rightarrow> if refill_phase s \<le> 1 then RefillerMoves
             else if refill_phase s = 2 then TickerFires else ClockReaches (tk_due (tick_at s))))"

definition sys_cost :: "system \<Rightarrow> nat \<times> nat \<times> nat \<times> nat" where
  "sys_cost s = (work_left s, sleeps_left s, card (stuck s),
     if movers s = [] \<and> wake_times s = [] then refill_phase s else 0)"

lemma finite_stuck [simp]: "finite (stuck s)"
  by (simp add: stuck_def)

lemma movers_empty: "movers s = [] \<longleftrightarrow> (\<forall>i < length (calls s). \<not> mobile s (calls s ! i))"
  by (auto simp: movers_def filter_empty_conv)

lemma wake_times_at: "w \<in> set (wake_times s) \<longleftrightarrow> (\<exists>i < length (calls s). wakes (c_pc (calls s ! i)) = Some w)"
  by (force simp: wake_times_def List.map_filter_def in_set_conv_nth)

section \<open>What the rest of the system does to it\<close>

lemma mobile_unfinished: "mobile s (calls s ! i) \<Longrightarrow> \<not> finished i s"
  by (auto simp: mobile_def finished_def)

text \<open>Nothing but the steps of the calls lets a call move no more.\<close>

definition background_step :: "system \<Rightarrow> system \<Rightarrow> bool" where
  "background_step s s' \<longleftrightarrow> map c_pc (calls s') = map c_pc (calls s) \<and>
     MaxRetries (brk s') = MaxRetries (brk s) \<and> retryAfterUntil (brk s') = retryAfterUntil (brk s) \<and>
     (\<forall>i < length (calls s). mobile s (calls s ! i) \<longrightarrow> mobile s' (calls s' ! i))"

lemma mobile_mono:
  assumes "mobile s c" and "c_pc c' = c_pc c" and "now s \<le> now s'" and "sem (brk s') = sem (brk s)"
    and "tokenStop (brk s) = Some True \<Longrightarrow> tokenStop (brk s') = Some True"
    and "\<And>ch. tokens (brk s) = Some ch \<Longrightarrow> \<exists>d. tokens (brk s') = Some d \<and> ch_len ch \<le> ch_len d"
  shows "mobile s' c'"
proof (cases "c_pc c")
  case (AtTokenWait a t)
  with assms(1) consider "tokenStop (brk s) = Some True" | ch where "tokens (brk s) = Some ch" "0 < ch_len ch"
    by (auto simp: mobile_def)
  then show ?thesis
  proof cases
    case 2
    with assms(6) obtain d where "tokens (brk s') = Some d" "0 < ch_len d" by (meson order.strict_trans2)
    with AtTokenWait assms(2) show ?thesis by (simp add: mobile_def)
  qed (use AtTokenWait assms(2,5) in \<open>simp add: mobile_def\<close>)
qed (use assms(1-4) in \<open>auto simp: mobile_def\<close>)

lemma backgroundI:
  assumes "map c_pc (calls s') = map c_pc (calls s)" and "MaxRetries (brk s') = MaxRetries (brk s)"
    and "retryAfterUntil (brk s') = retryAfterUntil (brk s)" and "now s \<le> now s'" and "sem (brk s') = sem (brk s)"
    and "tokenStop (brk s) = Some True \<Longrightarrow> tokenStop (brk s') = Some True"
    and "\<And>ch. tokens (brk s) = Some ch \<Longrightarrow> \<exists>d. tokens (brk s') = Some d \<and> ch_len ch \<le> ch_len d"
  shows "background_step s s'"
proof -
  have "c_pc (calls s' ! i) = c_pc (calls s ! i)" if "i < length (calls s)" for i
    using that assms(1) by (metis map_eq_imp_length_eq nth_map)
  with assms mobile_mono [OF _ _ assms(4-7)] show ?thesis by (simp add: background_step_def)
qed

lemma refill_one_level:
  "refill_one n cb = Some (m, cb') \<Longrightarrow> tokens cb = Some ch \<Longrightarrow> \<exists>d. tokens cb' = Some d \<and> ch_len ch \<le> ch_len d"
  by (erule refill_one_cases) (auto dest: ch.send_Some)

lemma background:
  assumes "same_calls s s'"
  shows "(\<exists>i. sys_act (CallMoves i) s s') \<or> background_step s s'"
proof -
  have "sys_step s s'" and len: "length (calls s') = length (calls s)" using assms by (simp_all add: same_calls_def)
  from this(1) show ?thesis
  proof cases
    case (call_step i env inp cb c)
    then have "sys_act (CallMoves i) s s'" by auto
    then show ?thesis by blast
  next
    case (refilled n cb)
    have "background_step s s'"
      using refilled(1) refill_one_same(1,8,11) [OF refilled(2)] refill_one_frame [OF refilled(2)] refill_one_level [OF refilled(2)]
      by (intro backgroundI) auto
    then show ?thesis ..
  next
    case (expired i t)
    then show ?thesis by (intro disjI2 backgroundI) (auto simp: with_call_def map_update list_update_same_conv)
  next
    case (cancelled i)
    then show ?thesis by (intro disjI2 backgroundI) (auto simp: with_call_def map_update list_update_same_conv)
  qed (use len in \<open>auto simp: Stop_def refiller_exit_def split: option.splits intro!: backgroundI\<close>)
qed

lemma background_same:
  assumes "background_step s s'"
  shows "work_left s' = work_left s" and "sleeps_left s' = sleeps_left s" and "wake_times s' = wake_times s"
    and "stuck s' \<subseteq> stuck s" and "stuck s' = stuck s \<Longrightarrow> movers s' = movers s"
proof -
  have pcs: "map c_pc (calls s') = map c_pc (calls s)" and keep: "MaxRetries (brk s') = MaxRetries (brk s)"
    "retryAfterUntil (brk s') = retryAfterUntil (brk s)"
    and mono: "\<And>i. i < length (calls s) \<Longrightarrow> mobile s (calls s ! i) \<Longrightarrow> mobile s' (calls s' ! i)"
    using assms by (simp_all add: background_step_def)
  have len: "length (calls s') = length (calls s)" using pcs by (rule map_eq_imp_length_eq)
  have pc: "c_pc (calls s' ! i) = c_pc (calls s ! i)" if "i < length (calls s)" for i
    using that pcs len by (metis nth_map)
  have sums: "(\<Sum>c \<leftarrow> calls s'. f (c_pc c)) = (\<Sum>c \<leftarrow> calls s. f (c_pc c))" for f :: "pc \<Rightarrow> nat"
    using arg_cong [OF pcs, of "map f"] by (simp add: comp_def)
  from sums keep show "work_left s' = work_left s" "sleeps_left s' = sleeps_left s"
    by (simp_all add: work_left_def sleeps_left_def)
  show "wake_times s' = wake_times s" by (simp add: wake_times_def pcs)
  show sub: "stuck s' \<subseteq> stuck s" using mono pc len by (auto simp: stuck_def finished_def)
  assume "stuck s' = stuck s"
  then have "mobile s (calls s ! i)" if "i < length (calls s)" "mobile s' (calls s' ! i)" for i
  proof -
    from that(2) have "i \<notin> stuck s'" "\<not> finished i s'" by (simp_all add: stuck_def mobile_unfinished)
    with \<open>stuck s' = stuck s\<close> pc [OF that(1)] that(1) show ?thesis by (auto simp: stuck_def finished_def)
  qed
  with mono show "movers s' = movers s" unfolding movers_def len by (intro filter_cong) auto
qed

section \<open>When no call can move and none sleeps\<close>

text \<open>Then one waits for a token of an empty bucket that the refiller still fills.\<close>

lemma starved:
  assumes "sys_run k s" and "\<not> settled s" and "movers s = []" and "wake_times s = []"
  obtains i ch a t where "i < length (calls s)" "c_pc (calls s ! i) = AtTokenWait a t" "tokens (brk s) = Some ch"
    "ch_len ch = 0" "0 < ch_cap ch" "tokenStop (brk s) = Some False" "refilling (brk s)" "1 \<le> tokensPerTick (brk s)"
proof -
  have inv: "sem_ok (brk s) (calls s)" and law: "\<And>j. j < length (calls s) \<Longrightarrow> resource_law (brk s) (calls s ! j)"
    using run_inv [OF assms(1)] resources.holds by (simp_all add: sys_inv_def)
  have still: "\<not> mobile s (calls s ! j)" if "j < length (calls s)" for j
    using that assms(3) movers_empty by simp
  have awake: "wakes (c_pc (calls s ! j)) \<noteq> Some w" if "j < length (calls s)" for j w
    using that assms(4) wake_times_at [of w s] by auto
  have kinds: "c_pc (calls s ! j) = AtSem \<or> waits_for_token (calls s ! j) \<or> finished j s" if "j < length (calls s)" for j
    using still [OF that] awake [OF that] by (cases "c_pc (calls s ! j)") (auto simp: mobile_def waits_for_token_def finished_def)
  have "\<exists>i < length (calls s). waits_for_token (calls s ! i)"
  proof (rule ccontr)
    assume none: "\<not> ?thesis"
    from assms(2) obtain i where i: "i < length (calls s)" "\<not> finished i s" by (auto simp: settled_def)
    with kinds none have at: "c_pc (calls s ! i) = AtSem" by blast
    then obtain ch where ch: "sem (brk s) = Some ch" "\<not> ch_len ch < ch_cap ch"
      using still [OF i(1)] by (auto simp: mobile_def split: option.splits)
    then have "0 < slots (calls s)" using inv by (auto simp: sem_ok_def)
    then obtain j where j: "j < length (calls s)" "c_slot (calls s ! j)"
      by (auto simp: slots_filter in_set_conv_nth filter_empty_conv)
    with law [OF j(1)] kinds none show False by (fastforce simp: resource_law_def finished_def)
  qed
  then obtain i a t where i: "i < length (calls s)" "c_pc (calls s ! i) = AtTokenWait a t" by (auto simp: waits_for_token_def)
  then have "calls s ! i \<in> set (calls s)" "waits_for_token (calls s ! i)" by (simp_all add: waits_for_token_def)
  then obtain ch where ch: "tokens (brk s) = Some ch" using run_waiters_ok [OF assms(1)] by (auto simp: waiters_ok_def)
  with still(1) [OF i(1)] i(2) have "ch_len ch = 0" "tokenStop (brk s) \<noteq> Some True" by (simp_all add: mobile_def)
  with ch i run_bucket_live [OF assms(1)] show ?thesis
    by (cases "tokenStop (brk s)") (auto simp: bucket_live_def intro: that)
qed

text \<open>In such a state a step of the rest of the system lets a call move or leaves the refiller where it is.\<close>

lemma starved_keeps:
  assumes "sys_run k s" and "\<not> settled s" and "movers s = []" and "wake_times s = []" and "background_step s s'"
    and "same_calls s s'" and "movers s' = []"
  shows "refill_phase s' < refill_phase s \<or> refill_phase s' = refill_phase s \<and>
    (refill_phase s = 3 \<longrightarrow> tk_due (tick_at s') = tk_due (tick_at s))"
proof -
  obtain i ch a t where w: "i < length (calls s)" "c_pc (calls s ! i) = AtTokenWait a t" and bucket: "tokens (brk s) = Some ch"
    "ch_len ch = 0" "0 < ch_cap ch" "tokenStop (brk s) = Some False" "refilling (brk s)" "1 \<le> tokensPerTick (brk s)"
    by (rule starved [OF assms(1-4)])
  have pcs: "map c_pc (calls s') = map c_pc (calls s)" using assms(5) by (simp add: background_step_def)
  then have len: "length (calls s') = length (calls s)" by (rule map_eq_imp_length_eq)
  have "c_pc (calls s' ! i) = AtTokenWait a t" using w pcs len by (metis nth_map)
  moreover have "\<not> mobile s' (calls s' ! i)" using assms(7) w(1) len movers_empty by simp
  ultimately have dry: "tokenStop (brk s') \<noteq> Some True" "\<And>d. tokens (brk s') = Some d \<Longrightarrow> ch_len d = 0"
    by (auto simp: mobile_def)
  have "sys_step s s'" using assms(6) by (simp add: same_calls_def)
  then show ?thesis
  proof cases
    case (call_step i env inp cb c)
    then have "sys_act (CallMoves i) s s'" by auto
    from call_lowers [OF assms(1) this] background_same(1,2) [OF assms(5)] show ?thesis by simp
  next
    case (fired tk)
    then show ?thesis by (auto simp: refill_phase_def ticker_fires_def split: if_splits)
  next
    case (ticked tk)
    with bucket(6) show ?thesis by (auto simp: refill_phase_def ticker_recv_def split: if_splits)
  next
    case (refilled n cb)
    from refilled(2) have False
      by (cases rule: refill_one_cases) (use bucket dry(2) refilled(1) in \<open>auto simp: try_send_def split: if_splits\<close>)
    then show ?thesis ..
  next
    case exited
    with bucket(4) show ?thesis by (simp add: refiller_exit_def refill_phase_def)
  next
    case stopped
    with bucket(4) dry(1) show ?thesis by (auto simp: Stop_def refill_phase_def split: if_splits)
  qed (use len in \<open>auto simp: refill_phase_def with_call_def\<close>)
qed

lemma refill_helps:
  assumes "sys_run k s" and "\<not> settled s" and "movers s = []" and "wake_times s = []"
  shows "\<exists>s'. sys_act (sys_helper s) s s'"
    and "sys_act (sys_helper s) s s' \<Longrightarrow> refill_phase s' < refill_phase s \<or> movers s' \<noteq> []"
proof -
  obtain i ch a t where w: "i < length (calls s)" "c_pc (calls s ! i) = AtTokenWait a t" and bucket: "tokens (brk s) = Some ch"
    "ch_len ch = 0" "0 < ch_cap ch" "tokenStop (brk s) = Some False" "refilling (brk s)" "1 \<le> tokensPerTick (brk s)"
    by (rule starved [OF assms])
  have helper: "sys_helper s = (if refill_phase s \<le> 1 then RefillerMoves
      else if refill_phase s = 2 then TickerFires else ClockReaches (tk_due (tick_at s)))"
    using assms(3,4) by (simp add: sys_helper_def)
  consider (sends) "0 < refill_left s" | (ready) "refill_left s = 0" "tk_ready (tick_at s)"
    | (due) "refill_left s = 0" "\<not> tk_ready (tick_at s)" "tk_due (tick_at s) \<le> now s"
    | (later) "refill_left s = 0" "\<not> tk_ready (tick_at s)" "now s < tk_due (tick_at s)" by fastforce
  note cases = this
  show "\<exists>s'. sys_act (sys_helper s) s s'"
  proof (cases rule: cases)
    case sends
    then obtain x where "refill_one (refill_left s) (brk s) = Some x"
      using bucket(1) by (cases "refill_left s") (auto simp: refill_one_def)
    with sends helper show ?thesis by (cases x) (auto simp: refill_phase_def)
  next
    case ready
    with bucket(5) helper show ?thesis by (auto simp: refill_phase_def ticker_recv_def)
  next
    case due
    with bucket(5) helper show ?thesis by (auto simp: refill_phase_def ticker_fires_def)
  next
    case later
    with helper show ?thesis by (auto simp: refill_phase_def)
  qed
  assume act: "sys_act (sys_helper s) s s'"
  show "refill_phase s' < refill_phase s \<or> movers s' \<noteq> []"
  proof (cases rule: cases)
    case sends
    with act helper obtain n cb where "refill_one (refill_left s) (brk s) = Some (n, cb)" "s' = s\<lparr>brk := cb, refill_left := n\<rparr>"
      by (auto simp: refill_phase_def)
    then have "mobile s' (calls s' ! i)" using w bucket(1-3)
      by (elim refill_one_cases) (auto simp: mobile_def try_send_def)
    moreover have "i < length (calls s')" using w(1) \<open>s' = s\<lparr>brk := cb, refill_left := n\<rparr>\<close> by simp
    ultimately show ?thesis using movers_empty by blast
  next
    case ready
    with act helper bucket(6) show ?thesis by (auto simp: refill_phase_def refill_one_def)
  next
    case due
    with act helper show ?thesis by (auto simp: refill_phase_def ticker_fires_def)
  next
    case later
    with act helper show ?thesis by (auto simp: refill_phase_def)
  qed
qed

section \<open>All calls end\<close>

lemma cost_less:
  "work_left s' < work_left s \<or> work_left s' = work_left s \<and> sleeps_left s' < sleeps_left s \<Longrightarrow> sys_cost s' < sys_cost s"
  "work_left s' = work_left s \<Longrightarrow> sleeps_left s' = sleeps_left s \<Longrightarrow> stuck s' \<subset> stuck s \<Longrightarrow> sys_cost s' < sys_cost s"
  using psubset_card_mono [of "stuck s" "stuck s'"] by (auto simp: sys_cost_def)

lemma background_movers:
  assumes "background_step s s'" and "movers s' \<noteq> movers s"
  shows "sys_cost s' < sys_cost s"
  using background_same [OF assms(1)] assms(2) cost_less(2) by blast

lemma background_keeps:
  assumes "sys_run k s" and "\<not> settled s" and "same_calls s s'" and "background_step s s'"
  shows "sys_cost s' < sys_cost s \<or> sys_cost s' = sys_cost s \<and> sys_helper s' = sys_helper s"
proof (cases "stuck s' = stuck s")
  case True
  note same = background_same [OF assms(4)]
  have movers: "movers s' = movers s" by (rule same(5) [OF True])
  show ?thesis
  proof (cases "movers s = [] \<and> wake_times s = []")
    case True
    with starved_keeps [OF assms(1,2) _ _ assms(4,3)] movers have
      "refill_phase s' < refill_phase s \<or> refill_phase s' = refill_phase s \<and>
        (refill_phase s = 3 \<longrightarrow> tk_due (tick_at s') = tk_due (tick_at s))" by simp
    moreover have "refill_phase s \<le> 3" by (simp add: refill_phase_def)
    ultimately show ?thesis
      using same(1-3) movers True \<open>stuck s' = stuck s\<close> by (auto simp: sys_cost_def sys_helper_def)
  next
    case False
    then show ?thesis
      using same(1-3) movers \<open>stuck s' = stuck s\<close> by (auto simp: sys_cost_def sys_helper_def split: list.splits)
  qed
next
  case False
  with background_same(1,2,4) [OF assms(4)] cost_less(2) show ?thesis by blast
qed

lemma clock_lowers:
  assumes "movers s = []" and "w \<in> set (wake_times s)" and "sys_act (ClockReaches w) s s'"
  shows "sys_cost s' < sys_cost s"
proof -
  obtain i where i: "i < length (calls s)" "wakes (c_pc (calls s ! i)) = Some w" using assms(2) wake_times_at by blast
  obtain u where s': "s' = s\<lparr>now := u\<rparr>" "w \<le> u" "now s < w" using assms(3) by auto
  have "mobile s' (calls s' ! i)" using i s' by (cases "c_pc (calls s ! i)") (auto simp: mobile_def)
  then have "movers s' \<noteq> movers s" using assms(1) i(1) s'(1) movers_empty [of s'] by auto
  moreover have "background_step s s'" using s' by (intro backgroundI) auto
  ultimately show ?thesis by (rule background_movers [rotated])
qed

lemma refiller_background:
  assumes "sys_act a s s'" and "\<And>i. a \<noteq> CallMoves i"
  shows "background_step s s'"
  using assms
proof (cases a)
  case RefillerMoves
  with assms(1) consider n cb where "refill_one (refill_left s) (brk s) = Some (n, cb)" "s' = s\<lparr>brk := cb, refill_left := n\<rparr>"
    | tk m j where "s' = s\<lparr>tick_at := tk, refill_left := m, n_ticks := j\<rparr>" by auto
  then show ?thesis
  proof cases
    case 1
    have "MaxRetries cb = MaxRetries (brk s)" by (subst refill_one_frame [OF 1(1), THEN conjunct1]) simp
    with 1(2) refill_one_same(1,8,11) [OF 1(1)] refill_one_level [OF 1(1)] show ?thesis by (intro backgroundI) simp_all
  qed (auto intro!: backgroundI)
qed (auto intro!: backgroundI)

lemma refiller_lowers:
  assumes "background_step s s'" and "movers s = []" and "wake_times s = []"
    and "refill_phase s' < refill_phase s \<or> movers s' \<noteq> []"
  shows "sys_cost s' < sys_cost s"
proof (cases "movers s' = []")
  case True
  with assms(4) have less: "refill_phase s' < refill_phase s" by simp
  show ?thesis
  proof (cases "stuck s' = stuck s")
    case True
    with less background_same(1-3) [OF assms(1)] assms(2,3) \<open>movers s' = []\<close> show ?thesis by (simp add: sys_cost_def)
  next
    case False
    with background_same(1,2,4) [OF assms(1)] cost_less(2) show ?thesis by blast
  qed
next
  case False
  with background_movers [OF assms(1)] assms(2) show ?thesis by simp
qed

interpretation fair_calls: fair_progress same_calls sys_act "\<lambda>s. \<exists>k. sys_run k s" settled sys_helper sys_cost
proof
  fix s s' assume "\<exists>k. sys_run k s"
  then obtain k where k: "sys_run k s" ..
  show "\<exists>k. sys_run k s'" if "same_calls s s'" using k that sys_run.step by (auto simp: same_calls_def)
  assume ns: "\<not> settled s"
  consider (mover) i ms where "movers s = i # ms" | (sleeper) w ws where "movers s = []" "wake_times s = w # ws"
    | (starved) "movers s = []" "wake_times s = []" by (meson list.exhaust)
  note cases = this
  show "\<exists>s'. sys_act (sys_helper s) s s'"
  proof (cases rule: cases)
    case (mover i ms)
    then have "i \<in> set (movers s)" by simp
    then have "\<exists>s'. sys_act (CallMoves i) s s'" by (intro mobile_moves [OF k]) (simp_all add: movers_def)
    with mover show ?thesis by (simp add: sys_helper_def del: sys_act.simps)
  next
    case (sleeper w ws)
    then obtain i where i: "i < length (calls s)" "wakes (c_pc (calls s ! i)) = Some w" using wake_times_at [of w s] by auto
    moreover have "\<not> mobile s (calls s ! i)" using sleeper(1) i(1) movers_empty by blast
    ultimately have "now s < w" by (cases "c_pc (calls s ! i)") (auto simp: mobile_def)
    with sleeper show ?thesis by (auto simp: sys_helper_def)
  next
    case starved
    with refill_helps(1) [OF k ns] show ?thesis by blast
  qed
  show "settled s' \<or> sys_cost s' < sys_cost s" if act: "sys_act (sys_helper s) s s'"
  proof (cases rule: cases)
    case (mover i ms)
    with act call_lowers [OF k, of i s'] cost_less(1) show ?thesis by (simp add: sys_helper_def del: sys_act.simps)
  next
    case (sleeper w ws)
    with act clock_lowers [of s w s'] show ?thesis by (simp add: sys_helper_def del: sys_act.simps)
  next
    case starved
    have "background_step s s'" by (rule refiller_background [OF act]) (use starved in \<open>simp add: sys_helper_def\<close>)
    from refiller_lowers [OF this starved refill_helps(2) [OF k ns starved act]] show ?thesis ..
  qed
  show "settled s' \<or> sys_cost s' < sys_cost s \<or> sys_cost s' = sys_cost s \<and> sys_helper s' = sys_helper s" if "same_calls s s'"
    using background [OF that] background_keeps [OF k ns that] call_lowers [OF k] cost_less(1) by metis
qed

section \<open>Runs with finitely many calls\<close>

lemma calls_grow: "sys_step s s' \<Longrightarrow> length (calls s) \<le> length (calls s')"
  by (erule sys_step.cases) (auto simp: with_call_def)

lemma bounded_settles:
  fixes f :: "nat \<Rightarrow> nat"
  assumes "\<And>n. f n \<le> f (Suc n)" and "\<And>n. f n \<le> b"
  shows "\<exists>n. \<forall>m \<ge> n. f m = f n"
proof -
  have fin: "finite (range f)" by (rule finite_subset [of _ "{..b}"]) (use assms(2) in auto)
  then have "Max (range f) \<in> range f" by (intro Max_in) auto
  then obtain n where n: "f n = Max (range f)" by auto
  have "f m = f n" if "n \<le> m" for m
    using lift_Suc_mono_le [of f, OF assms(1) that] Max_ge [OF fin rangeI, of m] n by simp
  then show ?thesis by blast
qed

lemma entering_ends:
  assumes "run_of sys_step r" and "\<forall>n. length (calls (r n)) \<le> b"
  shows "\<exists>n. run_of same_calls (\<lambda>m. r (n + m))"
proof -
  have "length (calls (r n)) \<le> length (calls (r (Suc n)))" for n
    using run_of_step [OF assms(1), of n] calls_grow by auto
  then obtain n where n: "\<forall>m \<ge> n. length (calls (r m)) = length (calls (r n))"
    using bounded_settles [of "\<lambda>n. length (calls (r n))" b] assms(2) by auto
  have "r (n + Suc m) = r (n + m) \<or> same_calls (r (n + m)) (r (n + Suc m))" for m
    using run_of_step [OF assms(1), of "n + m"] n [rule_format, of "n + m"] n [rule_format, of "n + Suc m"]
    by (auto simp: same_calls_def)
  then show ?thesis unfolding run_of_def by blast
qed

lemma settled_keeps:
  assumes "same_calls s s'" and "settled s"
  shows "settled s'"
proof -
  have len: "length (calls s') = length (calls s)" using assms(1) by (simp add: same_calls_def)
  have still: "do_step env inp (brk s) (calls s ! i) = None" if "i < length (calls s)" for env inp i
    using assms(2) that by (auto simp: settled_def finished_def do_step_def)
  from background [OF assms(1)] have "background_step s s'" using still by fastforce
  then have pcs: "map c_pc (calls s') = map c_pc (calls s)" by (simp add: background_step_def)
  have "c_pc (calls s' ! i) = c_pc (calls s ! i)" if "i < length (calls s)" for i
    using that pcs len by (metis nth_map)
  with assms(2) len show ?thesis by (simp add: settled_def finished_def)
qed

text \<open>Fair runs exist: from every state the system can reach there is one in which no call enters.\<close>

definition rest_step :: "nat \<Rightarrow> system \<Rightarrow> system" where
  "rest_step n s =
     (if n mod 3 = 0 then s\<lparr>now := now s + 1\<rparr>
      else if n mod 3 = 1 then
        (case ticker_fires (now s) (tick_at s) of
           Some tk \<Rightarrow> if refilling (brk s) then s\<lparr>tick_at := tk\<rparr> else s
         | None \<Rightarrow> s)
      else
        (case refill_one (refill_left s) (brk s) of
           Some (m, cb) \<Rightarrow> s\<lparr>brk := cb, refill_left := m\<rparr>
         | None \<Rightarrow> (case ticker_recv (tick_at s) of
             Some tk \<Rightarrow> if refilling (brk s) \<and> refill_left s = 0
               then s\<lparr>tick_at := tk, refill_left := nat (tokensPerTick (brk s)), n_ticks := Suc (n_ticks s)\<rparr> else s
           | None \<Rightarrow> s)))"

fun rests :: "system \<Rightarrow> nat \<Rightarrow> system" where
  "rests s 0 = s"
| "rests s (Suc n) = rest_step n (rests s n)"

lemma refill_one_0 [simp]: "refill_one 0 cb = None"
  by (simp add: refill_one_def)

lemma rest_step_cases:
  obtains (clock) "n mod 3 = 0" "rest_step n s = s\<lparr>now := now s + 1\<rparr>"
    | (fires) tk where "n mod 3 = 1" "refilling (brk s)" "ticker_fires (now s) (tick_at s) = Some tk" "rest_step n s = s\<lparr>tick_at := tk\<rparr>"
    | (sends) m cb where "n mod 3 = 2" "refill_one (refill_left s) (brk s) = Some (m, cb)" "rest_step n s = s\<lparr>brk := cb, refill_left := m\<rparr>"
    | (takes) tk where "n mod 3 = 2" "refilling (brk s)" "refill_left s = 0" "ticker_recv (tick_at s) = Some tk"
        "rest_step n s = s\<lparr>tick_at := tk, refill_left := nat (tokensPerTick (brk s)), n_ticks := Suc (n_ticks s)\<rparr>"
    | (nothing) "n mod 3 \<noteq> 0" "rest_step n s = s"
proof -
  consider "n mod 3 = 0" | "n mod 3 = 1" | "n mod 3 = 2" by linarith
  then show ?thesis
  proof cases
    case 1
    then show ?thesis by (intro clock) (simp_all add: rest_step_def)
  next
    case 2
    show ?thesis
    proof (cases "ticker_fires (now s) (tick_at s)")
      case (Some tk)
      show ?thesis
      proof (cases "refilling (brk s)")
        case True
        with 2 Some show ?thesis by (intro fires) (simp_all add: rest_step_def)
      qed (rule nothing, use 2 Some in \<open>auto simp: rest_step_def\<close>)
    qed (rule nothing, use 2 in \<open>auto simp: rest_step_def\<close>)
  next
    case 3
    show ?thesis
    proof (cases "refill_one (refill_left s) (brk s)")
      case None
      show ?thesis
      proof (cases "ticker_recv (tick_at s)")
        case (Some tk)
        show ?thesis
        proof (cases "refilling (brk s) \<and> refill_left s = 0")
          case True
          with 3 None Some show ?thesis by (intro takes) (simp_all add: rest_step_def)
        qed (rule nothing, use 3 None Some in \<open>auto simp: rest_step_def\<close>)
      qed (rule nothing, use 3 None in \<open>auto simp: rest_step_def\<close>)
    next
      case (Some x)
      with 3 show ?thesis by (cases x, intro sends) (auto simp: rest_step_def)
    qed
  qed
qed

lemma rest_step_sys: "rest_step n s = s \<or> sys_step s (rest_step n s)"
  by (cases n s rule: rest_step_cases) (auto intro: sys_step.intros)

lemma rest_step_calls [simp]: "calls (rest_step n s) = calls s"
  by (cases n s rule: rest_step_cases) simp_all

lemma rest_step_now: "now (rest_step n s) = (if n mod 3 = 0 then now s + 1 else now s)"
  by (cases n s rule: rest_step_cases) simp_all

lemma rests_calls [simp]: "calls (rests s n) = calls s"
  by (induction n) simp_all

lemma rests_now: "now (rests s (3 * n)) = now s + int n"
proof (induction n)
  case (Suc n)
  have three: "3 * Suc n = Suc (Suc (Suc (3 * n)))" by simp
  have "Suc (3 * n) mod 3 = 1" "Suc (Suc (3 * n)) mod 3 = 2" by presburger+
  with Suc show ?case unfolding three by (simp add: rest_step_now)
qed simp

lemma rest_step_acts:
  assumes "\<exists>s'. sys_act a s s'" and "a = RefillerMoves \<and> n mod 3 = 2 \<or> a = TickerFires \<and> n mod 3 = 1"
  shows "sys_act a s (rest_step n s)"
  using assms by (auto simp: rest_step_def)

lemma rests_fair:
  assumes "settled s"
  shows "weakly_fair sys_act (rests s)"
  unfolding weakly_fair_def
proof (intro allI impI)
  fix a n assume can: "\<forall>m \<ge> n. \<exists>s'. sys_act a (rests s m) s'"
  show "\<exists>m \<ge> n. sys_act a (rests s m) (rests s (Suc m))"
  proof (cases a)
    case (CallMoves i)
    with can obtain s' where "sys_act (CallMoves i) (rests s n) s'" by blast
    then show ?thesis using assms by (auto simp: settled_def finished_def do_step_def)
  next
    case RefillerMoves
    have "n \<le> 3 * n + 2" "(3 * n + 2) mod 3 = 2" by presburger+
    with rest_step_acts [of a "rests s (3 * n + 2)" "3 * n + 2"] can RefillerMoves show ?thesis
      by (metis rests.simps(2))
  next
    case TickerFires
    have "n \<le> 3 * n + 1" "(3 * n + 1) mod 3 = 1" by presburger+
    with rest_step_acts [of a "rests s (3 * n + 1)" "3 * n + 1"] can TickerFires show ?thesis
      by (metis rests.simps(2))
  next
    case (ClockReaches t)
    have "n \<le> 3 * (n + nat (t - now s))" by simp
    with can ClockReaches have "now (rests s (3 * (n + nat (t - now s)))) < t" by auto
    then have "now s + int (n + nat (t - now s)) < t" unfolding rests_now .
    moreover have "t - now s \<le> int (n + nat (t - now s))" by simp
    ultimately show ?thesis by linarith
  qed
qed

lemma rests_run: "run_of sys_step (rests s)"
  using rest_step_sys by (simp add: run_of_def)

lemma moves_calls: "moves\<^sup>*\<^sup>* s s' \<Longrightarrow> length (calls s') = length (calls s)"
  by (induction rule: rtranclp_induct) (auto simp: moves_def dest: inner_sys)

text \<open>The refiller's other way out of its \<open>select\<close>: it can take it between two ticks.\<close>

definition sys_leaves :: "system \<Rightarrow> system \<Rightarrow> bool" where
  "sys_leaves s s' \<longleftrightarrow> refilling (brk s) \<and> tokenStop (brk s) = Some True \<and> refill_left s = 0 \<and>
     s' = s\<lparr>brk := refiller_exit (brk s)\<rparr>"

lemma rests_stop: "tokenStop (brk (rests s n)) = tokenStop (brk s) \<and> refilling (brk (rests s n)) = refilling (brk s)"
proof (induction n)
  case (Suc n)
  then show ?case
    by (cases n "rests s n" rule: rest_step_cases) (simp_all add: refill_one_same(10,11))
qed simp

lemma rests_strong:
  assumes "tokenStop (brk s) = Some True \<Longrightarrow> Stop_returns (brk s)"
  shows "strongly_fair sys_leaves (rests s)"
  using assms rests_stop [of s] by (auto simp: strongly_fair_def sys_leaves_def Stop_returns_def)

lemma settled_leaves:
  assumes "sys_run k s" and "settled s"
  shows "\<exists>s'. inner_step\<^sup>*\<^sup>* s s' \<and> settled s' \<and> (tokenStop (brk s') = Some True \<longrightarrow> Stop_returns (brk s'))"
proof (cases "tokenStop (brk s) = Some True")
  case True
  then have "tokens (brk s) \<noteq> None" using run_channel [OF assms(1)] by (simp add: channel_ok_def)
  from refiller_leaves [OF True this] assms(2) show ?thesis
    by (auto simp: refiller_gone_def Stop_returns_def settled_def finished_def)
qed (use assms(2) in blast)

lemma fair_run_exists:
  assumes "sys_run k s"
  shows "\<exists>r. r 0 = s \<and> run_of sys_step r \<and> weakly_fair sys_act r \<and> strongly_fair sys_leaves r \<and>
    (\<forall>n. length (calls (r n)) \<le> length (calls s))"
proof -
  obtain s1 where s1: "moves\<^sup>*\<^sup>* s s1" "settled s1" using calls_settle [OF assms] by blast
  moreover obtain k1 where "sys_run k1 s1" using moves_run [OF s1(1)] assms by blast
  ultimately obtain s' where s': "moves\<^sup>*\<^sup>* s s'" "settled s'" "tokenStop (brk s') = Some True \<longrightarrow> Stop_returns (brk s')"
    using settled_leaves inner_moves by (meson rtranclp_trans)
  from s'(1) have "sys_step\<^sup>*\<^sup>* s (rests s' 0)" using moves_steps by simp
  from run_prefix [OF this rests_run] obtain r k where r: "r 0 = s" "run_of sys_step r" "\<And>n. r (k + n) = rests s' n" by metis
  have "weakly_fair sys_act (\<lambda>n. r (k + n))" unfolding r(3) by (rule rests_fair [OF s'(2)])
  then have "weakly_fair sys_act r" by (rule weakly_fair_suffix)
  moreover have "strongly_fair sys_leaves (\<lambda>n. r (k + n))" unfolding r(3) by (rule rests_strong) (use s'(3) in blast)
  then have "strongly_fair sys_leaves r" by (rule strongly_fair_suffix)
  moreover have "length (calls (r n)) \<le> length (calls s)" for n
  proof -
    have "n \<le> k + n" by simp
    from run_of_steps [OF r(2) this] have "length (calls (r n)) \<le> length (calls (r (k + n)))"
      by (induction rule: rtranclp_induct) (auto intro: order_trans calls_grow)
    then show ?thesis using moves_calls [OF s'(1)] by (simp add: r(3))
  qed
  ultimately show ?thesis using r by blast
qed

section \<open>The refiller leaves\<close>

text \<open>It always comes to the end of the sends of a tick.\<close>

interpretation sending: fair_progress sys_step "\<lambda>_ :: unit. sys_act RefillerMoves" "\<lambda>s. \<exists>k. sys_run k s \<and> tokens (brk s) \<noteq> None"
    "\<lambda>s. refill_left s = 0" "\<lambda>_. ()" refill_left
proof
  fix s s' assume "\<exists>k. sys_run k s \<and> tokens (brk s) \<noteq> None"
  then obtain k where k: "sys_run k s" "tokens (brk s) \<noteq> None" by blast
  show "\<exists>k. sys_run k s' \<and> tokens (brk s') \<noteq> None" if "sys_step s s'"
    using sys_run.step [OF k(1) that] sys_step_tokens [OF run_inv [OF k(1)] that] k(2) by auto
  assume left: "refill_left s \<noteq> 0"
  then obtain n where n: "refill_left s = Suc n" by (cases "refill_left s") simp_all
  with k(2) have "refill_one (refill_left s) (brk s) \<noteq> None" by (auto simp: refill_one_def)
  then show "\<exists>s'. sys_act RefillerMoves s s'" by auto
  have one: "m < refill_left s" if "refill_one (refill_left s) (brk s) = Some (m, cb)" for m cb
    using that by (cases rule: refill_one_cases) simp_all
  then show "refill_left s' = 0 \<or> refill_left s' < refill_left s" if "sys_act RefillerMoves s s'"
    using that left by auto
  show "refill_left s' = 0 \<or> refill_left s' < refill_left s \<or>
      refill_left s' = refill_left s \<and> () = ()" if "sys_step s s'"
    using that by cases (use one left in \<open>auto simp: with_call_def\<close>)
qed

lemma stop_steps:
  assumes "sys_step s s'"
  shows "tokenStop (brk s) = Some True \<Longrightarrow> tokenStop (brk s') = Some True" and "refilling (brk s') \<Longrightarrow> refilling (brk s)"
proof -
  have "(tokenStop (brk s) = Some True \<longrightarrow> tokenStop (brk s') = Some True) \<and> (refilling (brk s') \<longrightarrow> refilling (brk s))"
    using assms
  proof cases
    case (call_step i env inp cb c)
    with call_step_steady [OF call_step(4)] show ?thesis by simp
  next
    case (refilled n cb)
    with refill_one_same(10,11) [OF refilled(2)] show ?thesis by simp
  qed (auto simp: with_call_def Stop_def refiller_exit_def split: option.splits)
  then show "tokenStop (brk s) = Some True \<Longrightarrow> tokenStop (brk s') = Some True" "refilling (brk s') \<Longrightarrow> refilling (brk s)"
    by blast+
qed

lemma no_channel: "sys_step\<^sup>*\<^sup>* s s' \<Longrightarrow> tokenStop (brk s) = None \<Longrightarrow> tokenStop (brk s') = None"
proof (induction rule: rtranclp_induct)
  case (step s1 s2)
  from step(2) show ?case
  proof cases
    case (call_step i env inp cb c)
    with call_step_steady [OF call_step(4)] step show ?thesis by simp
  next
    case (refilled n cb)
    with refill_one_same(11) [OF refilled(2)] step show ?thesis by simp
  qed (use step in \<open>auto simp: with_call_def Stop_def refiller_exit_def split: option.splits\<close>)
qed simp

lemma stop_run:
  assumes "run_of sys_step r" and "n \<le> m"
  shows "tokenStop (brk (r n)) = Some True \<Longrightarrow> tokenStop (brk (r m)) = Some True" and "refilling (brk (r m)) \<Longrightarrow> refilling (brk (r n))"
  using run_of_steps [OF assms] by (induction rule: rtranclp_induct) (auto dest: stop_steps)

section \<open>Properties\<close>

lemma run_reaches:
  assumes "sys_run k (r 0)" and "run_of sys_step r"
  shows "\<exists>j. sys_run j (r m)"
proof (induction m)
  case (Suc m)
  with run_of_step [OF assms(2), of m] show ?case by (metis sys_run.step)
qed (use assms(1) in blast)

lemma fair_leaves:
  assumes "sys_run k (r 0)" and "run_of sys_step r" and "weakly_fair (\<lambda>_ :: unit. sys_act RefillerMoves) r" and "strongly_fair sys_leaves r"
    and "tokenStop (brk (r n)) = Some True"
  shows "\<exists>m \<ge> n. \<forall>j \<ge> m. \<not> refilling (brk (r j))"
proof -
  have reach: "\<exists>j. sys_run j (r m)" for m by (rule run_reaches [OF assms(1,2)])
  have closed: "tokenStop (brk (r m)) = Some True" if "n \<le> m" for m by (rule stop_run(1) [OF assms(2) that assms(5)])
  have "\<exists>m \<ge> n. \<not> refilling (brk (r m))"
  proof (rule ccontr)
    assume "\<not> ?thesis"
    then have on: "refilling (brk (r m))" if "n \<le> m" for m using that by blast
    have "\<exists>m \<ge> i. \<exists>s. sys_leaves (r m) s" if "n \<le> i" for i
    proof -
      obtain j where j: "sys_run j (r i)" using reach by blast
      moreover have "tokens (brk (r i)) \<noteq> None" using run_channel [OF j] closed [OF that] by (simp add: channel_ok_def)
      ultimately obtain m where "i \<le> m" "refill_left (r m) = 0" using sending.comes_to [OF assms(2,3)] by blast
      with on closed that show ?thesis by (auto simp: sys_leaves_def)
    qed
    then obtain m where "n \<le> m" "sys_leaves (r m) (r (Suc m))" using assms(4) by (auto simp: strongly_fair_def)
    with on [of "Suc m"] show False by (auto simp: sys_leaves_def refiller_exit_def)
  qed
  then show ?thesis using stop_run(2) [OF assms(2)] by blast
qed

lemma fair_settles:
  assumes "sys_run k (r 0)" and "run_of sys_step r" and "weakly_fair sys_act r" and "\<forall>n. length (calls (r n)) \<le> b"
  shows "\<exists>n. \<forall>m \<ge> n. (\<exists>j. sys_run j (r m)) \<and> settled (r m)"
proof -
  have reach: "\<exists>j. sys_run j (r m)" for m by (rule run_reaches [OF assms(1,2)])
  obtain n where n: "run_of same_calls (\<lambda>m. r (n + m))" using entering_ends [OF assms(2,4)] by blast
  from fair_calls.comes_to [OF n weakly_fair_shift [OF assms(3)] reach] obtain j where j: "settled (r (n + j))" by blast
  have "settled (r (n + m))" if "j \<le> m" for m
    using that
  proof (induction m rule: dec_induct)
    case (step m)
    with run_of_step [OF n, of m] settled_keeps show ?case by metis
  qed (rule j)
  then have "settled (r m)" if "n + j \<le> m" for m using that by (metis le_add_diff_inverse add_leD1 add_le_imp_le_diff add.commute)
  with reach show ?thesis by blast
qed



text \<open>C21: Under a fair scheduler \<open>Stop\<close> returns: once the stop channel is closed, in each infinite run in which
  the goroutines that can go on do so, and the refiller's \<open>select\<close> does not pass over the stop channel for
  ever, the refiller leaves, which lets \<open>Stop\<close> return, and from then on there is no further tick.\<close>

theorem fair_stop_returns:
  assumes "sys_run k (r 0)" and "run_of sys_step r" and "weakly_fair sys_act r" and "strongly_fair sys_leaves r"
    and "tokenStop (brk (r n)) = Some True"
  shows "\<exists>m \<ge> n. \<forall>j \<ge> m. Stop_returns (brk (r j)) \<and> n_ticks (r j) = n_ticks (r m)"
proof -
  obtain m where m: "n \<le> m" "\<And>j. m \<le> j \<Longrightarrow> \<not> refilling (brk (r j))" using fair_leaves [OF assms(1,2) weakly_fair_one [OF assms(3)] assms(4,5)] by blast
  obtain j where "sys_run j (r m)" using run_reaches [OF assms(1,2)] by blast
  then have "refiller_gone (r m)" using gone_iff m(2) by blast
  then have "n_ticks (r j) = n_ticks (r m)" if "m \<le> j" for j
    using stopped_steps [OF run_of_steps [OF assms(2) that]] by blast
  with m show ?thesis by (auto simp: Stop_returns_def)
qed

theorem fair_stop_returns_witness:
  "\<exists>r. sys_run 1 (r 0) \<and> tokenStop (brk (r 0)) = Some True \<and> refilling (brk (r 0)) \<and> run_of sys_step r \<and>
     weakly_fair sys_act r \<and> (\<exists>m. \<forall>j \<ge> m. Stop_returns (brk (r j)))"
proof -
  let ?s = "limited_start\<lparr>brk := Stop (brk limited_start)\<rparr>"
  have run: "sys_run 1 ?s" using sys_run.step [OF limited_run sys_step.stopped] by simp
  have stop: "tokenStop (brk limited_start) = Some False" "stopOnce (brk limited_start) = False" "refilling (brk limited_start)"
    using initTokenBucket_on(5,6) [of "newCircuitBreaker ''b'' 0 2 1 0"]
    by (simp_all add: limited_start_def NewCircuitBreakerWithOptions_def newCircuitBreaker_def frame_simps)
  then have s: "tokenStop (brk ?s) = Some True" "refilling (brk ?s)" by (simp_all add: Stop_def)
  from fair_run_exists [OF run] obtain r where r: "r 0 = ?s" "run_of sys_step r" "weakly_fair sys_act r" "strongly_fair sys_leaves r"
    by blast
  from fair_stop_returns [OF _ r(2-4), of 1 0] run s r(1) have "\<exists>m. \<forall>j \<ge> m. Stop_returns (brk (r j))" by auto
  with run s r show ?thesis by (intro exI [of _ r]) simp
qed

end
