(* ===== verification/Demo_Fair.thy ===== *)
theory Demo_Fair
  imports Demo_Live System_Fair
begin

text \<open>
  The demonstration under a fair scheduler: every infinite run in which the goroutines that can go on do
  so comes to the exit of \<open>main\<close>, or to the crash a panic of \<open>Do\<close> causes. The runs of its breaker are fair
  runs of System\_Fair, so that all calls end; then the goroutines print, \<open>main\<close> joins them and stops the
  breaker.
\<close>

section \<open>The actions\<close>

inductive main_step :: "demo \<Rightarrow> demo \<Rightarrow> bool" where
  spawn: "d_main d = Spawning i \<Longrightarrow> i < demo_total \<Longrightarrow>
    main_step d (d\<lparr>d_main := Spawning (Suc i), d_wg := Suc (d_wg d), d_jobs := d_jobs d @ [Created]\<rparr>)"
| spawned: "d_main d = Spawning demo_total \<Longrightarrow> main_step d (d\<lparr>d_main := Joining\<rparr>)"
| joined: "d_main d = Joining \<Longrightarrow> d_wg d = 0 \<Longrightarrow> \<forall>xs. mset (shuffle xs) = mset xs \<Longrightarrow>
    main_step d (d\<lparr>d_main := StoppingAll, d_fleet := stopAll_begin shuffle (d_fleet d)\<rparr>)"
| stop: "d_main d = StoppingAll \<Longrightarrow> stopper_step 0 (d_fleet d) = Some f \<Longrightarrow> main_step d (d\<lparr>d_fleet := f\<rparr>)"
| stopped: "d_main d = StoppingAll \<Longrightarrow> stoppers (d_fleet d) ! 0 = Stopping [] \<Longrightarrow>
    main_step d (d\<lparr>d_main := Exited (time_sub (fleet_now (d_fleet d)) (d_start d)), d_server := Close (d_server d)\<rparr>)"

inductive job_step :: "nat \<Rightarrow> demo \<Rightarrow> demo \<Rightarrow> bool" for j where
  call: "alive d \<Longrightarrow> j < length (d_jobs d) \<Longrightarrow> d_jobs d ! j = Created \<Longrightarrow> clock env = fleet_now (d_fleet d) \<Longrightarrow>
    Do_enter env (brk (d_breaker d)) (Some (teste_request (Addr (d_server d)))) (Some teste_client) = Inr c \<Longrightarrow>
    job_step j d (with_breaker ((d_breaker d)\<lparr>calls := calls (d_breaker d) @ [c]\<rparr>)
      (d\<lparr>d_jobs := (d_jobs d)[j := Calling (length (calls (d_breaker d)))]\<rparr>))"
| inside: "alive d \<Longrightarrow> j < length (d_jobs d) \<Longrightarrow> d_jobs d ! j = Calling n \<Longrightarrow> sys_act (CallMoves n) (d_breaker d) s \<Longrightarrow>
    job_step j d (with_breaker s d)"
| returns: "alive d \<Longrightarrow> j < length (d_jobs d) \<Longrightarrow> d_jobs d ! j = Calling n \<Longrightarrow>
    c_pc (calls (d_breaker d) ! n) = Done res \<Longrightarrow> job_step j d (job_end j res d)"

datatype demo_action = MainMoves | JobMoves nat | DemoRefills | DemoTicks | DemoClock gotime

fun demo_act :: "demo_action \<Rightarrow> demo \<Rightarrow> demo \<Rightarrow> bool" where
  "demo_act MainMoves d d' = main_step d d'"
| "demo_act (JobMoves j) d d' = job_step j d d'"
| "demo_act DemoRefills d d' = (alive d \<and> (\<exists>s. sys_act RefillerMoves (d_breaker d) s \<and> d' = with_breaker s d))"
| "demo_act DemoTicks d d' = (alive d \<and> (\<exists>s. sys_act TickerFires (d_breaker d) s \<and> d' = with_breaker s d))"
| "demo_act (DemoClock t) d d' = (alive d \<and> fleet_now (d_fleet d) < t \<and> (\<exists>u \<ge> t.
     d' = d\<lparr>d_fleet := (d_fleet d)\<lparr>members := map (\<lambda>s. s\<lparr>now := u\<rparr>) (members (d_fleet d)), fleet_now := u\<rparr>\<rparr>))"

definition demo_leaves :: "demo \<Rightarrow> demo \<Rightarrow> bool" where
  "demo_leaves d d' \<longleftrightarrow> alive d \<and> (\<exists>s. sys_leaves (d_breaker d) s \<and> d' = with_breaker s d)"

lemma sys_act_inner: "sys_act a s s' \<Longrightarrow> (\<And>t. a \<noteq> ClockReaches t) \<Longrightarrow> inner_step s s'"
  by (cases a) (auto intro: inner_step.intros)

lemma demo_act_step:
  assumes "demo_act a d d'"
  shows "demo_step d d'"
proof (cases a)
  case MainMoves
  with assms show ?thesis by (auto elim!: main_step.cases intro: demo_step.intros)
next
  case (JobMoves j)
  with assms show ?thesis
    by (auto elim!: job_step.cases intro: demo_step.intros breaker_step.own sys_act_inner simp del: sys_act.simps)
next
  case (DemoClock t)
  with assms show ?thesis by (auto intro: demo_step.time)
qed (use assms in \<open>auto intro: demo_step.inner breaker_step.own sys_act_inner simp del: sys_act.simps\<close>)

section \<open>The run of the breaker\<close>

definition fair_ok :: "gotime \<Rightarrow> demo \<Rightarrow> bool" where
  "fair_ok t d \<longleftrightarrow> demo_inv t d \<and> length (members (d_fleet d)) = 1"

lemma fair_ok_step: "fair_ok t d \<Longrightarrow> demo_step d d' \<Longrightarrow> fair_ok t d'"
  using demo_inv_step demo_members by (simp add: fair_ok_def)

lemma fair_okD:
  assumes "fair_ok t d"
  shows "demo_inv t d" and "client_ok d" and "d_cb d = 0" and "jobs_ok d" and "phase_ok d (d_main d)"
    and "members (d_fleet d) = [d_breaker d]" and "now (d_breaker d) = fleet_now (d_fleet d)"
proof -
  show inv: "demo_inv t d" using assms by (simp add: fair_ok_def)
  show ok: "client_ok d" by (rule demo_reach(3) [OF inv])
  show "d_cb d = 0" "jobs_ok d" "phase_ok d (d_main d)" using inv by (simp_all add: demo_inv_def)
  with assms show "members (d_fleet d) = [d_breaker d]" by (auto simp: fair_ok_def d_breaker_def length_Suc_conv)
  show "now (d_breaker d) = fleet_now (d_fleet d)" by (rule breaker_now [OF ok])
qed

lemma fair_ok_run: "fair_ok t d \<Longrightarrow> \<exists>k. sys_run k (d_breaker d)"
  using fleet_run_member demo_reach(1,3) [of t d] by (auto simp: fair_ok_def client_ok_def d_breaker_def)

lemma fair_ok_calls:
  assumes "fair_ok t d"
  shows "length (calls (d_breaker d)) \<le> demo_total"
  using jobs_okD(2) [OF fair_okD(4) [OF assms]] phase_jobs [OF fair_okD(5) [OF assms]] by simp

lemma with_breaker_get: "fair_ok t d \<Longrightarrow> d_breaker (with_breaker s d) = s"
  using fair_okD(2) [of t d] by (simp add: client_ok_def)

lemma stopper_at_0:
  assumes "fair_ok t d" and "d_main d = StoppingAll"
  shows "0 < length (stoppers (d_fleet d))" and "a \<in> set (stopper_addrs (stoppers (d_fleet d) ! 0)) \<Longrightarrow> a = 0"
proof -
  show st: "0 < length (stoppers (d_fleet d))" using fair_okD(5) [OF assms(1)] assms(2) by (simp add: to_halt_def)
  show "a = 0" if "a \<in> set (stopper_addrs (stoppers (d_fleet d) ! 0))"
    using stopper_addr [OF demo_reach(1) [OF fair_okD(1) [OF assms(1)]] st that] assms(1) by (simp add: fair_ok_def)
qed

lemma breaker_moves:
  assumes "demo_step d d'" and "fair_ok t d"
  shows "d_breaker d' = d_breaker d \<or> sys_step (d_breaker d) (d_breaker d')"
  using assms(1)
proof cases
  case (call j env c)
  have "d_breaker d' = (d_breaker d)\<lparr>calls := calls (d_breaker d) @ [c]\<rparr>"
    using call(1) fair_okD(2) [OF assms(2)] by (simp add: client_ok_def d_breaker_def with_breaker_def)
  with call(5,6) fair_okD(7) [OF assms(2)] show ?thesis by (auto intro!: sys_step.enter)
next
  case (inner s)
  with breaker_sys [OF inner(3)] with_breaker_get [OF assms(2)] show ?thesis by simp
next
  case (time u)
  have "d_breaker d' = (d_breaker d)\<lparr>now := u\<rparr>" using time(1) fair_okD(2) [OF assms(2)] by (simp add: d_breaker_def client_ok_def)
  with time(3) fair_okD(7) [OF assms(2)] show ?thesis by (auto intro: sys_step.time_passes)
next
  case (stop f)
  note st = stopper_at_0 [OF assms(2) stop(2)]
  from stop(3) st(1) show ?thesis
  proof (cases rule: stopper_step_cases)
    case (signal a as)
    then have "a = 0" using st(2) by simp
    then have "d_breaker d' = (d_breaker d)\<lparr>brk := Stop (brk (d_breaker d))\<rparr>"
      using signal(3) stop(1) fair_okD(2,3) [OF assms(2)] by (simp add: d_breaker_def client_ok_def)
    then show ?thesis by (auto intro: sys_step.stopped)
  next
    case (wait a as)
    with stop(1) show ?thesis by (simp add: d_breaker_def)
  qed
qed (auto simp: d_breaker_def stopAll_begin_def job_end_def split: do_result.splits option.splits)

lemma fair_ok_at:
  assumes "run_of demo_step r" and "fair_ok t (r 0)"
  shows "fair_ok t (r n)"
proof (induction n)
  case (Suc n)
  with run_of_step [OF assms(1), of n] fair_ok_step show ?case by metis
qed (rule assms(2))

lemma breaker_run:
  assumes "run_of demo_step r" and "fair_ok t (r 0)"
  shows "run_of sys_step (\<lambda>n. d_breaker (r n))"
  unfolding run_of_def
proof
  fix n
  from run_of_step [OF assms(1), of n] breaker_moves [OF _ fair_ok_at [OF assms]]
  show "d_breaker (r (Suc n)) = d_breaker (r n) \<or> sys_step (d_breaker (r n)) (d_breaker (r (Suc n)))" by metis
qed

lemma calling_stays:
  assumes "demo_step d d'" and "j < length (d_jobs d)" and "d_jobs d ! j = Calling i"
    and "\<nexists>res. c_pc (calls (d_breaker d) ! i) = Done res"
  shows "j < length (d_jobs d') \<and> d_jobs d' ! j = Calling i"
  using assms(1)
proof cases
  case (call k env c)
  with assms(2,3) show ?thesis by (cases "j = k") simp_all
next
  case (no_call k env res)
  then show ?thesis using request_enters by blast
next
  case (returns k n res)
  with assms(2-4) show ?thesis by (cases "j = k") (auto simp: job_end_def split: do_result.splits option.splits)
qed (use assms(2,3) in \<open>simp_all add: nth_append with_breaker_def\<close>)

text \<open>A call that can go on does so, because its goroutine does.\<close>

lemma call_fair:
  assumes "run_of demo_step r" and "fair_ok t (r 0)" and "\<And>n. alive (r n)" and "weakly_fair demo_act r"
    and can: "\<And>m. n \<le> m \<Longrightarrow> \<exists>s. sys_act (CallMoves i) (d_breaker (r m)) s"
  shows "\<exists>m \<ge> n. sys_act (CallMoves i) (d_breaker (r m)) (d_breaker (r (Suc m)))"
proof -
  have going: "i < length (calls (d_breaker (r m)))" "\<nexists>res. c_pc (calls (d_breaker (r m)) ! i) = Done res" if "n \<le> m" for m
    using can [OF that] do_step_done by auto
  have "Calling i \<in> set (d_jobs (r n))"
    using jobs_okD(3) [OF fair_okD(4) [OF fair_ok_at [OF assms(1,2)]]] going [of n] by blast
  then obtain j where j: "j < length (d_jobs (r n))" "d_jobs (r n) ! j = Calling i" by (auto simp: in_set_conv_nth)
  have at: "j < length (d_jobs (r m)) \<and> d_jobs (r m) ! j = Calling i" if "n \<le> m" for m
    using that
  proof (induction m rule: dec_induct)
    case (step m)
    with run_of_step [OF assms(1), of m] calling_stays [of "r m" "r (Suc m)" j i] going(2) show ?case by metis
  qed (use j in simp)
  have "\<exists>d. demo_act (JobMoves j) (r m) d" if "n \<le> m" for m
    using can [OF that] at [OF that] assms(3) job_step.inside by (simp del: sys_act.simps) blast
  from weakly_fairD [OF assms(4) this] obtain m where m: "n \<le> m" "job_step j (r m) (r (Suc m))" by auto
  from m(2) have "sys_act (CallMoves i) (d_breaker (r m)) (d_breaker (r (Suc m)))"
  proof cases
    case (call env c)
    with at [OF m(1)] show ?thesis by simp
  next
    case (inside k s)
    with at [OF m(1)] with_breaker_get [OF fair_ok_at [OF assms(1,2)]] show ?thesis by simp
  next
    case (returns k res)
    with at [OF m(1)] going(2) [OF m(1)] show ?thesis by simp
  qed
  with m(1) show ?thesis by blast
qed

lemma breaker_fair:
  assumes "run_of demo_step r" and "fair_ok t (r 0)" and "\<And>n. alive (r n)" and "weakly_fair demo_act r"
  shows "weakly_fair sys_act (\<lambda>n. d_breaker (r n))"
  unfolding weakly_fair_def
proof (intro allI impI)
  fix a n assume can: "\<forall>m \<ge> n. \<exists>s. sys_act a (d_breaker (r m)) s"
  note get = with_breaker_get [OF fair_ok_at [OF assms(1,2)]]
  have taken: "\<exists>m \<ge> n. sys_act a (d_breaker (r m)) (d_breaker (r (Suc m)))"
    if "\<And>d d'. demo_act b d d' = (alive d \<and> (\<exists>s. sys_act a (d_breaker d) s \<and> d' = with_breaker s d))" for b
  proof -
    have "\<exists>d. demo_act b (r m) d" if "n \<le> m" for m using can that assms(3) \<open>\<And>d d'. demo_act b d d' = _ d d'\<close> by blast
    from weakly_fairD [OF assms(4) this] show ?thesis unfolding that using get by metis
  qed
  show "\<exists>m \<ge> n. sys_act a (d_breaker (r m)) (d_breaker (r (Suc m)))"
  proof (cases a)
    case (CallMoves i)
    with call_fair [OF assms] can show ?thesis by blast
  next
    case RefillerMoves
    then show ?thesis by (intro taken [of DemoRefills]) (simp del: sys_act.simps)
  next
    case TickerFires
    then show ?thesis by (intro taken [of DemoTicks]) (simp del: sys_act.simps)
  next
    case (ClockReaches u)
    have "\<exists>d. demo_act (DemoClock u) (r m) d" if "n \<le> m" for m
      using can that ClockReaches assms(3) fair_okD(7) [OF fair_ok_at [OF assms(1,2)]] by auto
    then have "\<exists>m \<ge> n. demo_act (DemoClock u) (r m) (r (Suc m))" by (rule weakly_fairD [OF assms(4)])
    then obtain m v where m: "n \<le> m" "fleet_now (d_fleet (r m)) < u" "u \<le> v"
      "r (Suc m) = (r m)\<lparr>d_fleet := (d_fleet (r m))\<lparr>members := map (\<lambda>s. s\<lparr>now := v\<rparr>) (members (d_fleet (r m))), fleet_now := v\<rparr>\<rparr>"
      by auto
    then have "d_breaker (r (Suc m)) = (d_breaker (r m))\<lparr>now := v\<rparr>"
      using fair_okD(2) [OF fair_ok_at [OF assms(1,2)]] by (simp add: d_breaker_def client_ok_def)
    with m(1-3) ClockReaches fair_okD(7) [OF fair_ok_at [OF assms(1,2)]] show ?thesis by auto
  qed
qed

lemma breaker_strong:
  assumes "run_of demo_step r" and "fair_ok t (r 0)" and "\<And>n. alive (r n)" and "strongly_fair demo_leaves r"
  shows "strongly_fair sys_leaves (\<lambda>n. d_breaker (r n))"
  unfolding strongly_fair_def
proof (intro allI impI)
  fix n assume "\<forall>k \<ge> n. \<exists>m \<ge> k. \<exists>s. sys_leaves (d_breaker (r m)) s"
  then have "\<forall>k \<ge> n. \<exists>m \<ge> k. \<exists>d. demo_leaves (r m) d" using assms(3) by (meson demo_leaves_def)
  then obtain m where "n \<le> m" "demo_leaves (r m) (r (Suc m))" using assms(4) unfolding strongly_fair_def by blast
  with with_breaker_get [OF fair_ok_at [OF assms(1,2)]]
  show "\<exists>m \<ge> n. sys_leaves (d_breaker (r m)) (d_breaker (r (Suc m)))" by (auto simp: demo_leaves_def)
qed

section \<open>To the exit\<close>

text \<open>Once the calls have ended, the goroutines print and \<open>main\<close> gets past \<open>wg.Wait\<close>.\<close>

definition at_loop :: "demo \<Rightarrow> bool" where
  "at_loop d \<longleftrightarrow> (\<exists>i. d_main d = Spawning i) \<or> d_main d = Joining"

definition first_open :: "demo \<Rightarrow> nat" where
  "first_open d = length (takeWhile (\<lambda>j. \<not> open_job j) (d_jobs d))"

definition join_helper :: "demo \<Rightarrow> demo_action" where
  "join_helper d = (if d_main d = Joining \<and> first_open d < length (d_jobs d) then JobMoves (first_open d) else MainMoves)"

definition join_cost :: "demo \<Rightarrow> nat" where
  "join_cost d = (case d_main d of Spawning i \<Rightarrow> 3 * (demo_total - i) + jobs_cost d + 1 | Joining \<Rightarrow> jobs_cost d | _ \<Rightarrow> 0)"

definition joining_ok :: "gotime \<Rightarrow> demo \<Rightarrow> bool" where
  "joining_ok t d \<longleftrightarrow> fair_ok t d \<and> settled (d_breaker d)"

lemma first_open_at: "first_open d < length (d_jobs d) \<Longrightarrow> open_job (d_jobs d ! first_open d)"
  using nth_length_takeWhile [of "\<lambda>j. \<not> open_job j" "d_jobs d"] by (simp add: first_open_def)

lemma none_open: "\<not> first_open d < length (d_jobs d) \<Longrightarrow> filter open_job (d_jobs d) = []"
  unfolding first_open_def
  by (metis filter_False length_takeWhile_le linorder_neqE_nat not_le set_takeWhileD takeWhile_eq_all_conv takeWhile_eq_take take_all)

lemma join_helps:
  assumes "joining_ok t d" and "at_loop d"
  shows "\<exists>d'. demo_act (join_helper d) d d'"
proof -
  have ok: "fair_ok t d" "settled (d_breaker d)" using assms(1) by (simp_all add: joining_ok_def)
  have al: "alive d" using assms(2) by (auto simp: at_loop_def alive_def)
  consider i where "d_main d = Spawning i" | "d_main d = Joining" "first_open d < length (d_jobs d)"
    | "d_main d = Joining" "\<not> first_open d < length (d_jobs d)" using assms(2) by (auto simp: at_loop_def)
  then show ?thesis
  proof cases
    case (1 i)
    then have "i \<le> demo_total" using fair_okD(5) [OF ok(1)] by simp
    then consider "i < demo_total" | "i = demo_total" by linarith
    then show ?thesis using 1 main_step.spawn [OF 1] main_step.spawned [of d] by cases (auto simp: join_helper_def)
  next
    case 2
    let ?j = "first_open d"
    show ?thesis
    proof (cases "d_jobs d ! ?j")
      case Created
      obtain c where "Do_enter (sample_env\<lparr>clock := fleet_now (d_fleet d)\<rparr>) (brk (d_breaker d))
          (Some (teste_request (Addr (d_server d)))) (Some teste_client) = Inr c"
        using request_enters by (metis old.sum.exhaust)
      from job_step.call [OF al 2(2) Created _ this] 2 show ?thesis by (auto simp: join_helper_def)
    next
      case (Calling n)
      then have "n < length (calls (d_breaker d))" using jobs_okD(4) [OF fair_okD(4) [OF ok(1)]] 2(2) nth_mem by metis
      then obtain res where "c_pc (calls (d_breaker d) ! n) = Done res" using ok(2) by (auto simp: settled_def finished_def)
      from job_step.returns [OF al 2(2) Calling this] 2 show ?thesis by (auto simp: join_helper_def)
    next
      case (Ended l)
      with first_open_at [OF 2(2)] show ?thesis by simp
    qed
  next
    case 3
    then have "d_wg d = 0" using none_open jobs_okD(1) [OF fair_okD(4) [OF ok(1)]] by simp
    from main_step.joined [OF 3(1) this, of id] 3 show ?thesis by (auto simp: join_helper_def)
  qed
qed

text \<open>Whoever moves, the cost does not rise, and only the breaker and the clock leave it where it is.\<close>

lemma join_moves:
  assumes "joining_ok t d" and "at_loop d" and "demo_step d d'"
  shows "\<not> at_loop d' \<or> join_cost d' < join_cost d \<or> d_main d' = d_main d \<and> d_jobs d' = d_jobs d"
proof -
  have ended: "\<not> at_loop (job_end j res d) \<or> join_cost (job_end j res d) < join_cost d"
    if "j < length (d_jobs d)" "open_job (d_jobs d ! j)" for j res
  proof -
    have "0 < job_cost (d_jobs d ! j)" using that(2) by (cases "d_jobs d ! j") simp_all
    then have "sum_list (map job_cost ((d_jobs d)[j := Ended l])) < jobs_cost d" for l
      using job_cost_update [OF that(1), of "Ended l"] by (simp add: jobs_cost_def)
    with assms(2) show ?thesis
      by (auto simp: job_end_def at_loop_def join_cost_def jobs_cost_def split: do_result.splits option.splits)
  qed
  from assms(3) show ?thesis
  proof cases
    case (spawn i)
    then have "demo_total - i = Suc (demo_total - Suc i)" by simp
    with spawn show ?thesis by (simp add: join_cost_def jobs_cost_def)
  next
    case spawned
    then show ?thesis by (simp add: join_cost_def jobs_cost_def)
  next
    case (call j env c)
    then show ?thesis using assms(2) job_cost_update [OF call(3), of "Calling (length (calls (d_breaker d)))"]
      by (auto simp: at_loop_def join_cost_def jobs_cost_def)
  next
    case (no_call j env res)
    then show ?thesis using ended by simp
  next
    case (returns j n res)
    then show ?thesis using ended by simp
  qed (auto simp: at_loop_def)
qed

lemma job_lowers:
  assumes "joining_ok t d" and "d_main d = Joining" and "job_step j d d'"
  shows "\<not> at_loop d' \<or> join_cost d' < join_cost d"
proof -
  have changed: "d_jobs d' \<noteq> d_jobs d \<or> d_main d' \<noteq> d_main d"
    using assms(3)
  proof cases
    case (call env c)
    then show ?thesis by (auto simp: list_update_same_conv)
  next
    case (inside n s)
    then show ?thesis using assms(1) by (auto simp: joining_ok_def settled_def finished_def do_step_def)
  next
    case (returns n res)
    then show ?thesis
      using assms(2) by (auto simp: job_end_def list_update_same_conv split: do_result.splits option.splits)
  qed
  have "demo_step d d'" using demo_act_step [of "JobMoves j"] assms(3) by simp
  moreover have "at_loop d" using assms(2) by (simp add: at_loop_def)
  ultimately show ?thesis using join_moves [OF assms(1)] changed by blast
qed

lemma main_lowers:
  assumes "joining_ok t d" and "at_loop d" and "main_step d d'"
  shows "\<not> at_loop d' \<or> join_cost d' < join_cost d"
proof -
  have "d_main d' \<noteq> d_main d" using assms(2,3) by (auto simp: at_loop_def elim!: main_step.cases)
  with join_moves [OF assms(1,2)] demo_act_step [of MainMoves] assms(3) show ?thesis by auto
qed

lemma join_same:
  assumes "d_main d' = d_main d" and "d_jobs d' = d_jobs d"
  shows "join_cost d' = join_cost d" and "join_helper d' = join_helper d"
proof -
  have "jobs_cost d' = jobs_cost d" using assms(2) by (simp add: jobs_cost_def)
  with assms show "join_cost d' = join_cost d" "join_helper d' = join_helper d"
    by (simp_all add: join_cost_def join_helper_def first_open_def cong: main_pc.case_cong)
qed

interpretation joins: fair_progress "\<lambda>d d'. demo_step d d' \<and> settled (d_breaker d')" demo_act "joining_ok t"
    "\<lambda>d. \<not> at_loop d" join_helper join_cost for t
proof
  fix d d' assume ok: "joining_ok t d"
  show "joining_ok t d'" if "demo_step d d' \<and> settled (d_breaker d')"
    using that ok by (auto simp: joining_ok_def intro: fair_ok_step)
  assume "\<not> \<not> at_loop d"
  then have at: "at_loop d" by simp
  from join_helps [OF ok at] show "\<exists>d'. demo_act (join_helper d) d d'" .
  show "\<not> at_loop d' \<or> join_cost d' < join_cost d" if "demo_act (join_helper d) d d'"
    using that job_lowers [OF ok, of "first_open d" d'] main_lowers [OF ok at, of d']
    by (auto simp: join_helper_def split: if_splits)
  show "\<not> at_loop d' \<or> join_cost d' < join_cost d \<or> join_cost d' = join_cost d \<and> join_helper d' = join_helper d"
    if "demo_step d d' \<and> settled (d_breaker d')"
    using join_moves [OF ok at, of d'] join_same [of d' d] that by blast
qed

text \<open>Then \<open>main\<close> stops the breaker; it is never held up for good, because \<open>Stop\<close> returns.\<close>

definition exited_ok :: "gotime \<Rightarrow> demo \<Rightarrow> bool" where
  "exited_ok t d \<longleftrightarrow> fair_ok t d \<and> (d_main d = StoppingAll \<or> exited d)"

definition main_free :: "demo \<Rightarrow> bool" where
  "main_free d \<longleftrightarrow> (\<forall>a as. stoppers (d_fleet d) ! 0 = Awaiting a as \<longrightarrow> Stop_returns (brk (d_breaker d)))"

lemma stopping_moves:
  assumes "fair_ok t d" and "d_main d = StoppingAll" and "demo_step d d'"
  shows "exited d' \<or> d_main d' = StoppingAll \<and>
    (work (stoppers (d_fleet d') ! 0) < work (stoppers (d_fleet d) ! 0) \<or> stoppers (d_fleet d') = stoppers (d_fleet d))"
  using assms(3)
proof cases
  case (call j env c)
  then show ?thesis using all_ended [OF fair_okD(4) [OF assms(1)]] fair_okD(5) [OF assms(1)] assms(2) nth_mem [OF call(3)] by fastforce
next
  case (no_call j env res)
  then show ?thesis using request_enters by blast
next
  case (returns j n res)
  then show ?thesis using all_ended [OF fair_okD(4) [OF assms(1)]] fair_okD(5) [OF assms(1)] assms(2) nth_mem [OF returns(3)] by fastforce
next
  case (stop f)
  with stopper_works [OF stop(3)] stopper_at_0(1) [OF assms(1,2)] show ?thesis by simp
next
  case stopped
  then show ?thesis by (simp add: exited_def)
qed (use assms(2) in simp_all)

interpretation halting: fair_progress "\<lambda>d d'. demo_step d d' \<and> main_free d'" demo_act "\<lambda>d. exited_ok t d \<and> main_free d"
    exited "\<lambda>_. MainMoves" "\<lambda>d. work (stoppers (d_fleet d) ! 0)" for t
proof
  fix d d' assume inv: "exited_ok t d \<and> main_free d"
  then have ok: "fair_ok t d" by (simp add: exited_ok_def)
  have dead: "\<not> demo_step d d'" if "exited d"
    using that by (auto simp: exited_def alive_def elim: demo_step.cases)
  show "exited_ok t d' \<and> main_free d'" if "demo_step d d' \<and> main_free d'"
  proof -
    have "d_main d = StoppingAll" using inv dead that by (auto simp: exited_ok_def)
    with stopping_moves [OF ok, of d'] fair_ok_step [OF ok, of d'] that show ?thesis by (auto simp: exited_ok_def)
  qed
  assume "\<not> exited d"
  with inv have main: "d_main d = StoppingAll" by (simp add: exited_ok_def)
  have "\<exists>d'. main_step d d'"
  proof (cases "stoppers (d_fleet d) ! 0")
    case (Stopping as)
    with main_step.stopped [OF main] main_step.stop [OF main] show ?thesis by (cases as) (auto simp: stopper_step_def)
  next
    case (Awaiting a as)
    then have "a = 0" using stopper_at_0(2) [OF ok main] by simp
    then have "members (d_fleet d) ! a = d_breaker d" using fair_okD(3) [OF ok] by (simp add: d_breaker_def)
    with Awaiting inv main_step.stop [OF main] show ?thesis by (auto simp: stopper_step_def main_free_def)
  qed
  then show "\<exists>d'. demo_act MainMoves d d'" by simp
  show "exited d' \<or> work (stoppers (d_fleet d') ! 0) < work (stoppers (d_fleet d) ! 0)" if "demo_act MainMoves d d'"
  proof -
    from that have "main_step d d'" by simp
    then show ?thesis
    proof cases
      case (stop f)
      with stopper_works [OF stop(3)] stopper_at_0(1) [OF ok main] show ?thesis by simp
    qed (use main in \<open>simp_all add: exited_def\<close>)
  qed
  show "exited d' \<or> work (stoppers (d_fleet d') ! 0) < work (stoppers (d_fleet d) ! 0) \<or>
      work (stoppers (d_fleet d') ! 0) = work (stoppers (d_fleet d) ! 0) \<and> MainMoves = MainMoves" if "demo_step d d' \<and> main_free d'"
    using stopping_moves [OF ok main, of d'] that by auto
qed

section \<open>Fair runs end\<close>

lemma not_alive: "\<not> alive d \<longleftrightarrow> exited d \<or> (\<exists>m. d_main d = Crashed m)"
  by (cases "d_main d") (auto simp: alive_def exited_def)

lemma stopping_stays:
  assumes "run_of demo_step r" and "fair_ok t (r 0)" and "\<And>n. alive (r n)" and "d_main (r n) = StoppingAll" and "n \<le> m"
  shows "d_main (r m) = StoppingAll"
  using assms(5)
proof (induction m rule: dec_induct)
  case (step m)
  from run_of_step [OF assms(1), of m] show ?case
  proof
    assume "demo_step (r m) (r (Suc m))"
    from stopping_moves [OF fair_ok_at [OF assms(1,2)] step.IH this] assms(3) [of "Suc m"] not_alive show ?thesis by blast
  qed (use step.IH in simp)
qed (rule assms(4))

lemma main_free_later:
  assumes "run_of demo_step r" and "fair_ok t (r 0)" and "\<And>n. alive (r n)" and "weakly_fair demo_act r" and "strongly_fair demo_leaves r"
    and "d_main (r n) = StoppingAll"
  shows "\<exists>k \<ge> n. \<forall>m \<ge> k. main_free (r m)"
proof (cases "\<exists>k \<ge> n. \<exists>a as. stoppers (d_fleet (r k)) ! 0 = Awaiting a as")
  case True
  then obtain k a as where k: "n \<le> k" "stoppers (d_fleet (r k)) ! 0 = Awaiting a as" by blast
  note ok = fair_ok_at [OF assms(1,2)]
  have main: "d_main (r k) = StoppingAll" by (rule stopping_stays [OF assms(1-3,6) k(1)])
  note st = stopper_at_0 [OF ok main]
  have "a = 0" using st(2) k(2) by simp
  then have "members (d_fleet (r k)) ! a = d_breaker (r k)" using fair_okD(3) [OF ok] by (simp add: d_breaker_def)
  moreover have "awaited (d_fleet (r k))" by (rule demo_reach(2) [OF fair_okD(1) [OF ok]])
  ultimately have called: "stop_called (brk (d_breaker (r k)))" using st(1) k(2) by (auto simp: awaited_def)
  obtain b where b: "sys_run b (d_breaker (r 0))" using fair_ok_run [OF assms(2)] by blast
  have "\<exists>j \<ge> k. \<forall>m \<ge> j. Stop_returns (brk (d_breaker (r m)))"
  proof (cases "tokenStop (brk (d_breaker (r k))) = Some True")
    case True
    with fair_leaves [OF b breaker_run [OF assms(1,2)] weakly_fair_one [OF breaker_fair [OF assms(1-4)]] breaker_strong [OF assms(1-3,5)]]
    show ?thesis unfolding Stop_returns_def by blast
  next
    case False
    then have none: "tokenStop (brk (d_breaker (r k))) = None"
      using called by (cases "tokenStop (brk (d_breaker (r k)))") (auto simp: stop_called_def)
    have "Stop_returns (brk (d_breaker (r m)))" if "k \<le> m" for m
      using no_channel [OF run_of_steps [OF breaker_run [OF assms(1,2)] that]] none by (simp add: Stop_returns_def)
    then show ?thesis by blast
  qed
  then show ?thesis using k(1) by (meson le_trans main_free_def)
next
  case False
  then have "main_free (r m)" if "n \<le> m" for m using that by (auto simp: main_free_def)
  then show ?thesis by blast
qed

lemma fair_run_stops:
  assumes "run_of demo_step r" and "fair_ok t (r 0)" and "weakly_fair demo_act r" and "strongly_fair demo_leaves r"
  shows "\<exists>n. \<not> alive (r n)"
proof (rule ccontr)
  assume "\<not> ?thesis"
  then have al: "alive (r n)" for n by blast
  note ok = fair_ok_at [OF assms(1,2)]
  obtain b where b: "sys_run b (d_breaker (r 0))" using fair_ok_run [OF assms(2)] by blast
  have "\<forall>n. length (calls (d_breaker (r n))) \<le> demo_total" using fair_ok_calls [OF ok] by blast
  from fair_settles [OF b breaker_run [OF assms(1,2)] breaker_fair [OF assms(1,2) al assms(3)] this]
  obtain n where n: "\<And>m. n \<le> m \<Longrightarrow> settled (d_breaker (r m))" by blast
  have run: "run_of (\<lambda>d d'. demo_step d d' \<and> settled (d_breaker d')) (\<lambda>m. r (n + m))"
    using run_of_step [OF assms(1)] n by (simp add: run_of_def)
  have "joining_ok t (r (n + 0))" using ok n by (simp add: joining_ok_def)
  from joins.comes_to [OF run weakly_fair_shift [OF assms(3)] this] obtain m where "\<not> at_loop (r (n + m))" by blast
  then have main: "d_main (r (n + m)) = StoppingAll"
    using al [of "n + m"] by (cases "d_main (r (n + m))") (auto simp: at_loop_def alive_def)
  from main_free_later [OF assms(1,2) al assms(3,4) main] obtain k where k: "n + m \<le> k" "\<And>j. k \<le> j \<Longrightarrow> main_free (r j)" by blast
  have run: "run_of (\<lambda>d d'. demo_step d d' \<and> main_free d') (\<lambda>j. r (k + j))"
    using run_of_step [OF assms(1)] k(2) by (simp add: run_of_def)
  have "exited_ok t (r (k + 0)) \<and> main_free (r (k + 0))"
    using ok k(2) stopping_stays [OF assms(1,2) al main k(1)] by (simp add: exited_ok_def)
  from halting.comes_to [OF run weakly_fair_shift [OF assms(3)] this] al not_alive show False by blast
qed

section \<open>Properties\<close>

lemma demo_fair_ok: "demo_reaches t d \<Longrightarrow> fair_ok t d"
  using demo_reaches_inv demo_one_breaker by (simp add: fair_ok_def)

text \<open>C33: Under a fair scheduler the demonstration ends: each infinite run in which the goroutines, the ticker
  and the clock move on, and the refiller's \<open>select\<close> does not pass over the stop channel for ever, comes to
  the exit of \<open>main\<close>, every one of the 3000 goroutines having printed its line and the refiller having
  ended, or to a crash with the panic of a call; the answers of the transport may be any.\<close>

theorem fair_demo_ends:
  assumes "demo_reaches t (r 0)" and "run_of demo_step r" and "weakly_fair demo_act r" and "strongly_fair demo_leaves r"
  shows "\<exists>n. (\<exists>e. d_main (r n) = Exited e \<and> length (d_jobs (r n)) = 3000 \<and> (\<forall>j \<in> set (d_jobs (r n)). \<exists>l. j = Ended l) \<and>
      halted (d_breaker (r n))) \<or>
    (\<exists>m. d_main (r n) = Crashed m \<and> (\<exists>c \<in> set (calls (d_breaker (r n))). c_pc c = Done (Panicked m)))"
proof -
  obtain n where n: "\<not> alive (r n)" using fair_run_stops [OF assms(2) demo_fair_ok [OF assms(1)] assms(3,4)] by blast
  have "phase_ok (r n) (d_main (r n))" "jobs_ok (r n)"
    using fair_okD(4,5) [OF fair_ok_at [OF assms(2) demo_fair_ok [OF assms(1)]]] by blast+
  with n all_ended [of "r n"] show ?thesis
    by (cases "d_main (r n)") (auto simp: alive_def demo_total_def intro!: exI [of _ n])
qed

lemma dead_still:
  assumes "\<not> alive d"
  shows "\<not> demo_act a d d'" and "\<not> demo_leaves d d'"
  using demo_act_step [of a d d'] assms by (auto simp: demo_leaves_def alive_def elim!: demo_step.cases)

lemma dead_stays: "demo_step\<^sup>*\<^sup>* d d' \<Longrightarrow> \<not> alive d \<Longrightarrow> d' = d"
  by (erule converse_rtranclpE) (auto simp: alive_def elim: demo_step.cases)

theorem fair_demo_ends_witness:
  "\<exists>r e n. demo_reaches 0 (r 0) \<and> d_main (r 0) = Spawning 0 \<and> run_of demo_step r \<and> weakly_fair demo_act r \<and>
     strongly_fair demo_leaves r \<and> d_main (r n) = Exited e \<and> length (d_jobs (r n)) = 3000 \<and> halted (d_breaker (r n))"
proof -
  obtain d where d: "demo_reaches 0 d" "d_main d = Spawning 0" "calls (d_breaker d) = []" using demo_start_healthy by blast
  then have "healthy 0 d" by (intro healthy_reached) simp_all
  from healthy_exits [OF d(1) this] obtain d' e where d': "demo_step\<^sup>*\<^sup>* d d'" "d_main d' = Exited e" by blast
  then have dead: "\<not> alive d'" by (simp add: alive_def)
  have "run_of demo_step (\<lambda>_. d')" by (simp add: run_of_def)
  with run_prefix [of demo_step d "\<lambda>_. d'"] d'(1) obtain r k where r: "r 0 = d" "run_of demo_step r" "\<And>n. r (k + n) = d'" by metis
  have weak: "weakly_fair demo_act r"
    by (rule weakly_fair_suffix [of _ _ k]) (use dead_still [OF dead] in \<open>auto simp: weakly_fair_def r(3)\<close>)
  have strong: "strongly_fair demo_leaves r"
    by (rule strongly_fair_suffix [of _ _ k]) (use dead_still [OF dead] in \<open>auto simp: strongly_fair_def r(3)\<close>)
  have reached: "demo_reaches 0 (r 0)" using d(1) r(1) by simp
  from fair_demo_ends [OF reached r(2) weak strong] obtain n where n: "exited (r n) \<or> (\<exists>m. d_main (r n) = Crashed m)"
    "(\<exists>m. d_main (r n) = Crashed m) \<or> length (d_jobs (r n)) = 3000 \<and> halted (d_breaker (r n))"
    unfolding exited_def by blast
  have "demo_step\<^sup>*\<^sup>* (r n) (r (k + n))" by (rule run_of_steps [OF r(2)]) simp
  with n(1) not_alive have "d' = r n" using dead_stays by (simp add: r(3))
  with n(2) d'(2) reached r(1,2) d(2) weak strong show ?thesis by (intro exI [of _ r] exI [of _ e] exI [of _ n]) auto
qed

end
