(* ===== verification/Fleet_Fair.thy ===== *)
theory Fleet_Fair
  imports Fleet System_Fair
begin

text \<open>
  A manager under a fair scheduler: the goroutines inside \<open>Remove\<close> and \<open>StopAll\<close> come to their end, while
  clients create, remove and call as they like. Only the stopping goroutines and the refillers need to be
  scheduled fairly for it.
\<close>

section \<open>The actions\<close>

datatype fleet_action = StopperMoves nat | Refills addr

fun fleet_act :: "fleet_action \<Rightarrow> fleet \<Rightarrow> fleet \<Rightarrow> bool" where
  "fleet_act (StopperMoves i) f f' = (i < length (stoppers f) \<and> stopper_step i f = Some f')"
| "fleet_act (Refills a) f f' = (a < length (members f) \<and>
     (\<exists>s. sys_act RefillerMoves (members f ! a) s \<and> f' = f\<lparr>members := (members f)[a := s]\<rparr>))"

definition fleet_leaves :: "addr \<Rightarrow> fleet \<Rightarrow> fleet \<Rightarrow> bool" where
  "fleet_leaves a f f' \<longleftrightarrow> a < length (members f) \<and>
     (\<exists>s. sys_leaves (members f ! a) s \<and> f' = f\<lparr>members := (members f)[a := s]\<rparr>)"

section \<open>The runs of the breakers\<close>

lemma fleet_inv_at:
  assumes "run_of fleet_step r" and "fleet_step\<^sup>*\<^sup>* (new_fleet t) (r 0)"
  shows "fleet_inv (r n)" and "awaited (r n)"
proof -
  have "fleet_step\<^sup>*\<^sup>* (new_fleet t) (r n)" using run_of_steps [OF assms(1), of 0 n] assms(2) by (meson le0 rtranclp_trans)
  then show "fleet_inv (r n)" "awaited (r n)" by (rule fleet_reach)+
qed

lemma member_at:
  assumes "run_of fleet_step r" and "fleet_step\<^sup>*\<^sup>* (new_fleet t) (r 0)" and "a < length (members (r k))"
  shows "a < length (members (r (k + n)))"
proof (induction n)
  case (Suc n)
  from run_of_step [OF assms(1), of "k + n"] fleet_step_member(1) [OF _ fleet_inv_at(1) [OF assms(1,2)] Suc]
  show ?case using Suc by (metis add_Suc_right)
qed (use assms(3) in simp)

lemma member_run:
  assumes "run_of fleet_step r" and "fleet_step\<^sup>*\<^sup>* (new_fleet t) (r 0)" and "a < length (members (r k))"
  shows "run_of sys_step (\<lambda>n. members (r (k + n)) ! a)"
  unfolding run_of_def
proof
  fix n
  from run_of_step [OF assms(1), of "k + n"] fleet_step_member(2) [OF _ fleet_inv_at(1) [OF assms(1,2)] member_at [OF assms]]
  show "members (r (k + Suc n)) ! a = members (r (k + n)) ! a \<or> sys_step (members (r (k + n)) ! a) (members (r (k + Suc n)) ! a)"
    by (metis add_Suc_right)
qed

lemma member_fair:
  assumes "run_of fleet_step r" and "fleet_step\<^sup>*\<^sup>* (new_fleet t) (r 0)" and "a < length (members (r k))" and "weakly_fair fleet_act r"
  shows "weakly_fair (\<lambda>_ :: unit. sys_act RefillerMoves) (\<lambda>n. members (r (k + n)) ! a)"
  unfolding weakly_fair_def
proof (intro allI impI)
  fix n assume can: "\<forall>m \<ge> n. \<exists>s. sys_act RefillerMoves (members (r (k + m)) ! a) s"
  have "\<exists>f. fleet_act (Refills a) (r (k + m)) f" if "n \<le> m" for m
    using can that member_at [OF assms(1-3)] by (simp del: sys_act.simps)
  from weakly_fairD [OF weakly_fair_shift [OF assms(4)] this] obtain m where
    "n \<le> m" "fleet_act (Refills a) (r (k + m)) (r (k + Suc m))" by blast
  then show "\<exists>m \<ge> n. sys_act RefillerMoves (members (r (k + m)) ! a) (members (r (k + Suc m)) ! a)"
    by (intro exI [of _ m]) (auto simp del: sys_act.simps)
qed

lemma member_strong:
  assumes "run_of fleet_step r" and "fleet_step\<^sup>*\<^sup>* (new_fleet t) (r 0)" and "a < length (members (r k))" and "strongly_fair (fleet_leaves a) r"
  shows "strongly_fair sys_leaves (\<lambda>n. members (r (k + n)) ! a)"
  unfolding strongly_fair_def
proof (intro allI impI)
  fix n assume "\<forall>j \<ge> n. \<exists>m \<ge> j. \<exists>s. sys_leaves (members (r (k + m)) ! a) s"
  then have "\<forall>j \<ge> n. \<exists>m \<ge> j. \<exists>f. fleet_leaves a (r (k + m)) f"
    using member_at [OF assms(1-3)] unfolding fleet_leaves_def by blast
  then obtain m where "n \<le> m" "fleet_leaves a (r (k + m)) (r (k + Suc m))"
    using strongly_fair_shift [OF assms(4)] unfolding strongly_fair_def by blast
  then show "\<exists>m \<ge> n. sys_leaves (members (r (k + m)) ! a) (members (r (k + Suc m)) ! a)"
    by (intro exI [of _ m]) (auto simp: fleet_leaves_def)
qed

text \<open>The wait of a stopper comes to an end.\<close>

lemma wait_ends:
  assumes "run_of fleet_step r" and "fleet_step\<^sup>*\<^sup>* (new_fleet t) (r 0)" and "weakly_fair fleet_act r" and "strongly_fair (fleet_leaves a) r"
    and "i < length (stoppers (r k))" and "stoppers (r k) ! i = Awaiting a as"
  shows "\<exists>n. \<forall>m \<ge> n. Stop_returns (brk (members (r (k + m)) ! a))"
proof -
  note inv = fleet_inv_at [OF assms(1,2), of k]
  have a: "a < length (members (r k))" using stopper_addr [OF inv(1) assms(5)] assms(6) by simp
  note run = member_run [OF assms(1,2) a]
  have called: "stop_called (brk (members (r k) ! a))" using inv(2) assms(5,6) by (simp add: awaited_def)
  show ?thesis
  proof (cases "tokenStop (brk (members (r k) ! a))")
    case None
    have "Stop_returns (brk (members (r (k + m)) ! a))" for m
      using no_channel [OF run_of_steps [OF run, of 0 m]] None by (simp add: Stop_returns_def)
    then show ?thesis by blast
  next
    case (Some b)
    then have closed: "tokenStop (brk (members (r k) ! a)) = Some True" using called by (cases b) (simp_all add: stop_called_def)
    obtain j where "sys_run j (members (r k) ! a)" using fleet_run_member [OF inv(1) a] by blast
    with fair_leaves [OF _ run member_fair [OF assms(1,2) a assms(3)] member_strong [OF assms(1,2) a assms(4)], of j 0] closed
    show ?thesis by (auto simp: Stop_returns_def)
  qed
qed

section \<open>The stoppers end\<close>

lemma stopper_at:
  assumes "run_of fleet_step r" and "i < length (stoppers (r n))" and "n \<le> m"
  shows "i < length (stoppers (r m)) \<and> (stoppers (r m) ! i = stoppers (r n) ! i \<or> work (stoppers (r m) ! i) < work (stoppers (r n) ! i))"
  using assms(3)
proof (induction m rule: dec_induct)
  case (step m)
  from run_of_step [OF assms(1), of m] show ?case
  proof
    assume f: "fleet_step (r m) (r (Suc m))"
    from step.IH have i: "i < length (stoppers (r m))" by blast
    from fleet_step_stoppers [OF f i] stopper_works [of i "r m" "r (Suc m)"] i step.IH show ?thesis by (auto intro: less_trans)
  qed (use step.IH in simp)
qed (use assms(2) in simp)

lemma stopper_fair:
  assumes "run_of fleet_step r" and "fleet_step\<^sup>*\<^sup>* (new_fleet t) (r 0)" and "weakly_fair fleet_act r" and "\<And>a. strongly_fair (fleet_leaves a) r"
    and "i < length (stoppers (r n))" and "stoppers (r n) ! i \<noteq> Stopping []"
  shows "\<exists>m \<ge> n. work (stoppers (r m) ! i) < work (stoppers (r n) ! i)"
proof (rule ccontr)
  assume "\<not> ?thesis"
  with stopper_at [OF assms(1,5)] have same: "i < length (stoppers (r m))" "stoppers (r m) ! i = stoppers (r n) ! i" if "n \<le> m" for m
    using that by blast+
  have "\<exists>k \<ge> n. \<forall>m \<ge> k. \<exists>f. stopper_step i (r m) = Some f"
  proof (cases "stoppers (r n) ! i")
    case (Stopping as)
    then obtain a bs where "stoppers (r n) ! i = Stopping (a # bs)" using assms(6) by (cases as) auto
    with same show ?thesis by (intro exI [of _ n]) (simp add: stopper_step_def)
  next
    case (Awaiting a as)
    from wait_ends [OF assms(1-4,5) this] obtain k where k: "\<And>m. k \<le> m \<Longrightarrow> Stop_returns (brk (members (r (n + m)) ! a))" by blast
    have "\<exists>f. stopper_step i (r m) = Some f" if "n + k \<le> m" for m
    proof -
      have "k \<le> m - n" "n + (m - n) = m" "n \<le> m" using that by simp_all
      with k [of "m - n"] same(2) [of m] Awaiting show ?thesis by (simp add: stopper_step_def)
    qed
    then show ?thesis by (intro exI [of _ "n + k"]) simp
  qed
  then obtain k where k: "n \<le> k" "\<And>m. k \<le> m \<Longrightarrow> \<exists>f. stopper_step i (r m) = Some f" by blast
  have "\<exists>f. fleet_act (StopperMoves i) (r m) f" if "k \<le> m" for m using k(2) [OF that] same(1) [of m] k(1) that by simp
  from weakly_fairD [OF assms(3) this] obtain m where m: "k \<le> m" "stopper_step i (r m) = Some (r (Suc m))" by auto
  have "work (stoppers (r (Suc m)) ! i) < work (stoppers (r m) ! i)" using stopper_works [OF m(2)] same(1) [of m] k(1) m(1) by simp
  with same(2) [of m] same(2) [of "Suc m"] k(1) m(1) show False by simp
qed

lemma stopper_comes_to_end:
  assumes "run_of fleet_step r" and "fleet_step\<^sup>*\<^sup>* (new_fleet t) (r 0)" and "weakly_fair fleet_act r" and "\<And>a. strongly_fair (fleet_leaves a) r"
    and "i < length (stoppers (r n))"
  shows "\<exists>m \<ge> n. stoppers (r m) ! i = Stopping []"
  using assms(5)
proof (induction "work (stoppers (r n) ! i)" arbitrary: n rule: less_induct)
  case less
  show ?case
  proof (cases "stoppers (r n) ! i = Stopping []")
    case False
    with stopper_fair [OF assms(1-4) less.prems] obtain m where m: "n \<le> m" "work (stoppers (r m) ! i) < work (stoppers (r n) ! i)" by blast
    with less.hyps [OF m(2)] stopper_at [OF assms(1) less.prems m(1)] show ?thesis by (meson le_trans)
  qed blast
qed

section \<open>Properties\<close>

text \<open>C19: Under a fair scheduler \<open>Remove\<close> and \<open>StopAll\<close> return, whatever clients create, remove and call in
  the meantime: in each infinite run of a manager in which the stopping goroutines and the refillers that
  can go on do so, and no refiller's \<open>select\<close> passes over its stop channel for ever, each goroutine inside
  one of them comes to its end, and every breaker it had to stop is halted then and stays so.\<close>

theorem fair_stops_end:
  assumes "fleet_step\<^sup>*\<^sup>* (new_fleet t) (r 0)" and "run_of fleet_step r" and "weakly_fair fleet_act r"
    and "\<And>a. strongly_fair (fleet_leaves a) r" and "i < length (stoppers (r n))"
  shows "\<exists>m \<ge> n. \<forall>j \<ge> m. stoppers (r j) ! i = Stopping [] \<and>
    (\<forall>a \<in> set (stopper_addrs (stoppers (r n) ! i)). halted (members (r j) ! a))"
proof -
  obtain m where m: "n \<le> m" "stoppers (r m) ! i = Stopping []" using stopper_comes_to_end [OF assms(2,1,3-5)] by blast
  have i: "i < length (stoppers (r m))" using stopper_at [OF assms(2,5) m(1)] by blast
  note inv = fleet_inv_at [OF assms(2,1), of n]
  have ended: "stoppers (r j) ! i = Stopping []" if "m \<le> j" for j using stopper_at [OF assms(2) i that] m(2) by auto
  have "halted (members (r j) ! a)" if "m \<le> j" "a \<in> set (stopper_addrs (stoppers (r n) ! i))" for j a
  proof -
    have "a < length (members (r n))" by (rule stopper_addr [OF inv(1) assms(5) that(2)])
    with that(2) assms(5) have "to_halt i a (r n)" by (simp add: to_halt_def)
    moreover have "n \<le> j" using m(1) that(1) by simp
    ultimately have "to_halt i a (r j)" using to_halt_steps [OF run_of_steps [OF assms(2)] inv] by blast
    with ended [OF that(1)] show ?thesis by (simp add: to_halt_def)
  qed
  with ended m(1) show ?thesis by blast
qed

text \<open>The shop of Fleet is stopped: the signal, the exit of the refiller, the end of the wait.\<close>

lemma shop_members: "members shop = [new_system (NewCircuitBreaker ''google'' 50 200 30 5) 0]"
  "map snd (m_cb (registry shop)) = [0]" "stoppers shop = []" "fleet_now shop = 0"
  by (simp_all add: shop_def adopt_def world_of_def new_fleet_def NewManager_def manager_NewCircuitBreaker_def register_def Let_def)

lemma shop_stops:
  "\<exists>f. fleet_step\<^sup>*\<^sup>* (stopAll_begin id shop) f \<and> stoppers f = [Stopping []] \<and> length (members f) = 1 \<and>
     refiller_gone (members f ! 0)"
proof -
  let ?s = "new_system (NewCircuitBreaker ''google'' 50 200 30 5) 0"
  let ?s1 = "?s\<lparr>brk := Stop (brk ?s)\<rparr>"
  let ?s2 = "?s1\<lparr>brk := refiller_exit (brk ?s1)\<rparr>"
  let ?f0 = "stopAll_begin id shop"
  let ?f1 = "(stop_member 0 ?f0)\<lparr>stoppers := [Awaiting 0 []]\<rparr>"
  let ?f2 = "?f1\<lparr>members := (members ?f1)[0 := ?s2]\<rparr>"
  let ?f3 = "?f2\<lparr>stoppers := [Stopping []]\<rparr>"
  have f0: "members ?f0 = [?s]" "stoppers ?f0 = [Stopping [0]]" "fleet_now ?f0 = 0"
    using shop_members by (simp_all add: stopAll_begin_def del: map_map)
  have f1: "members ?f1 = [?s1]" "stoppers ?f1 = [Awaiting 0 []]" "fleet_now ?f1 = 0"
    using f0 by (simp_all add: stop_member_def)
  have stop: "tokenStop (brk ?s) = Some False" "\<not> stopOnce (brk ?s)"
    using initTokenBucket_on(5) [of "newCircuitBreaker ''google'' 50 200 30 5"]
    by (simp_all add: NewCircuitBreaker_def frame_simps) (simp_all add: newCircuitBreaker_def)
  then have gone: "refiller_gone ?s2" by (simp add: refiller_gone_def refiller_exit_def Stop_def)
  have "fleet_step ?f0 ?f1" using f0 by (intro fleet_step.stopper [of 0]) (simp_all add: stopper_step_def)
  moreover have "fleet_step ?f1 ?f2"
    using f1 sys_step.exited [of ?s1] by (intro fleet_step.member) simp_all
  moreover have "fleet_step ?f2 ?f3"
    using f1 gone by (intro fleet_step.stopper [of 0]) (simp_all add: stopper_step_def Stop_returns_def refiller_gone_def)
  ultimately have "fleet_step\<^sup>*\<^sup>* ?f0 ?f3" by (meson r_into_rtranclp rtranclp_trans)
  moreover have "length (members ?f3) = 1" "members ?f3 ! 0 = ?s2" using f1(1) by simp_all
  ultimately show ?thesis using gone by (intro exI [of _ ?f3]) simp
qed

theorem fair_stops_end_witness:
  "\<exists>r m. r 0 = stopAll_begin id shop \<and> run_of fleet_step r \<and> weakly_fair fleet_act r \<and>
     stoppers (r 0) ! 0 = Stopping [0] \<and> stoppers (r m) ! 0 = Stopping [] \<and> halted (members (r m) ! 0)"
proof -
  obtain f where f: "fleet_step\<^sup>*\<^sup>* (stopAll_begin id shop) f" "stoppers f = [Stopping []]" "length (members f) = 1"
    "refiller_gone (members f ! 0)" using shop_stops by blast
  have "run_of fleet_step (\<lambda>_. f)" by (simp add: run_of_def)
  with run_prefix [of fleet_step "stopAll_begin id shop" "\<lambda>_. f"] f(1) obtain r k where
    r: "r 0 = stopAll_begin id shop" "run_of fleet_step r" "\<And>n. r (k + n) = f" by metis
  have "\<not> fleet_act b f g" for b g
    using f(2-4) by (cases b) (auto simp: stopper_step_def refiller_gone_def)
  then have "weakly_fair fleet_act (\<lambda>n. r (k + n))" by (auto simp: weakly_fair_def r(3))
  then have weak: "weakly_fair fleet_act r" by (rule weakly_fair_suffix)
  have "\<not> fleet_leaves a f g" for a g using f(3,4) by (auto simp: fleet_leaves_def sys_leaves_def refiller_gone_def)
  then have "strongly_fair (fleet_leaves a) (\<lambda>n. r (k + n))" for a by (auto simp: strongly_fair_def r(3))
  then have strong: "strongly_fair (fleet_leaves a) r" for a by (rule strongly_fair_suffix)
  have reached: "fleet_step\<^sup>*\<^sup>* (new_fleet 0) (r 0)"
    using shop_reached fleet_step.stopping_all [of id shop] r(1) by (simp add: rtranclp.rtrancl_into_rtrancl)
  have start: "stoppers (r 0) = [Stopping [0]]" using shop_members r(1) by (simp add: stopAll_begin_def)
  from fair_stops_end [OF reached r(2) weak strong, of 0 0] start obtain m where
    "stoppers (r m) ! 0 = Stopping []" "halted (members (r m) ! 0)" by auto
  with r(1,2) weak start show ?thesis by (intro exI [of _ r] exI [of _ m]) simp
qed

end
