(* ===== verification/Root_Package.thy ===== *)
theory Root_Package
  imports Fleet
begin

text \<open>
  The root package, circuitbreaker.go: every exported name forwards to the package in pkg. What the
  forwarding gives: without options the two constructors make the same breaker, a map of specs without
  options registers what repeated creation registers, and a breaker made through this package runs as
  the ones of System do.
\<close>

section \<open>Types and values\<close>

text \<open>
  The aliases of the interfaces: a breaker is its value before the manager gives it an address, and a
  manager is the one of pkg or another implementation. \<open>BreakerState\<close>, \<open>BreakerSpec\<close> and
  \<open>EndpointMetrics\<close> are the same names.
\<close>

type_synonym ICircuitBreaker = circuitBreaker

type_synonym IManager = i_manager

type_synonym Option = go_option

definition root_StateDisabled :: BreakerState where "root_StateDisabled = StateDisabled"

definition root_StateClosed :: BreakerState where "root_StateClosed = StateClosed"

definition root_StateOpen :: BreakerState where "root_StateOpen = StateOpen"

definition root_StateHalfOpen :: BreakerState where "root_StateHalfOpen = StateHalfOpen"

definition root_ErrStopped :: go_error where "root_ErrStopped = ErrStopped"

definition root_ErrRetriesExhausted :: go_error where "root_ErrRetriesExhausted = ErrRetriesExhausted"

definition root_ErrCircuitOpen :: go_error where "root_ErrCircuitOpen = ErrCircuitOpen"

section \<open>Constructors\<close>

definition root_NewCircuitBreaker :: "string \<Rightarrow> int \<Rightarrow> int \<Rightarrow> int \<Rightarrow> int \<Rightarrow> ICircuitBreaker" where
  "root_NewCircuitBreaker name max_concurrent max_requests window_seconds max_retries =
     NewCircuitBreaker name max_concurrent max_requests window_seconds max_retries"

definition root_NewCircuitBreakerWithOptions ::
    "string \<Rightarrow> int \<Rightarrow> int \<Rightarrow> int \<Rightarrow> int \<Rightarrow> Option list \<Rightarrow> ICircuitBreaker" where
  "root_NewCircuitBreakerWithOptions name max_concurrent max_requests window_seconds max_retries opts =
     NewCircuitBreakerWithOptions name max_concurrent max_requests window_seconds max_retries opts"

definition root_NewManager :: "IManager \<times> manager" where
  "root_NewManager = (PackageManager, NewManager)"

section \<open>Options\<close>

definition root_WithBreaker :: "int \<Rightarrow> duration \<Rightarrow> int \<Rightarrow> Option" where
  "root_WithBreaker fails open_for half_open_probes = Some (WithBreaker fails open_for half_open_probes)"

definition root_WithStatusCodeFailure :: "int \<Rightarrow> Option" where
  "root_WithStatusCodeFailure min_code = Some (WithStatusCodeFailure min_code)"

definition root_WithRetryPolicy :: "(go_error \<Rightarrow> policy_verdict) option \<Rightarrow> Option" where
  "root_WithRetryPolicy policy = Some (WithRetryPolicy policy)"

definition root_WithExponentialBackoff :: "duration \<Rightarrow> duration \<Rightarrow> bool \<Rightarrow> Option" where
  "root_WithExponentialBackoff base max_wait jitter = Some (WithExponentialBackoff base max_wait jitter)"

definition root_WithDefaultTimeout :: "duration \<Rightarrow> Option" where
  "root_WithDefaultTimeout d = Some (WithDefaultTimeout d)"

definition root_WithBurst :: "int \<Rightarrow> Option" where
  "root_WithBurst n = Some (WithBurst n)"

definition root_WithRetryAfter :: "duration \<Rightarrow> Option" where
  "root_WithRetryAfter max_wait = Some (WithRetryAfter max_wait)"

definition root_ConfigureManager ::
    "(string list \<Rightarrow> string list) \<Rightarrow> IManager \<Rightarrow> (string \<times> BreakerSpec) list \<Rightarrow> world \<Rightarrow>
     (manager_error + (string \<times> addr) list) \<times> world" where
  "root_ConfigureManager shuffle m specs w = ConfigureManager shuffle m specs w"

lemmas root_defs = root_NewCircuitBreaker_def root_NewCircuitBreakerWithOptions_def root_NewManager_def
  root_WithBreaker_def root_WithStatusCodeFailure_def root_WithRetryPolicy_def root_WithExponentialBackoff_def
  root_WithDefaultTimeout_def root_WithBurst_def root_WithRetryAfter_def root_ConfigureManager_def

section \<open>The order of the options\<close>

text \<open>A call of one of the seven option functions, as a client writes it.\<close>

datatype option_call =
    Breaker int duration int
  | StatusCodeFailure int
  | RetryPolicy "(go_error \<Rightarrow> policy_verdict) option"
  | ExponentialBackoff duration duration bool
  | DefaultTimeout duration
  | Burst int
  | RetryAfter duration

fun option_of :: "option_call \<Rightarrow> Option" where
  "option_of (Breaker fails open_for half_open_probes) = root_WithBreaker fails open_for half_open_probes"
| "option_of (StatusCodeFailure min_code) = root_WithStatusCodeFailure min_code"
| "option_of (RetryPolicy policy) = root_WithRetryPolicy policy"
| "option_of (ExponentialBackoff base max_wait jitter) = root_WithExponentialBackoff base max_wait jitter"
| "option_of (DefaultTimeout d) = root_WithDefaultTimeout d"
| "option_of (Burst n) = root_WithBurst n"
| "option_of (RetryAfter max_wait) = root_WithRetryAfter max_wait"

text \<open>Which function it is.\<close>

fun option_kind :: "option_call \<Rightarrow> nat" where
  "option_kind (Breaker _ _ _) = 0"
| "option_kind (StatusCodeFailure _) = 1"
| "option_kind (RetryPolicy _) = 2"
| "option_kind (ExponentialBackoff _ _ _) = 3"
| "option_kind (DefaultTimeout _) = 4"
| "option_kind (Burst _) = 5"
| "option_kind (RetryAfter _) = 6"

definition apply_option :: "Option \<Rightarrow> circuitBreaker \<Rightarrow> circuitBreaker" where
  "apply_option opt cb = (case opt of None \<Rightarrow> cb | Some f \<Rightarrow> f cb)"

lemma apply_options_fold: "apply_options opts cb = fold apply_option opts cb"
  by (induction opts cb rule: apply_options.induct) (simp_all add: apply_option_def)

lemmas with_option_defs = WithBreaker_def WithStatusCodeFailure_def WithRetryPolicy_def WithExponentialBackoff_def
  WithDefaultTimeout_def WithBurst_def WithRetryAfter_def

lemma kinds_commute:
  assumes "option_kind p \<noteq> option_kind q"
  shows "apply_option (option_of p) (apply_option (option_of q) cb) = apply_option (option_of q) (apply_option (option_of p) cb)"
  using assms by (cases p; cases q) (simp_all add: apply_option_def root_defs with_option_defs Let_def)

lemma distinct_kinds: "distinct (map option_kind ps) \<Longrightarrow> p \<in> set ps \<Longrightarrow> q \<in> set ps \<Longrightarrow> p \<noteq> q \<Longrightarrow> option_kind p \<noteq> option_kind q"
  by (auto simp: distinct_map inj_on_def)

text \<open>The order of the options does not matter: a breaker made with calls of different option
  functions is the same in whatever order they are given, whatever their arguments.\<close>

theorem options_order_irrelevant:
  assumes "distinct (map option_kind ps)" and "mset qs = mset ps"
  shows "root_NewCircuitBreakerWithOptions name mc mr ws n (map option_of qs) =
    root_NewCircuitBreakerWithOptions name mc mr ws n (map option_of ps)"
proof -
  let ?act = "\<lambda>p. apply_option (option_of p)"
  have "?act p \<circ> ?act q = ?act q \<circ> ?act p" if "p \<in> set ps" "q \<in> set ps" for p q
  proof (cases "p = q")
    case False
    from kinds_commute [OF distinct_kinds [OF assms(1) that False]] show ?thesis by (simp add: fun_eq_iff)
  qed simp
  with assms(2) have "fold ?act ps = fold ?act qs" by (intro fold_multiset_equiv) simp_all
  then show ?thesis
    by (simp add: root_defs NewCircuitBreakerWithOptions_def apply_options_fold fold_map comp_def)
qed

theorem options_order_irrelevant_witness:
  "root_NewCircuitBreakerWithOptions ''omie'' 4 199 60 3 [root_WithBurst 1, root_WithRetryAfter 0, root_WithBreaker 5 (10 * second) 1] =
   root_NewCircuitBreakerWithOptions ''omie'' 4 199 60 3 [root_WithBreaker 5 (10 * second) 1, root_WithBurst 1, root_WithRetryAfter 0]"
  using options_order_irrelevant [of "[Breaker 5 (10 * second) 1, Burst 1, RetryAfter 0]" "[Burst 1, RetryAfter 0, Breaker 5 (10 * second) 1]"
      "''omie''" 4 199 60 3]
  by simp

section \<open>No options\<close>

lemma nil_options_ignored: "set opts \<subseteq> {None} \<Longrightarrow> apply_options opts cb = cb"
  by (induction opts cb rule: apply_options.induct) auto

lemma root_without_options:
  "set opts \<subseteq> {None} \<Longrightarrow> root_NewCircuitBreakerWithOptions name mc mr ws n opts = root_NewCircuitBreaker name mc mr ws n"
  by (simp add: root_defs NewCircuitBreakerWithOptions_def NewCircuitBreaker_def nil_options_ignored)

definition create_plainly :: "(string \<times> BreakerSpec) list \<Rightarrow> string \<Rightarrow> world \<Rightarrow> world" where
  "create_plainly specs name w =
     (let spec = map_get zero_spec specs name
      in snd (manager_NewCircuitBreaker (spec_MaxConcurrent spec) (spec_MaxRequests spec) (spec_WindowSeconds spec)
           (spec_MaxRetries spec) name w))"

lemma ensure_plainly:
  assumes "set (spec_Options (map_get zero_spec specs name)) \<subseteq> {None}"
  shows "snd (ensure (map_get zero_spec specs name) name w) = create_plainly specs name w"
  using root_without_options [OF assms]
  by (simp add: ensure_def create_plainly_def manager_NewCircuitBreaker_def spec_config_def root_defs Let_def split: option.splits)

lemma create_all_plainly:
  assumes "\<forall>name \<in> set names. set (spec_Options (map_get zero_spec specs name)) \<subseteq> {None}"
  shows "snd (create_all specs names out w) = fold (create_plainly specs) names w"
  using assms
proof (induction names arbitrary: out w)
  case (Cons name names)
  obtain a w1 where e: "ensure (map_get zero_spec specs name) name w = (a, w1)" by fastforce
  with ensure_plainly [of specs name w] Cons.prems have "create_plainly specs name w = w1" by simp
  with e Cons show ?case by simp
qed simp

lemma map_get_options:
  assumes "\<forall>(k, spec) \<in> set specs. set (spec_Options spec) \<subseteq> {None}"
  shows "set (spec_Options (map_get zero_spec specs name)) \<subseteq> {None}"
  using assms by (auto simp: map_get_def zero_spec_def split: option.splits dest!: map_of_SomeD)

text \<open>C24: \<open>ConfigureManager\<close> with specs that have no options, or only nil ones, does what a loop of
  \<open>NewCircuitBreaker\<close> over the names in increasing order does: the registry and the breakers come out
  the same, and the map it returns holds, for each name, the breaker \<open>GetCircuitBreaker\<close> gives.\<close>

theorem configure_creates_plainly:
  assumes "mgr_ok w" and "\<forall>xs. mset (shuffle xs) = mset xs" and "\<forall>(k, spec) \<in> set specs. set (spec_Options spec) \<subseteq> {None}"
    and "root_ConfigureManager shuffle PackageManager specs w = (Inr out, w')"
  shows "w' = fold (create_plainly specs) (sort (map fst specs)) w \<and>
    (\<forall>k. map_of out k = (if k \<in> fst ` set specs then GetCircuitBreaker k w' else None))"
proof
  let ?names = "sort (shuffle (map fst specs))"
  have names: "?names = sort (map fst specs)" by (rule sort_shuffle) (simp add: assms(2))
  have created: "create_all specs ?names [] w = (out, w')"
    using assms(4) by (auto simp: root_defs ConfigureManager_def Let_def split: option.splits prod.splits)
  show "w' = fold (create_plainly specs) (sort (map fst specs)) w"
    using create_all_plainly [of ?names specs "[]" w] map_get_options [OF assms(3)] created names by simp
  show "\<forall>k. map_of out k = (if k \<in> fst ` set specs then GetCircuitBreaker k w' else None)"
    using create_all_effect [OF assms(1) created] names by (simp add: configured_def)
qed

theorem configure_creates_plainly_witness:
  "\<exists>out w'. root_ConfigureManager rev PackageManager sample_specs empty_world = (Inr out, w') \<and>
     w' = snd (manager_NewCircuitBreaker 1 0 0 2 ''omie'' (snd (manager_NewCircuitBreaker 0 0 0 2 ''ccee'' empty_world)))"
proof -
  have names: "sort (map fst sample_specs) = [''ccee'', ''omie'']"
    by (simp add: sample_specs_def list_less_def lexord_def less_char_def)
  obtain out w' where c: "root_ConfigureManager rev PackageManager sample_specs empty_world = (Inr out, w')"
    using sample_valid by (cases "create_all sample_specs (sort (rev (map fst sample_specs))) [] empty_world")
      (simp add: root_defs ConfigureManager_def Let_def)
  from configure_creates_plainly [OF empty_world_ok _ _ c] names c show ?thesis
    by (auto simp: sample_specs_def create_plainly_def map_get_def zero_spec_def)
qed

end
