(* ===== verification/Directory.thy ===== *)
theory Directory
  imports Fleet
begin

text \<open>
  What a manager promises, as an abstract machine: a directory of names, each with the address of its
  breaker and its configuration, and the set of the breakers whose refillers are meant to run. A
  history of client operations on a new manager returns exactly what the directory returns.
\<close>

section \<open>The directory\<close>

record directory =
  entries :: "string \<Rightarrow> (addr \<times> breakerConfig) option"
  active :: "addr set"
  fresh_addr :: addr

definition limited :: "breakerConfig \<Rightarrow> bool" where
  "limited cfg \<longleftrightarrow> 0 < bc_maxRequests cfg \<and> 0 < bc_windowSeconds cfg"

definition dir_add :: "breakerConfig \<Rightarrow> string \<Rightarrow> directory \<Rightarrow> directory" where
  "dir_add cfg name d =
     d\<lparr>entries := (entries d)(name \<mapsto> (fresh_addr d, cfg)),
       active := (if limited cfg then insert (fresh_addr d) (active d) else active d),
       fresh_addr := Suc (fresh_addr d)\<rparr>"

definition dir_new :: "breakerConfig \<Rightarrow> string \<Rightarrow> directory \<Rightarrow> addr \<times> directory" where
  "dir_new cfg name d =
     (case entries d name of Some (a, _) \<Rightarrow> (a, d) | None \<Rightarrow> (fresh_addr d, dir_add cfg name d))"

definition dir_strict :: "breakerConfig \<Rightarrow> string \<Rightarrow> directory \<Rightarrow> (manager_error + addr) \<times> directory" where
  "dir_strict cfg name d =
     (case entries d name of
        Some (a, got) \<Rightarrow> (if got = cfg then Inr a else Inl (DivergentConfig name got cfg), d)
      | None \<Rightarrow> (Inr (fresh_addr d), dir_add cfg name d))"

definition dir_remove :: "string \<Rightarrow> directory \<Rightarrow> directory" where
  "dir_remove name d =
     (case entries d name of
        None \<Rightarrow> d
      | Some (a, _) \<Rightarrow> d\<lparr>entries := (entries d)(name := None), active := active d - {a}\<rparr>)"

definition dir_stop_all :: "directory \<Rightarrow> directory" where
  "dir_stop_all d = d\<lparr>active := active d - fst ` ran (entries d)\<rparr>"

text \<open>The first spec, in the order of the names, that is inconsistent or diverges.\<close>

definition dir_check :: "directory \<Rightarrow> string \<Rightarrow> BreakerSpec \<Rightarrow> manager_error option" where
  "dir_check d name spec =
     (if (0 < spec_MaxRequests spec) \<noteq> (0 < spec_WindowSeconds spec) then
        Some (InconsistentSpec name (spec_MaxRequests spec) (spec_WindowSeconds spec))
      else case entries d name of
             Some (_, got) \<Rightarrow> if got = spec_config spec then None else Some (DivergentConfig name got (spec_config spec))
           | None \<Rightarrow> None)"

fun dir_error :: "(string \<times> BreakerSpec) list \<Rightarrow> string list \<Rightarrow> directory \<Rightarrow> manager_error option" where
  "dir_error specs [] d = None"
| "dir_error specs (name # names) d =
     (case dir_check d name (map_get zero_spec specs name) of Some e \<Rightarrow> Some e | None \<Rightarrow> dir_error specs names d)"

definition dir_ensure :: "(string \<times> BreakerSpec) list \<Rightarrow> string \<Rightarrow> directory \<Rightarrow> directory" where
  "dir_ensure specs name d = snd (dir_new (spec_config (map_get zero_spec specs name)) name d)"

section \<open>Client operations\<close>

text \<open>The calls a client can make; the order in which Go ranges over a map differs from call to call.\<close>

datatype client_op =
    Create breakerConfig string
  | CreateStrict breakerConfig string
  | Lookup string
  | ListNames "string list \<Rightarrow> string list"
  | RemoveName string
  | StopEach "addr list \<Rightarrow> addr list"
  | Configure "string list \<Rightarrow> string list" i_manager "(string \<times> BreakerSpec) list"

datatype answer =
    Found "addr option"
  | Created "manager_error + addr"
  | Names "string set"
  | Configured "manager_error + (string \<Rightarrow> addr option)"
  | Nothing

fun proper :: "client_op \<Rightarrow> bool" where
  "proper (ListNames shuffle) = (\<forall>xs. mset (shuffle xs) = mset xs)"
| "proper (StopEach shuffle) = (\<forall>xs. mset (shuffle xs) = mset xs)"
| "proper (Configure shuffle _ specs) =
     ((\<forall>xs. mset (shuffle xs) = mset xs) \<and> (\<forall>(k, spec) \<in> set specs. package_options (spec_Options spec)))"
| "proper _ = True"

fun manager_op :: "client_op \<Rightarrow> world \<Rightarrow> answer \<times> world" where
  "manager_op (Create cfg name) w =
     (case manager_NewCircuitBreaker (bc_maxConcurrent cfg) (bc_maxRequests cfg) (bc_windowSeconds cfg) (bc_maxRetries cfg) name w of
        (a, w') \<Rightarrow> (Found (Some a), w'))"
| "manager_op (CreateStrict cfg name) w =
     (case NewCircuitBreakerStrict (bc_maxConcurrent cfg) (bc_maxRequests cfg) (bc_windowSeconds cfg) (bc_maxRetries cfg) name w of
        (r, w') \<Rightarrow> (Created r, w'))"
| "manager_op (Lookup name) w = (Found (GetCircuitBreaker name w), w)"
| "manager_op (ListNames shuffle) w = (Names (set (List shuffle w)), w)"
| "manager_op (RemoveName name) w = (Nothing, Remove name w)"
| "manager_op (StopEach shuffle) w = (Nothing, StopAll shuffle w)"
| "manager_op (Configure shuffle m specs) w =
     (case ConfigureManager shuffle m specs w of
        (Inl e, w') \<Rightarrow> (Configured (Inl e), w')
      | (Inr out, w') \<Rightarrow> (Configured (Inr (map_of out)), w'))"

fun dir_op :: "client_op \<Rightarrow> directory \<Rightarrow> answer \<times> directory" where
  "dir_op (Create cfg name) d = (case dir_new cfg name d of (a, d') \<Rightarrow> (Found (Some a), d'))"
| "dir_op (CreateStrict cfg name) d = (case dir_strict cfg name d of (r, d') \<Rightarrow> (Created r, d'))"
| "dir_op (Lookup name) d = (Found (map_option fst (entries d name)), d)"
| "dir_op (ListNames _) d = (Names (dom (entries d)), d)"
| "dir_op (RemoveName name) d = (Nothing, dir_remove name d)"
| "dir_op (StopEach _) d = (Nothing, dir_stop_all d)"
| "dir_op (Configure _ OtherManager specs) d = (Configured (Inl ForeignManager), d)"
| "dir_op (Configure _ PackageManager specs) d =
     (let names = sort (map fst specs)
      in case dir_error specs names d of
           Some e \<Rightarrow> (Configured (Inl e), d)
         | None \<Rightarrow>
             let d' = fold (dir_ensure specs) names d
             in (Configured (Inr (\<lambda>k. if k \<in> set names then map_option fst (entries d' k) else None)), d'))"

text \<open>A history of operations: the answers and the state at the end.\<close>

fun run_ops :: "('o \<Rightarrow> 's \<Rightarrow> 'r \<times> 's) \<Rightarrow> 'o list \<Rightarrow> 's \<Rightarrow> 'r list \<times> 's" where
  "run_ops step [] s = ([], s)"
| "run_ops step (p # ps) s =
     (case step p s of (r, s') \<Rightarrow> case run_ops step ps s' of (rs, s'') \<Rightarrow> (r # rs, s''))"

section \<open>Simulation\<close>

text \<open>Operations on a concrete state that return what the operations on its abstraction return.\<close>

locale simulation =
  fixes step :: "'o \<Rightarrow> 's \<Rightarrow> 'r \<times> 's"
    and spec :: "'o \<Rightarrow> 'a \<Rightarrow> 'r \<times> 'a"
    and abs :: "'s \<Rightarrow> 'a"
    and ok :: "'s \<Rightarrow> bool"
    and allowed :: "'o \<Rightarrow> bool"
  assumes simulates: "ok s \<Longrightarrow> allowed p \<Longrightarrow> step p s = (r, s') \<Longrightarrow> spec p (abs s) = (r, abs s') \<and> ok s'"
begin

lemma history_simulates:
  "ok s \<Longrightarrow> \<forall>p \<in> set ps. allowed p \<Longrightarrow> run_ops step ps s = (rs, s') \<Longrightarrow>
     run_ops spec ps (abs s) = (rs, abs s') \<and> ok s'"
proof (induction ps arbitrary: s rs)
  case (Cons p ps)
  obtain r s1 where p: "step p s = (r, s1)" by fastforce
  obtain rs1 where ps: "run_ops step ps s1 = (rs1, s')" "rs = r # rs1"
    using Cons.prems(3) p by (auto split: prod.splits)
  have "spec p (abs s) = (r, abs s1) \<and> ok s1" using simulates [OF Cons.prems(1) _ p] Cons.prems(2) by simp
  with Cons.IH [of s1 rs1] Cons.prems(2) ps show ?case by simp
qed simp

end

section \<open>The manager simulates the directory\<close>

definition directory_of :: "world \<Rightarrow> directory" where
  "directory_of w =
     \<lparr>entries = (\<lambda>k. map_option (\<lambda>a. (a, map_get zero_config (m_cfg (mgr w)) k)) (GetCircuitBreaker k w)),
      active = {a. a < length (heap w) \<and> tokenStop (heap w ! a) = Some False},
      fresh_addr = length (heap w)\<rparr>"

definition world_ok :: "world \<Rightarrow> bool" where
  "world_ok w \<longleftrightarrow> mgr_ok w \<and> (\<forall>cb \<in> set (heap w). stopOnce cb \<longrightarrow> tokenStop cb \<noteq> Some False)"

lemma new_breaker_stop:
  assumes "package_options opts"
  shows "\<not> stopOnce (NewCircuitBreakerWithOptions name mc mr ws n opts)"
    and "tokenStop (NewCircuitBreakerWithOptions name mc mr ws n opts) = Some False \<longleftrightarrow> 0 < mr \<and> 0 < ws"
proof -
  define cb where "cb = apply_options opts (newCircuitBreaker name mc mr ws n)"
  have u: "unstarted cb"
    unfolding cb_def by (rule unstarted_options [OF _ unstarted_new]) (use assms in \<open>simp add: package_options_def\<close>)
  have cfg: "maxRequests cb = mr" "windowSeconds cb = ws"
    using config_options [OF assms, of "newCircuitBreaker name mc mr ws n"]
    by (simp_all add: cb_def config_of_def newCircuitBreaker_def)
  have new: "NewCircuitBreakerWithOptions name mc mr ws n opts = initTokenBucket cb"
    by (simp add: NewCircuitBreakerWithOptions_def cb_def)
  have "stopOnce (initTokenBucket cb) = stopOnce cb" by (simp add: initTokenBucket_def startTokenBucket_def Let_def)
  with u new show "\<not> stopOnce (NewCircuitBreakerWithOptions name mc mr ws n opts)" by (simp add: unstarted_def)
  show "tokenStop (NewCircuitBreakerWithOptions name mc mr ws n opts) = Some False \<longleftrightarrow> 0 < mr \<and> 0 < ws"
  proof (cases "0 < mr \<and> 0 < ws")
    case True
    with initTokenBucket_on(5) [of cb] cfg new show ?thesis by simp
  next
    case False
    then have "initTokenBucket cb = cb" using cfg by (intro initTokenBucket_off) auto
    with False u new show ?thesis by (simp add: unstarted_def)
  qed
qed

lemma new_breaker_plain: "NewCircuitBreaker name mc mr ws n = NewCircuitBreakerWithOptions name mc mr ws n []"
  by (simp add: NewCircuitBreaker_def NewCircuitBreakerWithOptions_def)

lemma no_options: "package_options []"
  by (simp add: package_options_def)

lemma directory_register:
  assumes "world_ok w" and "GetCircuitBreaker name w = None" and "\<not> stopOnce cb" and "(tokenStop cb = Some False) = limited cfg"
  shows "directory_of (snd (register name cb cfg w)) = dir_add cfg name (directory_of w)"
    and "world_ok (snd (register name cb cfg w))" and "fst (register name cb cfg w) = fresh_addr (directory_of w)"
proof -
  let ?w = "snd (register name cb cfg w)"
  have heap: "heap ?w = heap w @ [cb]" by (simp add: register_def Let_def)
  have "entries (directory_of ?w) = entries (dir_add cfg name (directory_of w))"
    by (simp add: directory_of_def dir_add_def register_get fun_eq_iff)
      (simp add: register_def Let_def map_get_def update_conv')
  moreover have "active (directory_of ?w) = active (dir_add cfg name (directory_of w))"
    using assms(4) by (auto simp: directory_of_def dir_add_def heap nth_append less_Suc_eq)
  ultimately show "directory_of ?w = dir_add cfg name (directory_of w)"
    by (simp add: directory_of_def dir_add_def heap)
  show "world_ok ?w"
    using assms(1,3) mgr_ok_register [OF _ assms(2)] by (auto simp: world_ok_def heap)
  show "fst (register name cb cfg w) = fresh_addr (directory_of w)" by (simp add: register_def directory_of_def Let_def)
qed

lemma directory_entries:
  "entries (directory_of w) k = map_option (\<lambda>a. (a, map_get zero_config (m_cfg (mgr w)) k)) (GetCircuitBreaker k w)"
  by (simp add: directory_of_def)

lemma directory_get [simp]: "map_option fst (entries (directory_of w) k) = GetCircuitBreaker k w"
  by (cases "GetCircuitBreaker k w") (simp_all add: directory_entries)

lemma directory_dom: "dom (entries (directory_of w)) = fst ` set (m_cb (mgr w))"
proof -
  have "dom (entries (directory_of w)) = dom (map_of (m_cb (mgr w)))"
    by (auto simp: dom_def directory_entries GetCircuitBreaker_def)
  then show ?thesis by (simp add: dom_map_of_conv_image_fst)
qed

lemma directory_ensure:
  assumes "world_ok w" and "package_options (spec_Options spec)"
  shows "dir_new (spec_config spec) name (directory_of w) =
      (fst (ensure spec name w), directory_of (snd (ensure spec name w)))" and "world_ok (snd (ensure spec name w))"
proof -
  let ?cb = "NewCircuitBreakerWithOptions name (spec_MaxConcurrent spec) (spec_MaxRequests spec)
      (spec_WindowSeconds spec) (spec_MaxRetries spec) (spec_Options spec)"
  have cb: "\<not> stopOnce ?cb" "(tokenStop ?cb = Some False) = limited (spec_config spec)"
    using new_breaker_stop [OF assms(2)] by (simp_all add: limited_def spec_config_def)
  have *: "dir_new (spec_config spec) name (directory_of w) =
      (fst (ensure spec name w), directory_of (snd (ensure spec name w))) \<and> world_ok (snd (ensure spec name w))"
  proof (cases "GetCircuitBreaker name w")
    case None
    then have "ensure spec name w = register name ?cb (spec_config spec) w" by (simp add: ensure_def GetCircuitBreaker_def)
    with directory_register [OF assms(1) None cb] None show ?thesis by (simp add: dir_new_def directory_entries)
  next
    case (Some a)
    with assms(1) show ?thesis by (simp add: ensure_def dir_new_def directory_entries GetCircuitBreaker_def)
  qed
  then show "dir_new (spec_config spec) name (directory_of w) =
      (fst (ensure spec name w), directory_of (snd (ensure spec name w)))" and "world_ok (snd (ensure spec name w))"
    by simp_all
qed

text \<open>The plain creation is the same with a spec of no options.\<close>

definition plain_spec :: "breakerConfig \<Rightarrow> BreakerSpec" where
  "plain_spec cfg =
     \<lparr>spec_MaxConcurrent = bc_maxConcurrent cfg, spec_MaxRequests = bc_maxRequests cfg,
      spec_WindowSeconds = bc_windowSeconds cfg, spec_MaxRetries = bc_maxRetries cfg, spec_Options = []\<rparr>"

lemma plain_spec [simp]: "spec_config (plain_spec cfg) = cfg" "spec_Options (plain_spec cfg) = []"
  by (simp_all add: plain_spec_def spec_config_def)

lemma create_ensures:
  "manager_NewCircuitBreaker (bc_maxConcurrent cfg) (bc_maxRequests cfg) (bc_windowSeconds cfg) (bc_maxRetries cfg) name w =
     ensure (plain_spec cfg) name w"
  by (cases "map_of (m_cb (mgr w)) name"; cases cfg)
    (simp_all add: manager_NewCircuitBreaker_def ensure_def new_breaker_plain plain_spec_def spec_config_def)

lemma strict_ensures:
  "NewCircuitBreakerStrict (bc_maxConcurrent cfg) (bc_maxRequests cfg) (bc_windowSeconds cfg) (bc_maxRetries cfg) name w =
     (case GetCircuitBreaker name w of
        Some a \<Rightarrow>
          (let got = map_get zero_config (m_cfg (mgr w)) name
           in if got = cfg then Inr a else Inl (DivergentConfig name got cfg), w)
      | None \<Rightarrow> (Inr (fst (ensure (plain_spec cfg) name w)), snd (ensure (plain_spec cfg) name w)))"
  by (cases "map_of (m_cb (mgr w)) name"; cases cfg)
    (simp_all add: NewCircuitBreakerStrict_def ensure_def new_breaker_plain plain_spec_def spec_config_def GetCircuitBreaker_def
      Let_def split: prod.splits)

lemma directory_create:
  assumes "world_ok w"
  shows "dir_new cfg name (directory_of w) =
      (fst (ensure (plain_spec cfg) name w), directory_of (snd (ensure (plain_spec cfg) name w)))"
    and "world_ok (snd (ensure (plain_spec cfg) name w))"
  using directory_ensure [OF assms, of "plain_spec cfg" name] no_options by simp_all

lemma stop_heap:
  "a < length (heap w) \<Longrightarrow> world_ok w \<Longrightarrow> tokenStop (Stop (heap w ! a)) \<noteq> Some False"
  "world_ok w \<Longrightarrow> cb \<in> set (heap w) \<Longrightarrow> stopOnce (Stop cb) \<longrightarrow> tokenStop (Stop cb) \<noteq> Some False"
  by (auto simp: world_ok_def Stop_def split: option.splits)

lemma stop_at_nth: "b < length h \<Longrightarrow> stop_at a h ! b = (if b = a then Stop (h ! b) else h ! b)"
  by (simp add: stop_at_def nth_list_update)

lemma fold_stop_nth: "b < length h \<Longrightarrow> fold stop_at as h ! b = (if b \<in> set as then Stop (h ! b) else h ! b)"
proof (induction as arbitrary: h)
  case (Cons a as)
  have "length (stop_at a h) = length h" by (simp add: stop_at_def)
  with Cons show ?case by (auto simp: stop_at_nth)
qed simp

lemma directory_remove:
  assumes "world_ok w"
  shows "directory_of (Remove name w) = dir_remove name (directory_of w)" and "world_ok (Remove name w)"
proof -
  have ok: "mgr_ok w" using assms by (simp add: world_ok_def)
  have *: "directory_of (Remove name w) = dir_remove name (directory_of w) \<and> world_ok (Remove name w)"
  proof (cases "GetCircuitBreaker name w")
    case None
    with assms show ?thesis by (simp add: Remove_def dir_remove_def directory_entries GetCircuitBreaker_def)
  next
    case (Some a)
    let ?w = "Remove name w"
    have "a \<in> set (map snd (m_cb (mgr w)))" using mgr_ok_registered [OF ok] Some by blast
    then have a: "a < length (heap w)" using ok by (simp only: mgr_ok_def)
    have w: "?w = \<lparr>mgr = \<lparr>m_cb = AList.delete name (m_cb (mgr w)), m_cfg = AList.delete name (m_cfg (mgr w))\<rparr>,
        heap = stop_at a (heap w)\<rparr>" using Some by (simp add: Remove_def GetCircuitBreaker_def)
    have len: "length (heap ?w) = length (heap w)" by (simp add: w stop_at_def)
    have "entries (directory_of ?w) k = (entries (dir_remove name (directory_of w))) k" for k
      using Some by (auto simp: directory_of_def dir_remove_def w GetCircuitBreaker_def delete_conv' map_get_def)
    moreover have "active (directory_of ?w) = active (dir_remove name (directory_of w))"
      using Some stop_heap(1) [OF a assms] by (auto simp: directory_of_def dir_remove_def w stop_at_nth stop_at_def nth_list_update split: if_splits)
    moreover have "fresh_addr (directory_of ?w) = fresh_addr (dir_remove name (directory_of w))"
      using Some len by (simp add: directory_of_def dir_remove_def)
    ultimately have "directory_of ?w = dir_remove name (directory_of w)" by (simp add: fun_eq_iff)
    moreover have "stopOnce cb \<longrightarrow> tokenStop cb \<noteq> Some False" if cb: "cb \<in> set (heap ?w)" for cb
    proof -
      obtain b where b: "b < length (heap w)" "cb = stop_at a (heap w) ! b" using cb len by (auto simp: w in_set_conv_nth)
      then show ?thesis using stop_heap(2) [OF assms, of "heap w ! b"] assms by (auto simp: stop_at_nth world_ok_def)
    qed
    ultimately show ?thesis using mgr_ok_Remove [OF ok] by (simp add: world_ok_def)
  qed
  then show "directory_of (Remove name w) = dir_remove name (directory_of w)" and "world_ok (Remove name w)" by simp_all
qed

lemma directory_stop_all:
  assumes "world_ok w" and "\<forall>xs. mset (shuffle xs) = mset xs"
  shows "directory_of (StopAll shuffle w) = dir_stop_all (directory_of w)" and "world_ok (StopAll shuffle w)"
proof -
  let ?w = "StopAll shuffle w" and ?as = "shuffle (map snd (m_cb (mgr w)))"
  have ok: "mgr_ok w" using assms by (simp add: world_ok_def)
  have heap: "heap ?w = fold stop_at ?as (heap w)" "length (heap ?w) = length (heap w)" "mgr ?w = mgr w"
    by (simp_all add: StopAll_def heap_StopAll)
  have as: "b \<in> set ?as \<longleftrightarrow> (\<exists>k. GetCircuitBreaker k w = Some b)" for b
    using shuffle_set [OF assms(2)] mgr_ok_registered [OF ok] by simp
  have nth: "heap ?w ! b = (if b \<in> set ?as then Stop (heap w ! b) else heap w ! b)" if "b < length (heap w)" for b
    using that by (simp add: heap(1) fold_stop_nth)
  have "GetCircuitBreaker k ?w = GetCircuitBreaker k w" for k by (simp add: GetCircuitBreaker_def heap(3))
  then have "entries (directory_of ?w) = entries (directory_of w)" by (simp add: directory_of_def heap(3))
  moreover have "active (directory_of ?w) = active (directory_of w) - fst ` ran (entries (directory_of w))"
  proof -
    have "fst ` ran (entries (directory_of w)) = {b. \<exists>k. GetCircuitBreaker k w = Some b}"
      by (force simp: ran_def directory_entries)
    with as have "fst ` ran (entries (directory_of w)) = set ?as" by auto
    then show ?thesis using nth stop_heap(1) [OF _ assms(1)] by (auto simp: directory_of_def heap(2) split: if_splits)
  qed
  ultimately show "directory_of ?w = dir_stop_all (directory_of w)" by (simp add: dir_stop_all_def directory_of_def heap(2))
  have "stopOnce cb \<longrightarrow> tokenStop cb \<noteq> Some False" if cb: "cb \<in> set (heap ?w)" for cb
  proof -
    obtain b where b: "b < length (heap w)" "cb = heap ?w ! b" using cb by (auto simp: in_set_conv_nth heap(2))
    then show ?thesis using nth [OF b(1)] stop_heap(2) [OF assms(1), of "heap w ! b"] assms(1) by (auto simp: world_ok_def)
  qed
  then show "world_ok ?w" using mgr_ok_StopAll [OF ok] by (simp add: world_ok_def)
qed

lemma directory_error:
  "mgr_ok w \<Longrightarrow> validate (mgr w) specs names = dir_error specs names (directory_of w)"
proof (induction names)
  case (Cons name names)
  have "check_spec (mgr w) name spec = dir_check (directory_of w) name spec" for spec
    by (auto simp: check_spec_def dir_check_def directory_entries GetCircuitBreaker_def Let_def split: option.splits)
  with Cons show ?case by (simp split: option.split)
qed simp

lemma directory_create_all:
  assumes "world_ok w" and "\<forall>k. package_options (spec_Options (map_get zero_spec specs k))"
  shows "directory_of (snd (create_all specs names out w)) = fold (dir_ensure specs) names (directory_of w) \<and>
    world_ok (snd (create_all specs names out w))"
  using assms(1)
proof (induction names arbitrary: out w)
  case (Cons name names)
  obtain a w1 where e: "ensure (map_get zero_spec specs name) name w = (a, w1)" by fastforce
  have "dir_ensure specs name (directory_of w) = directory_of w1" "world_ok w1"
    using directory_ensure [OF Cons.prems, of "map_get zero_spec specs name" name] assms(2) e by (simp_all add: dir_ensure_def)
  with Cons.IH [of w1] e show ?case by simp
qed simp

lemma options_of_specs:
  assumes "\<forall>(k, spec) \<in> set specs. package_options (spec_Options spec)"
  shows "\<forall>k. package_options (spec_Options (map_get zero_spec specs k))"
  using assms no_options by (auto simp: map_get_def zero_spec_def split: option.splits dest!: map_of_SomeD)

lemma configure_op:
  assumes "world_ok w" and "\<forall>xs. mset (shuffle xs) = mset xs" and "\<forall>(k, spec) \<in> set specs. package_options (spec_Options spec)"
    and "manager_op (Configure shuffle PackageManager specs) w = (r, w')"
  shows "dir_op (Configure shuffle PackageManager specs) (directory_of w) = (r, directory_of w') \<and> world_ok w'"
proof -
  let ?names = "sort (map fst specs)"
  have ok: "mgr_ok w" using assms(1) by (simp add: world_ok_def)
  have names: "sort (shuffle (map fst specs)) = ?names" by (rule sort_shuffle) (simp add: assms(2))
  note err = directory_error [OF ok, of specs ?names]
  show ?thesis
  proof (cases "dir_error specs ?names (directory_of w)")
    case (Some e)
    with assms(1,4) err names show ?thesis by (simp add: ConfigureManager_def)
  next
    case None
    obtain out v where c: "create_all specs ?names [] w = (out, v)" by fastforce
    have v: "directory_of v = fold (dir_ensure specs) ?names (directory_of w)" "world_ok v"
      using directory_create_all [OF assms(1) options_of_specs [OF assms(3)], of ?names "[]"] c by simp_all
    have "map_of out = (\<lambda>k. if k \<in> set ?names then map_option fst (entries (directory_of v) k) else None)"
      using create_all_effect [OF ok c] by (auto simp: configured_def fun_eq_iff)
    with None c v err names assms(4) show ?thesis by (auto simp: ConfigureManager_def Let_def)
  qed
qed

lemma strict_op:
  assumes "world_ok w" and "manager_op (CreateStrict cfg name) w = (r, w')"
  shows "dir_op (CreateStrict cfg name) (directory_of w) = (r, directory_of w') \<and> world_ok w'"
proof (cases "GetCircuitBreaker name w")
  case None
  with assms(2) directory_create [OF assms(1), of cfg name] show ?thesis
    by (auto simp: strict_ensures dir_strict_def dir_new_def directory_entries)
next
  case (Some a)
  with assms show ?thesis by (auto simp: strict_ensures dir_strict_def directory_entries Let_def)
qed

interpretation manager_sim: simulation manager_op dir_op directory_of world_ok proper
proof
  fix w p r w' assume *: "world_ok w" "proper p" "manager_op p w = (r, w')"
  then have ok: "mgr_ok w" by (simp add: world_ok_def)
  show "dir_op p (directory_of w) = (r, directory_of w') \<and> world_ok w'"
  proof (cases p)
    case (Create cfg name)
    with *(3) directory_create [OF *(1), of cfg name] show ?thesis by (auto simp: create_ensures split: prod.splits)
  next
    case (CreateStrict cfg name)
    with * strict_op [OF *(1)] show ?thesis by simp
  next
    case (Lookup name)
    with * show ?thesis by auto
  next
    case (ListNames shuffle)
    have "set (List shuffle w) = dom (entries (directory_of w))"
      using shuffle_set [of shuffle] *(2) ListNames by (simp add: List_def directory_dom)
    then show ?thesis using ListNames * by auto
  next
    case (RemoveName name)
    with * directory_remove [OF *(1)] show ?thesis by auto
  next
    case (StopEach shuffle)
    with * directory_stop_all [OF *(1)] show ?thesis by auto
  next
    case (Configure shuffle m specs)
    show ?thesis
    proof (cases m)
      case PackageManager
      with Configure * configure_op [OF *(1), of shuffle specs] show ?thesis by auto
    next
      case OtherManager
      with Configure * show ?thesis by (auto simp: ConfigureManager_def)
    qed
  qed
qed

section \<open>Properties\<close>

definition empty_directory :: directory where
  "empty_directory = \<lparr>entries = Map.empty, active = {}, fresh_addr = 0\<rparr>"

lemma new_directory: "directory_of empty_world = empty_directory" "world_ok empty_world"
  by (simp_all add: directory_of_def empty_directory_def world_ok_def) (simp_all add: empty_world_def)

text \<open>C16: The manager implements the directory: every history of creations, strict creations, lookups,
  listings, removals, stops and configurations on a new manager returns, answer for answer and
  error for error, what the directory returns, in whatever order Go ranges over its maps; at the end
  the names lead to the directory's addresses and configurations, and exactly the breakers the
  directory counts as active have a refiller that was not told to stop.\<close>

theorem manager_refines_directory:
  assumes "\<forall>p \<in> set ps. proper p" and "run_ops manager_op ps empty_world = (rs, w)"
  shows "run_ops dir_op ps empty_directory = (rs, directory_of w) \<and> mgr_ok w"
  using manager_sim.history_simulates [OF new_directory(2) assms] by (simp add: new_directory(1) world_ok_def)

definition sample_history :: "client_op list" where
  "sample_history =
     (let cfg = \<lparr>bc_maxConcurrent = 1, bc_maxRequests = 10, bc_windowSeconds = 1, bc_maxRetries = 0\<rparr>
      in [Create cfg ''omie'', CreateStrict (cfg\<lparr>bc_maxRetries := 2\<rparr>) ''omie'', Create cfg ''ccee'', RemoveName ''omie'',
          ListNames rev, Lookup ''omie''])"

theorem manager_refines_directory_witness:
  "\<exists>w got want. run_ops manager_op sample_history empty_world =
     ([Found (Some 0), Created (Inl (DivergentConfig ''omie'' got want)), Found (Some 1), Nothing, Names {''ccee''}, Found None], w) \<and>
     active (directory_of w) = {1}"
proof -
  obtain rs w where run: "run_ops manager_op sample_history empty_world = (rs, w)" by fastforce
  have "\<forall>p \<in> set sample_history. proper p" by (simp add: sample_history_def Let_def)
  from manager_refines_directory [OF this run]
  have "run_ops dir_op sample_history empty_directory = (rs, directory_of w)" by simp
  moreover have "\<exists>d. run_ops dir_op sample_history empty_directory =
      ([Found (Some 0), Created (Inl (DivergentConfig ''omie''
           \<lparr>bc_maxConcurrent = 1, bc_maxRequests = 10, bc_windowSeconds = 1, bc_maxRetries = 0\<rparr>
           \<lparr>bc_maxConcurrent = 1, bc_maxRequests = 10, bc_windowSeconds = 1, bc_maxRetries = 2\<rparr>)),
         Found (Some 1), Nothing, Names {''ccee''}, Found None], d) \<and> active d = {1}"
    by (simp add: sample_history_def empty_directory_def dir_new_def dir_strict_def dir_add_def dir_remove_def limited_def Let_def
        insert_commute insert_Diff_if)
  ultimately show ?thesis using run by force
qed

end
