(* ===== verification/Spec2Isabelle.thy ===== *)
theory Spec2Isabelle
  imports Demo_Fair Fleet_Fair Root_Package Directory
begin

text \<open>
  A verification development for the Go package \<open>circuit-breaker\<close>: a client-side guard around HTTP
  calls with a bulkhead (a semaphore), a rate limit (a token bucket), retries with backoff, an
  optional closed/open/half-open state machine, an optional global gate for \<open>Retry-After\<close>, metrics
  per host and endpoint, and a registry of named breakers; with a test server and a demonstration.

  \<^bold>\<open>The program and the theories.\<close> A call enters \<open>Do\<close> (pkg/circuitbreaker.go), asks the state machine
  (pkg/state.go) for admission, takes a slot of the semaphore, and then for each attempt waits at the
  gate and for a token, records the attempt, sends, and records the answer (pkg/metrics\_state.go);
  on the way out the deferred functions give the slot back, report to the state machine and cancel
  the context. All calls share one breaker. The theories follow this:

  \<^item> Prelude: signed 64-bit arithmetic written out on integers, lists, association lists, collections of
    facts. Go\_Time, Go\_Float, Go\_Errors, Go\_Http, Go\_Strings, Go\_Date, Go\_Ticker: the parts of the Go
    library the code uses (instants and durations, IEEE doubles as rationals with rounding to nearest
    even, error values with \<open>errors.Is\<close> and \<open>errors.As\<close>, contexts, requests, responses, decimal numbers,
    \<open>http.ParseTime\<close>, tickers that drop ticks). Go\_Errors holds the errors of pkg/errors.go and
    \<open>isRetryable\<close>.
  \<^item> Breaker\_State (pkg/state.go): \<open>breakerState\<close> as a record, \<open>allow\<close>, \<open>report\<close>, \<open>classifyOutcome\<close>. The
    abstract machine \<open>circuit\<close> has only what each state needs; \<open>allow\<close> and \<open>report\<close> refine it. The
    locale \<open>admission\<close> is the contract between the machine and the calls that hold its tickets, with
    the probe accounting (\<open>ledger\<close>) proved once and interpreted on \<open>allow\<close> and \<open>report\<close>.
  \<^item> Channels: buffered channels of empty structs, with the locale \<open>bounded\_buffer\<close>.
  \<^item> Sample\_Rings and Wheel (pkg/metrics\_state.go): the rings of the last samples and the wheel of
    buckets of one second, each behind a locale (\<open>ring\_buffer\<close>, \<open>window\_counter\<close>) that proves what a
    history leaves in them.
  \<^item> Metrics (pkg/metrics\_state.go, pkg/endpoint\_metrics.go and the record functions of
    pkg/circuitbreaker.go): families, endpoint states, the snapshot, \<open>updateMetrics\<close> with its aggregate
    and overflow entries. The locale \<open>tally\_update\<close> is what it asks of the functions it applies.
  \<^item> Breaker\_Core (pkg/circuitbreaker.go, pkg/options.go): the fields of the breaker, constructors,
    options, the set-up of the bucket, \<open>backoffFor\<close>, \<open>Stop\<close> (its signal and the condition it waits for).
  \<^item> Token\_Bucket: the wait for a token and the ticks of the refiller, as whole batches (\<open>tick\<close>) and send by
    send (\<open>refill\_one\<close>), and how many calls they let through in a window of time.
  \<^item> Retry\_After: reading the header, arming the gate (with the compare-and-swap loop under
    interference) and waiting at it.
  \<^item> Call: a call of \<open>Do\<close> as a machine whose program counter names the next piece of the source,
    \<open>do\_step\<close>. Call\_Laws: the control flow \<open>control\<close> that every step follows, calls reachable under any
    interference (\<open>reach\<close>), the locale \<open>call\_law\<close> with four interpretations (attempts and records, the
    retry specification, resources, panics) and the rank that bounds the steps. Do\_Properties: the
    properties of \<open>Do\<close>. Effects: what one step does to the shared breaker.
  \<^item> System: any number of calls on one breaker, interleaved with the refiller and its ticker, \<open>Stop\<close>, time
    and the ends of contexts (\<open>sys\_step\<close>), with the invariant that ties semaphore, machine and metrics
    to the calls, and the rate limit in ticks and in time. System\_Laws: what holds of every history of
    such a system (an open circuit, a closed gate, \<open>Stop\<close>, the types of the fields). System\_Live: all calls
    in flight can come to their end by themselves, with the locale \<open>progress\<close> of the Prelude, a cost that
    some steps lower until the goal is reached.
  \<^item> Fair\_Runs: infinite runs, weak and strong fairness, and the locale \<open>fair\_progress\<close>: in each state an
    action is named that lowers a cost, and no other step raises it. System\_Fair: in every fair run with
    finitely many calls all calls end, and \<open>Stop\<close> returns; fair runs exist from every reachable state.
    Fleet\_Fair and Demo\_Fair carry this to \<open>Remove\<close> and \<open>StopAll\<close> of a manager and to the demonstration.
    An action is one goroutine's (a call, the refiller, a stopper), the ticker's or the clock's; strong
    fairness is asked of one \<open>select\<close> only, the refiller's between its ticker and the stop channel.
  \<^item> Manager (pkg/manager.go, pkg/spec.go): the registry over a heap of breakers and
    \<open>ConfigureManager\<close>, with the locales \<open>get\_or\_create\<close> and \<open>stoppable\<close>. Fleet: a manager whose breakers
    run, with \<open>Remove\<close> and \<open>StopAll\<close> as goroutines that stop and wait (\<open>fleet\_step\<close>). Directory
    (pkg/ports\_manager.go): the abstract machine the manager implements, operation by operation, through
    the locale \<open>simulation\<close>. Root\_Package
    (circuitbreaker.go): the forwarding names of the module's root.
  \<^item> Fake\_Server (internal/fakeserver.go): the counters of the test server; Server\_Run: its handlers and
    monitors as they run (\<open>srv\_step\<close>). Demo (cmd/main.go): the demonstration as a client of a manager
    (\<open>demo\_step\<close>); Demo\_Live: it can always run to its exit.

  \<^bold>\<open>Conventions.\<close> A nil pointer, channel or function is \<open>None\<close>. \<open>int\<close>, \<open>int64\<close> and \<open>time.Duration\<close> are
  integers, with \<open>wrap64\<close> where the source can leave 64 bits; counters that wrap are words. Errors are
  values, a panic is a result of its own, a nil dereference in the metrics is the \<open>None\<close> of
  \<open>updateMetrics\<close>, proved unreachable. A \<open>select\<close> is one step per arm. The attempt counter of \<open>Do\<close> is
  not wrapped: it would take \<open>2 ^ 63\<close> attempts.

  \<^bold>\<open>Parameters.\<close> The answers of the transport and of \<open>GetBody\<close>, panics included, are inputs of the
  steps that wait for them; the retry policy of the caller, \<open>rand.N\<close>, \<open>net.Listen\<close>, the table of time
  zones that \<open>http.ParseTime\<close> consults and the order in which Go ranges over a map are functions
  passed in; where a property needs it, a hypothesis says that a draw lies below its argument or that
  the range visits every key once. The clock of a step is the time of the system; a step that reads the
  clock more than once reads the same value.

  \<^bold>\<open>Bounds.\<close> The probe accounting holds for fewer than \<open>2 ^ 64\<close> steps, because the generation of the
  half-open periods is a 64-bit word. A run of one call takes at most ten steps per attempt and seven
  more, besides prolonged sleeps at the gate. The floating-point means are exact for durations on a
  grid (see Sample\_Rings); the tick batches are within four per cent (see Token\_Bucket).

  \<^bold>\<open>What is not modelled.\<close> The bytes of bodies and connections, the texts of formatted errors, the
  memory model below the mutexes and channels (each critical section is one step), what is printed
  beyond the values that go into it, sockets and the HTTP server itself, and the interface
  declaration of pkg/ports\_circuitbreaker.go, which holds no code.
\<close>

end
